(* ===== verification/Kern_Prelude.thy ===== *)
theory Kern_Prelude
  imports Main "HOL-Library.Word"
begin

text \<open>
  Shared ground of the development: the machine integer types of libs/defs.h, the way a kernel
  routine can stop (failed assert, panic, a bad pointer, a loop that never ends), the sequencing
  operator of such routines, and general lemmas on lists and functions used by several components.
\<close>

unbundle bit_operations_syntax

section \<open>Machine integers\<close>

type_synonym u8 = "8 word"
type_synonym u16 = "16 word"
type_synonym u32 = "32 word"
type_synonym u64 = "64 word"
type_synonym s32 = "32 word"

section \<open>Outcomes of kernel routines\<close>

text \<open>
  An assert of kern/debug/assert.h and a panic both stop the kernel; a dereference of NULL or of
  an address outside the object it should point into is undefined behaviour and is kept apart; a
  loop that does not end is \<^term>\<open>Hang\<close>.  No theorem treats one of them as a result.
\<close>

datatype kerr = AssertFail string | Panic string | BadPtr string | Hang

type_synonym 'a res = "kerr + 'a"

definition bindR :: "'a res \<Rightarrow> ('a \<Rightarrow> 'b res) \<Rightarrow> 'b res" where
  "bindR m f = (case m of Inl e \<Rightarrow> Inl e | Inr x \<Rightarrow> f x)"

definition assertR :: "bool \<Rightarrow> string \<Rightarrow> unit res" where
  "assertR b msg = (if b then Inr () else Inl (AssertFail msg))"

definition returned :: "'a option \<Rightarrow> 'a res" where
  "returned r = (case r of None \<Rightarrow> Inl Hang | Some x \<Rightarrow> Inr x)"

named_theorems res_simps "evaluation of the outcome operators"

lemma bindR_Inl [simp, res_simps]: "bindR (Inl e) f = Inl e"
  by (simp add: bindR_def)

lemma bindR_Inr [simp, res_simps]: "bindR (Inr x) f = f x"
  by (simp add: bindR_def)

lemma assertR_True [simp, res_simps]: "assertR True msg = Inr ()"
  by (simp add: assertR_def)

lemma assertR_False [simp, res_simps]: "assertR False msg = Inl (AssertFail msg)"
  by (simp add: assertR_def)

lemma returned_Some [simp, res_simps]: "returned (Some x) = Inr x"
  by (simp add: returned_def)

lemma returned_None [simp, res_simps]: "returned None = Inl Hang"
  by (simp add: returned_def)

lemma bindR_eq_Inr: "bindR m f = Inr y \<longleftrightarrow> (\<exists>x. m = Inr x \<and> f x = Inr y)"
  by (cases m) auto

lemma assertR_eq_Inr: "assertR b msg = Inr u \<longleftrightarrow> b"
  by (simp add: assertR_def)

lemma bindR_assoc: "bindR (bindR m f) g = bindR m (\<lambda>x. bindR (f x) g)"
  by (cases m) auto

lemma bindR_cong [fundef_cong]:
  "m = m' \<Longrightarrow> (\<And>x. m' = Inr x \<Longrightarrow> f x = f' x) \<Longrightarrow> bindR m f = bindR m' f'"
  by (cases m') auto

section \<open>Lists and function updates\<close>

lemma last_Cons_mem: "last (h # xs) \<in> set (h # xs)"
  by (metis last_in_set list.distinct(1))

lemma hd_snoc_mem: "hd (ys @ [h]) \<in> insert h (set ys)"
  by (cases ys) auto

lemma distinct_last_notin:
  "distinct (h # xs @ ys) \<Longrightarrow> last (h # xs) \<notin> set ys"
  using last_Cons_mem [of h xs] by auto

end
