(* ===== verification/Bitops.thy ===== *)
theory Bitops
  imports Kern_Prelude
begin

text \<open>
  libs/atomic.h (bit operations on an array of 64-bit words), kern/driver/intr.c and the interrupt
  part of kern/sync/sync.h (saving and restoring \<open>sstatus.SIE\<close>), and the lock word of sync.h.
  The kernel runs on one hart, so an AMO instruction is one update of the word.
\<close>

section \<open>Bit operations\<close>

definition BITS_PER_LONG :: nat where "BITS_PER_LONG = 64"

definition BIT_MASK :: "nat \<Rightarrow> u64" where
  "BIT_MASK nr = push_bit (nr mod BITS_PER_LONG) 1"

definition BIT_WORD :: "nat \<Rightarrow> nat" where
  "BIT_WORD nr = nr div BITS_PER_LONG"

definition set_bit_at :: "nat \<Rightarrow> (nat \<Rightarrow> u64) \<Rightarrow> (nat \<Rightarrow> u64)" where
  "set_bit_at nr a = a(BIT_WORD nr := a (BIT_WORD nr) OR BIT_MASK nr)"

definition clear_bit_at :: "nat \<Rightarrow> (nat \<Rightarrow> u64) \<Rightarrow> (nat \<Rightarrow> u64)" where
  "clear_bit_at nr a = a(BIT_WORD nr := a (BIT_WORD nr) AND NOT (BIT_MASK nr))"

definition change_bit_at :: "nat \<Rightarrow> (nat \<Rightarrow> u64) \<Rightarrow> (nat \<Rightarrow> u64)" where
  "change_bit_at nr a = a(BIT_WORD nr := a (BIT_WORD nr) XOR BIT_MASK nr)"

text \<open>\<open>test_bit\<close> reads the first word only and shifts it; a shift of 64 or more is undefined in C.\<close>

definition test_bit_at :: "nat \<Rightarrow> (nat \<Rightarrow> u64) \<Rightarrow> bool res" where
  "test_bit_at nr a =
     (if nr < BITS_PER_LONG then Inr (drop_bit nr (a 0) AND 1 \<noteq> 0) else Inl (BadPtr ''shift''))"

definition test_and_set_bit :: "nat \<Rightarrow> (nat \<Rightarrow> u64) \<Rightarrow> bool \<times> (nat \<Rightarrow> u64)" where
  "test_and_set_bit nr a = (a (BIT_WORD nr) AND BIT_MASK nr \<noteq> 0, set_bit_at nr a)"

definition test_and_clear_bit :: "nat \<Rightarrow> (nat \<Rightarrow> u64) \<Rightarrow> bool \<times> (nat \<Rightarrow> u64)" where
  "test_and_clear_bit nr a = (a (BIT_WORD nr) AND BIT_MASK nr \<noteq> 0, clear_bit_at nr a)"

lemma BIT_MASK_bit: "bit (BIT_MASK nr) k \<longleftrightarrow> k = nr mod 64"
  by (auto simp: BIT_MASK_def BITS_PER_LONG_def bit_exp_iff)

lemma and_BIT_MASK: "w AND BIT_MASK nr \<noteq> 0 \<longleftrightarrow> bit w (nr mod 64)"
proof
  assume "bit w (nr mod 64)"
  then have "bit (w AND BIT_MASK nr) (nr mod 64)" by (simp add: bit_and_iff BIT_MASK_bit)
  then show "w AND BIT_MASK nr \<noteq> 0" by (metis bit_0_eq bot_apply bot_bool_def)
next
  assume "w AND BIT_MASK nr \<noteq> 0"
  then obtain k where "bit (w AND BIT_MASK nr) k"
    by (metis bit_eqI bit_0_eq bot_apply bot_bool_def)
  then show "bit w (nr mod 64)" by (auto simp: bit_and_iff BIT_MASK_bit)
qed

text \<open>One bit of the whole array, numbered as the operations number it.\<close>

definition arr_bit :: "(nat \<Rightarrow> u64) \<Rightarrow> nat \<Rightarrow> bool" where
  "arr_bit a nr \<longleftrightarrow> bit (a (BIT_WORD nr)) (nr mod 64)"

lemma same_bit: "BIT_WORD m = BIT_WORD n \<Longrightarrow> m mod 64 = n mod 64 \<Longrightarrow> m = n"
  by (metis BITS_PER_LONG_def BIT_WORD_def div_mult_mod_eq)

lemma arr_bit_set: "arr_bit (set_bit_at n a) m \<longleftrightarrow> m = n \<or> arr_bit a m"
  using same_bit [of m n] by (auto simp: arr_bit_def set_bit_at_def bit_or_iff BIT_MASK_bit)

lemma arr_bit_clear: "arr_bit (clear_bit_at n a) m \<longleftrightarrow> m \<noteq> n \<and> arr_bit a m"
  using same_bit [of m n]
  by (auto simp: arr_bit_def clear_bit_at_def bit_and_iff bit_not_iff BIT_MASK_bit)

lemma arr_bit_change: "arr_bit (change_bit_at n a) m \<longleftrightarrow> arr_bit a m \<noteq> (m = n)"
  using same_bit [of m n] by (auto simp: arr_bit_def change_bit_at_def bit_xor_iff BIT_MASK_bit)

lemma drop_bit_and_1: "drop_bit n (w :: u64) AND 1 \<noteq> 0 \<longleftrightarrow> bit w n"
  using and_BIT_MASK [of "drop_bit n w" 0] by (simp add: BIT_MASK_def bit_drop_bit_eq)

lemma test_bit_at_arr: "n < 64 \<Longrightarrow> test_bit_at n a = Inr (arr_bit a n)"
  by (simp add: test_bit_at_def BITS_PER_LONG_def drop_bit_and_1 arr_bit_def BIT_WORD_def)

lemma test_and_set_bit_old: "fst (test_and_set_bit n a) = arr_bit a n"
  by (simp add: test_and_set_bit_def and_BIT_MASK arr_bit_def)

lemma test_and_clear_bit_old: "fst (test_and_clear_bit n a) = arr_bit a n"
  by (simp add: test_and_clear_bit_def and_BIT_MASK arr_bit_def)

section \<open>Interrupt flag\<close>

definition SSTATUS_SIE :: u64 where "SSTATUS_SIE = 0x2"
definition SSTATUS_SPIE :: u64 where "SSTATUS_SPIE = 0x20"
definition SSTATUS_SPP :: u64 where "SSTATUS_SPP = 0x100"
definition SSTATUS_SUM :: u64 where "SSTATUS_SUM = 0x40000"

text \<open>\<open>set_csr\<close> and \<open>clear_csr\<close> of libs/riscv.h on the \<open>sstatus\<close> register.\<close>

definition intr_enable :: "u64 \<Rightarrow> u64" where "intr_enable sstatus = sstatus OR SSTATUS_SIE"
definition intr_disable :: "u64 \<Rightarrow> u64" where "intr_disable sstatus = sstatus AND NOT SSTATUS_SIE"

definition intr_save :: "u64 \<Rightarrow> bool \<times> u64" where
  "intr_save sstatus =
     (if sstatus AND SSTATUS_SIE \<noteq> 0 then (True, intr_disable sstatus) else (False, sstatus))"

definition intr_restore :: "bool \<Rightarrow> u64 \<Rightarrow> u64" where
  "intr_restore flag sstatus = (if flag then intr_enable sstatus else sstatus)"

lemma SIE_mask: "SSTATUS_SIE = BIT_MASK 1"
  by (simp add: SSTATUS_SIE_def BIT_MASK_def BITS_PER_LONG_def)

lemma SIE_bit: "bit SSTATUS_SIE k \<longleftrightarrow> k = 1"
  by (simp add: SIE_mask BIT_MASK_bit)

lemma and_SIE: "w AND SSTATUS_SIE \<noteq> 0 \<longleftrightarrow> bit w 1"
  using and_BIT_MASK [of w 1] by (simp add: SIE_mask)

lemma intr_save_disabled: "\<not> bit (snd (intr_save w)) 1"
  by (simp add: intr_save_def and_SIE intr_disable_def bit_and_iff bit_not_iff SIE_bit)

lemma intr_save_restore: "intr_restore (fst (intr_save w)) (snd (intr_save w)) = w"
  by (auto simp: intr_save_def and_SIE intr_restore_def intr_enable_def intr_disable_def
      bit_or_iff bit_and_iff bit_not_iff SIE_bit intro!: bit_word_eqI)

section \<open>The lock word\<close>

definition lock_init :: "u64 \<Rightarrow> u64" where "lock_init l = 0"

definition try_lock :: "u64 \<Rightarrow> bool \<times> u64" where
  "try_lock l = (let (old, a) = test_and_set_bit 0 (\<lambda>_. l) in (\<not> old, a 0))"

definition unlock_word :: "u64 \<Rightarrow> u64 res" where
  "unlock_word l = (let (old, a) = test_and_clear_bit 0 (\<lambda>_. l) in
     if old then Inr (a 0) else Inl (Panic ''Unlock failed.''))"

lemma BIT_MASK_0: "BIT_MASK 0 = 1"
  by (simp add: BIT_MASK_def)

lemma BIT_WORD_0: "BIT_WORD 0 = 0"
  by (simp add: BIT_WORD_def)

lemma try_lock_eq: "try_lock l = (\<not> bit l 0, l OR 1)"
  using and_BIT_MASK [of l 0]
  by (auto simp: try_lock_def test_and_set_bit_def set_bit_at_def BIT_MASK_0 BIT_WORD_0)

lemma unlock_word_eq:
  "unlock_word l = (if bit l 0 then Inr (l AND NOT 1) else Inl (Panic ''Unlock failed.''))"
  using and_BIT_MASK [of l 0]
  by (auto simp: unlock_word_def test_and_clear_bit_def clear_bit_at_def BIT_MASK_0 BIT_WORD_0)

end
