(* ===== verification/Ulist.thy ===== *)
theory Ulist
  imports Kern_Prelude
begin

text \<open>
  libs/list.h: the intrusive, circular, doubly linked list that every component of the kernel
  uses.  A pointer is a value of a type \<open>'p\<close> chosen by the client (the header of the list, or the
  link field inside an object); the store of all \<open>prev\<close> and \<open>next\<close> fields is a record of two
  functions.  The interface the other components rely on is the locale \<open>circular_list\<close>.
\<close>

section \<open>The operations of libs/list.h\<close>

record 'p links =
  lprev :: "'p \<Rightarrow> 'p"
  lnext :: "'p \<Rightarrow> 'p"

definition set_prev :: "'p \<Rightarrow> 'p \<Rightarrow> 'p links \<Rightarrow> 'p links" where
  "set_prev p q L = L\<lparr>lprev := (lprev L)(p := q)\<rparr>"

definition set_next :: "'p \<Rightarrow> 'p \<Rightarrow> 'p links \<Rightarrow> 'p links" where
  "set_next p q L = L\<lparr>lnext := (lnext L)(p := q)\<rparr>"

definition list_init :: "'p links \<Rightarrow> 'p \<Rightarrow> 'p links" where
  "list_init L elm = set_prev elm elm (set_next elm elm L)"

text \<open>\<open>list_add_between\<close> and \<open>list_del_between\<close> are \<open>__list_add\<close> and \<open>__list_del\<close>.\<close>

definition list_add_between :: "'p links \<Rightarrow> 'p \<Rightarrow> 'p \<Rightarrow> 'p \<Rightarrow> 'p links" where
  "list_add_between L elm prv nxt =
     set_prev elm prv (set_next elm nxt (set_next prv elm (set_prev nxt elm L)))"

definition list_add_after :: "'p links \<Rightarrow> 'p \<Rightarrow> 'p \<Rightarrow> 'p links" where
  "list_add_after L listelm elm = list_add_between L elm listelm (lnext L listelm)"

definition list_add :: "'p links \<Rightarrow> 'p \<Rightarrow> 'p \<Rightarrow> 'p links" where
  "list_add L listelm elm = list_add_after L listelm elm"

definition list_add_before :: "'p links \<Rightarrow> 'p \<Rightarrow> 'p \<Rightarrow> 'p links" where
  "list_add_before L listelm elm = list_add_between L elm (lprev L listelm) listelm"

definition list_del_between :: "'p links \<Rightarrow> 'p \<Rightarrow> 'p \<Rightarrow> 'p links" where
  "list_del_between L prv nxt = set_prev nxt prv (set_next prv nxt L)"

definition list_del :: "'p links \<Rightarrow> 'p \<Rightarrow> 'p links" where
  "list_del L listelm = list_del_between L (lprev L listelm) (lnext L listelm)"

definition list_del_init :: "'p links \<Rightarrow> 'p \<Rightarrow> 'p links" where
  "list_del_init L listelm = list_init (list_del L listelm) listelm"

definition list_empty :: "'p links \<Rightarrow> 'p \<Rightarrow> bool" where
  "list_empty L lst \<longleftrightarrow> lnext L lst = lst"

definition list_next :: "'p links \<Rightarrow> 'p \<Rightarrow> 'p" where
  "list_next L listelm = lnext L listelm"

definition list_prev :: "'p links \<Rightarrow> 'p \<Rightarrow> 'p" where
  "list_prev L listelm = lprev L listelm"

lemmas list_h_defs = list_init_def list_add_between_def list_add_after_def list_add_def
  list_add_before_def list_del_between_def list_del_def list_del_init_def list_empty_def
  list_next_def list_prev_def set_prev_def set_next_def

section \<open>The list a header represents\<close>

text \<open>
  \<open>seg L a xs b\<close>: following \<open>next\<close> from \<open>a\<close> passes through \<open>xs\<close> and arrives at \<open>b\<close>, and the
  \<open>prev\<close> fields lead back the same way.  \<open>dll L h xs\<close>: the circular list with header \<open>h\<close> holds
  exactly the entries \<open>xs\<close>, in that order.
\<close>

fun seg :: "'p links \<Rightarrow> 'p \<Rightarrow> 'p list \<Rightarrow> 'p \<Rightarrow> bool" where
  "seg L a [] b \<longleftrightarrow> lnext L a = b \<and> lprev L b = a"
| "seg L a (x # xs) b \<longleftrightarrow> lnext L a = x \<and> lprev L x = a \<and> seg L x xs b"

definition dll :: "'p links \<Rightarrow> 'p \<Rightarrow> 'p list \<Rightarrow> bool" where
  "dll L h xs \<longleftrightarrow> distinct (h # xs) \<and> seg L h xs h"

lemma seg_append: "seg L a (xs @ y # ys) b \<longleftrightarrow> seg L a xs y \<and> seg L y ys b"
  by (induction xs arbitrary: a) auto

lemma seg_cong:
  "(\<And>p. p \<in> insert a (set xs) \<Longrightarrow> lnext L' p = lnext L p) \<Longrightarrow>
   (\<And>p. p \<in> insert b (set xs) \<Longrightarrow> lprev L' p = lprev L p) \<Longrightarrow>
   seg L' a xs b = seg L a xs b"
  by (induction xs arbitrary: a) auto

lemma seg_next_last: "seg L a xs b \<Longrightarrow> lnext L (last (a # xs)) = b"
  by (induction xs arbitrary: a) auto

lemma seg_prev_hd: "seg L a xs b \<Longrightarrow> lprev L (hd (xs @ [b])) = a"
  by (cases xs) auto

lemma seg_split:
  "seg L a (xs @ ys) b \<Longrightarrow> lnext L (last (a # xs)) = hd (ys @ [b])"
  "seg L a (xs @ ys) b \<Longrightarrow> lprev L (hd (ys @ [b])) = last (a # xs)"
  by (induction xs arbitrary: a; cases ys; auto)+

text \<open>Two ways to rewrite a segment: change the link that leaves \<open>a\<close>, or the one that enters \<open>b\<close>.\<close>

lemma seg_insert:
  assumes "seg L a (xs @ ys) b" and "distinct (a # xs @ ys)" and "b \<notin> set (xs @ ys)"
    and "e \<notin> set (a # xs @ ys)" and "e \<noteq> b"
  shows "seg (list_add_between L e (last (a # xs)) (hd (ys @ [b]))) a (xs @ e # ys) b"
  using assms
proof (induction xs arbitrary: a)
  case Nil
  show ?case
  proof (cases ys)
    case Nil
    with \<open>seg L a ([] @ ys) b\<close> \<open>e \<notin> set (a # [] @ ys)\<close> \<open>e \<noteq> b\<close> show ?thesis
      by (auto simp: list_h_defs)
  next
    case (Cons y zs)
    let ?L = "list_add_between L e a y"
    have "seg ?L y zs b = seg L y zs b"
      using Nil.prems Cons by (intro seg_cong) (auto simp: list_h_defs)
    with Nil.prems Cons show ?thesis by (auto simp: list_h_defs)
  qed
next
  case (Cons x xs)
  let ?L = "list_add_between L e (last (x # xs)) (hd (ys @ [b]))"
  have "seg ?L x (xs @ e # ys) b"
    using Cons.prems by (intro Cons.IH) auto
  moreover have "lnext ?L a = x" and "lprev ?L x = a"
    using Cons.prems last_Cons_mem [of x xs] hd_snoc_mem [of ys b]
    by (auto simp: list_h_defs)
  ultimately show ?case by simp
qed

lemma seg_delete:
  assumes "seg L a (xs @ e # ys) b" and "distinct (a # xs @ e # ys)" and "b \<notin> set (xs @ e # ys)"
  shows "seg (list_del L e) a (xs @ ys) b"
  using assms
proof (induction xs arbitrary: a)
  case Nil
  show ?case
  proof (cases ys)
    case Nil
    with Nil.prems show ?thesis by (auto simp: list_h_defs)
  next
    case (Cons y zs)
    have "seg (list_del L e) y zs b = seg L y zs b"
      using Nil.prems Cons by (intro seg_cong) (auto simp: list_h_defs)
    with Nil.prems Cons show ?thesis by (auto simp: list_h_defs)
  qed
next
  case (Cons x xs)
  have e: "lprev L e = last (x # xs)" "lnext L e = hd (ys @ [b])"
    using Cons.prems(1) seg_split(2) [of L x xs "e # ys" b] seg_split(1) [of L x "xs @ [e]" ys b]
    by simp_all
  have "seg (list_del L e) x (xs @ ys) b"
    using Cons.prems by (intro Cons.IH) auto
  moreover have "lnext (list_del L e) a = x" and "lprev (list_del L e) x = a"
    using Cons.prems e last_Cons_mem [of x xs] hd_snoc_mem [of ys b]
    by (auto simp: list_h_defs)
  ultimately show ?case by simp
qed

section \<open>What each operation does to the represented list\<close>

lemma dll_init: "dll (list_init L h) h []"
  by (simp add: dll_def list_h_defs)

lemma dll_next: "dll L h (xs @ ys) \<Longrightarrow> list_next L (last (h # xs)) = hd (ys @ [h])"
  by (simp add: dll_def list_next_def seg_split(1) del: last.simps)

lemma dll_prev: "dll L h (xs @ ys) \<Longrightarrow> list_prev L (hd (ys @ [h])) = last (h # xs)"
  by (simp add: dll_def list_prev_def seg_split(2) del: last.simps)

lemma dll_empty: "dll L h xs \<Longrightarrow> list_empty L h \<longleftrightarrow> xs = []"
  by (cases xs) (auto simp: dll_def list_empty_def)

lemma dll_add_after:
  assumes "dll L h (xs @ ys)" and "e \<notin> set (h # xs @ ys)"
  shows "dll (list_add_after L (last (h # xs)) e) h (xs @ e # ys)"
proof -
  have "lnext L (last (h # xs)) = hd (ys @ [h])"
    using dll_next [OF assms(1)] by (simp add: list_next_def)
  with assms seg_insert [of L h xs ys h e] show ?thesis
    by (auto simp: dll_def list_add_after_def simp del: last.simps)
qed

lemma dll_add_before:
  assumes "dll L h (xs @ ys)" and "e \<notin> set (h # xs @ ys)"
  shows "dll (list_add_before L (hd (ys @ [h])) e) h (xs @ e # ys)"
proof -
  have "lprev L (hd (ys @ [h])) = last (h # xs)"
    using dll_prev [OF assms(1)] by (simp add: list_prev_def)
  with assms seg_insert [of L h xs ys h e] show ?thesis
    by (auto simp: dll_def list_add_before_def simp del: last.simps)
qed

lemma dll_del: "dll L h (xs @ e # ys) \<Longrightarrow> dll (list_del L e) h (xs @ ys)"
  using seg_delete [of L h xs e ys h] by (auto simp: dll_def)

lemma dll_unique: "dll L h xs \<Longrightarrow> dll L h ys \<Longrightarrow> xs = ys"
proof -
  have gen: "seg L a xs h \<Longrightarrow> seg L a ys h \<Longrightarrow> h \<notin> set xs \<Longrightarrow> h \<notin> set ys \<Longrightarrow> xs = ys" for a
  proof (induction xs arbitrary: a ys)
    case Nil
    then show ?case by (cases ys) auto
  next
    case (Cons x xs)
    then show ?case by (cases ys) auto
  qed
  show "dll L h xs \<Longrightarrow> dll L h ys \<Longrightarrow> xs = ys"
    unfolding dll_def using gen [of h] by auto
qed

text \<open>An operation on one list leaves every list with other entries alone.\<close>

lemma dll_cong:
  "(\<And>p. p \<in> set (h # xs) \<Longrightarrow> lnext L' p = lnext L p \<and> lprev L' p = lprev L p) \<Longrightarrow>
   dll L' h xs = dll L h xs"
  unfolding dll_def by (intro conj_cong refl seg_cong) auto

lemma dll_mem_links:
  assumes "dll L h xs" and "p \<in> set (h # xs)"
  shows "lnext L p \<in> set (h # xs) \<and> lprev L p \<in> set (h # xs)"
proof (cases "p = h")
  case True
  have "lnext L h = hd (xs @ [h])" "lprev L h = last (h # xs)"
    using dll_next [of L h "[]" xs] dll_prev [of L h xs "[]"] assms(1)
    by (simp_all add: list_next_def list_prev_def)
  with True show ?thesis
    using hd_snoc_mem [of xs h] last_Cons_mem [of h xs] by auto
next
  case False
  with assms(2) obtain as bs where xs: "xs = as @ p # bs" by (auto dest: split_list)
  with assms(1) have "lnext L p = hd (bs @ [h])" "lprev L p = last (h # as)"
    using dll_next [of L h "as @ [p]" bs] dll_prev [of L h as "p # bs"]
    by (simp_all add: list_next_def list_prev_def)
  with xs show ?thesis
    using hd_snoc_mem [of bs h] last_Cons_mem [of h as] by auto
qed

lemma list_add_between_frame:
  "dll L h xs \<Longrightarrow> set (h # xs) \<inter> {e, p, n} = {} \<Longrightarrow> dll (list_add_between L e p n) h xs"
  by (subst dll_cong [where L = L]) (auto simp: list_h_defs)

lemma list_del_frame:
  assumes "dll L h xs" and "dll L g ys" and "set (h # xs) \<inter> set (g # ys) = {}"
    and "e \<in> set (g # ys)"
  shows "dll (list_del L e) h xs"
proof -
  have "lnext L e \<in> set (g # ys)" "lprev L e \<in> set (g # ys)"
    using dll_mem_links [OF assms(2,4)] by auto
  with assms(3) have out: "lnext L e \<notin> set (h # xs)" "lprev L e \<notin> set (h # xs)"
    by blast+
  have "dll (list_del L e) h xs = dll L h xs"
    by (rule dll_cong) (use out in \<open>auto simp: list_h_defs\<close>)
  with assms(1) show ?thesis by simp
qed

lemma list_add_after_frame:
  assumes "dll L h xs" and "dll L g ys" and "set (h # xs) \<inter> set (g # ys) = {}"
    and "p \<in> set (g # ys)" and "e \<notin> set (h # xs)"
  shows "dll (list_add_after L p e) h xs"
proof -
  have "lnext L p \<in> set (g # ys)"
    using dll_mem_links [OF assms(2,4)] by auto
  with assms(3-5) have "set (h # xs) \<inter> {e, p, lnext L p} = {}" by blast
  with assms(1) show ?thesis
    unfolding list_add_after_def by (rule list_add_between_frame)
qed

lemma list_init_frame: "dll L h xs \<Longrightarrow> e \<notin> set (h # xs) \<Longrightarrow> dll (list_init L e) h xs"
  by (subst dll_cong [where L = L]) (auto simp: list_h_defs)

section \<open>The interface the clients use\<close>

text \<open>
  The contract of list.h as its clients see it: what \<open>list_next\<close> and \<open>list_prev\<close> return, and how
  insertion and deletion change the sequence of entries.  The lemmas below are proved from the
  contract alone and reach the components through the interpretation \<open>lh\<close>.
\<close>

locale circular_list =
  fixes nxt :: "'s \<Rightarrow> 'p \<Rightarrow> 'p"
    and prv :: "'s \<Rightarrow> 'p \<Rightarrow> 'p"
    and add_after :: "'s \<Rightarrow> 'p \<Rightarrow> 'p \<Rightarrow> 's"
    and add_before :: "'s \<Rightarrow> 'p \<Rightarrow> 'p \<Rightarrow> 's"
    and del :: "'s \<Rightarrow> 'p \<Rightarrow> 's"
    and init :: "'s \<Rightarrow> 'p \<Rightarrow> 's"
    and isempty :: "'s \<Rightarrow> 'p \<Rightarrow> bool"
    and rep :: "'s \<Rightarrow> 'p \<Rightarrow> 'p list \<Rightarrow> bool"
  assumes rep_distinct: "rep s h xs \<Longrightarrow> distinct (h # xs)"
    and rep_init: "rep (init s h) h []"
    and rep_empty: "rep s h xs \<Longrightarrow> isempty s h \<longleftrightarrow> xs = []"
    and rep_next: "rep s h (xs @ ys) \<Longrightarrow> nxt s (last (h # xs)) = hd (ys @ [h])"
    and rep_prev: "rep s h (xs @ ys) \<Longrightarrow> prv s (hd (ys @ [h])) = last (h # xs)"
    and rep_add_after: "rep s h (xs @ ys) \<Longrightarrow> e \<notin> set (h # xs @ ys) \<Longrightarrow>
      rep (add_after s (last (h # xs)) e) h (xs @ e # ys)"
    and rep_add_before: "rep s h (xs @ ys) \<Longrightarrow> e \<notin> set (h # xs @ ys) \<Longrightarrow>
      rep (add_before s (hd (ys @ [h])) e) h (xs @ e # ys)"
    and rep_del: "rep s h (xs @ e # ys) \<Longrightarrow> rep (del s e) h (xs @ ys)"
begin

lemma first: "rep s h (x # xs) \<Longrightarrow> nxt s h = x"
  using rep_next [of s h "[]" "x # xs"] by simp

lemma first_empty: "rep s h [] \<Longrightarrow> nxt s h = h"
  using rep_next [of s h "[]" "[]"] by simp

lemma next_elem: "rep s h (xs @ p # ys) \<Longrightarrow> nxt s p = hd (ys @ [h])"
  using rep_next [of s h "xs @ [p]" ys] by simp

lemma prev_elem: "rep s h (xs @ p # ys) \<Longrightarrow> prv s p = last (h # xs)"
  using rep_prev [of s h xs "p # ys"] by simp

lemma prev_head: "rep s h xs \<Longrightarrow> prv s h = last (h # xs)"
  using rep_prev [of s h xs "[]"] by simp

lemma push_front: "rep s h xs \<Longrightarrow> e \<notin> set (h # xs) \<Longrightarrow> rep (add_after s h e) h (e # xs)"
  using rep_add_after [of s h "[]" xs e] by simp

lemma push_back: "rep s h xs \<Longrightarrow> e \<notin> set (h # xs) \<Longrightarrow> rep (add_before s h e) h (xs @ [e])"
  using rep_add_before [of s h xs "[]" e] by simp

lemma insert_after_elem:
  "rep s h (xs @ p # ys) \<Longrightarrow> e \<notin> set (h # xs @ p # ys) \<Longrightarrow>
   rep (add_after s p e) h (xs @ p # e # ys)"
  using rep_add_after [of s h "xs @ [p]" ys e] by simp

lemma insert_before_elem:
  "rep s h (xs @ n # ys) \<Longrightarrow> e \<notin> set (h # xs @ n # ys) \<Longrightarrow>
   rep (add_before s n e) h (xs @ e # n # ys)"
  using rep_add_before [of s h xs "n # ys" e] by simp

lemma pop_front: "rep s h (x # xs) \<Longrightarrow> rep (del s (nxt s h)) h xs"
  using rep_del [of s h "[]" x xs] first [of s h x xs] by simp

lemma add_del_roundtrip:
  "rep s h (xs @ p # ys) \<Longrightarrow> e \<notin> set (h # xs @ p # ys) \<Longrightarrow>
   rep (del (add_after s p e) e) h (xs @ p # ys)"
  using insert_after_elem [of s h xs p ys e] rep_del [of "add_after s p e" h "xs @ [p]" e ys] by simp

text \<open>Entries pushed at the back come out at the front in the order they were pushed.\<close>

lemma queue_order:
  "rep s h xs \<Longrightarrow> distinct (h # xs @ es) \<Longrightarrow> rep (foldl (\<lambda>t e. add_before t h e) s es) h (xs @ es)"
proof (induction es arbitrary: s xs)
  case Nil
  then show ?case by simp
next
  case (Cons e es)
  from Cons.prems have "rep (add_before s h e) h (xs @ [e])"
    by (intro push_back) auto
  with Cons.prems(2) have "rep (foldl (\<lambda>t e. add_before t h e) (add_before s h e) es) h ((xs @ [e]) @ es)"
    by (intro Cons.IH) auto
  then show ?case by simp
qed

end

interpretation lh: circular_list list_next list_prev list_add_after list_add_before list_del
  list_init list_empty dll
proof unfold_locales
  show "dll s h xs \<Longrightarrow> distinct (h # xs)" for s :: "'a links" and h xs
    by (simp add: dll_def)
qed (fact dll_init dll_empty dll_next dll_prev dll_add_after dll_add_before dll_del)+

end
