(* ===== verification/Default_Pmm.thy ===== *)
theory Default_Pmm
  imports Ulist Bitops
begin

text \<open>
  kern/mm/default_pmm.c: the first-fit page allocator, on the page descriptors of
  kern/mm/memlayout.h.  A \<open>struct Page *\<close> is its index in the array \<open>pages\<close>; the free list is the
  circular list of libs/list.h whose pointers are the header \<open>FreeList\<close> and the field
  \<open>page_link\<close> of a descriptor.  The 32-bit counters \<open>property\<close> and \<open>nr_free\<close> are natural numbers
  with the wrap-around written out.
\<close>

section \<open>Page descriptors\<close>

record Page =
  ref :: s32
  flags :: u64
  property :: nat
  pra_vaddr :: u64

definition PG_reserved :: nat where "PG_reserved = 0"
definition PG_property :: nat where "PG_property = 1"

definition flag_set :: "nat \<Rightarrow> Page \<Rightarrow> Page" where
  "flag_set nr p = p\<lparr>flags := set_bit_at nr (\<lambda>_. flags p) 0\<rparr>"

definition flag_clear :: "nat \<Rightarrow> Page \<Rightarrow> Page" where
  "flag_clear nr p = p\<lparr>flags := clear_bit_at nr (\<lambda>_. flags p) 0\<rparr>"

definition flag_test :: "nat \<Rightarrow> Page \<Rightarrow> bool" where
  "flag_test nr p = (case test_bit_at nr (\<lambda>_. flags p) of Inl _ \<Rightarrow> False | Inr b \<Rightarrow> b)"

definition SetPageReserved :: "Page \<Rightarrow> Page" where "SetPageReserved = flag_set PG_reserved"
definition ClearPageReserved :: "Page \<Rightarrow> Page" where "ClearPageReserved = flag_clear PG_reserved"
definition PageReserved :: "Page \<Rightarrow> bool" where "PageReserved = flag_test PG_reserved"
definition SetPageProperty :: "Page \<Rightarrow> Page" where "SetPageProperty = flag_set PG_property"
definition ClearPageProperty :: "Page \<Rightarrow> Page" where "ClearPageProperty = flag_clear PG_property"
definition PageProperty :: "Page \<Rightarrow> bool" where "PageProperty = flag_test PG_property"

definition set_page_ref :: "s32 \<Rightarrow> Page \<Rightarrow> Page" where
  "set_page_ref val p = p\<lparr>ref := val\<rparr>"

section \<open>The allocator\<close>

datatype fl_ptr = FreeList | PageLink nat

record free_state =
  pages :: "nat \<Rightarrow> Page"
  page_link :: "fl_ptr links"
  nr_free :: nat

definition trunc32 :: "int \<Rightarrow> nat" where "trunc32 a = nat (a mod 2 ^ 32)"
definition add32 :: "nat \<Rightarrow> nat \<Rightarrow> nat" where "add32 a b = trunc32 (int a + int b)"
definition sub32 :: "nat \<Rightarrow> nat \<Rightarrow> nat" where "sub32 a b = trunc32 (int a - int b)"

definition default_init :: "free_state \<Rightarrow> free_state" where
  "default_init s = s\<lparr>page_link := list_init (page_link s) FreeList, nr_free := 0\<rparr>"

text \<open>The first loop of \<open>default_init_memmap\<close>, over the \<open>k\<close> descriptors from \<open>p\<close>.\<close>

fun init_pages :: "(nat \<Rightarrow> Page) \<Rightarrow> nat \<Rightarrow> nat \<Rightarrow> (nat \<Rightarrow> Page) res" where
  "init_pages P p 0 = Inr P"
| "init_pages P p (Suc k) =
     (if PageReserved (P p)
      then init_pages (P(p := set_page_ref 0 ((P p)\<lparr>flags := 0, property := 0\<rparr>))) (p + 1) k
      else Inl (AssertFail ''PageReserved(p)''))"

text \<open>The first loop of \<open>default_free_pages\<close>.\<close>

fun clear_pages :: "(nat \<Rightarrow> Page) \<Rightarrow> nat \<Rightarrow> nat \<Rightarrow> (nat \<Rightarrow> Page) res" where
  "clear_pages P p 0 = Inr P"
| "clear_pages P p (Suc k) =
     (if \<not> PageReserved (P p) \<and> \<not> PageProperty (P p)
      then clear_pages (P(p := set_page_ref 0 ((P p)\<lparr>flags := 0\<rparr>))) (p + 1) k
      else Inl (AssertFail ''!PageReserved(p) && !PageProperty(p)''))"

text \<open>
  The insertion loop, the same text in \<open>default_init_memmap\<close> and \<open>default_free_pages\<close>.  The branch
  that inserts at the end has no \<open>break\<close>: the loop goes on from \<open>le\<close>, whose successor is now the
  entry just inserted.
\<close>

partial_function (option) insert_loop :: "fl_ptr links \<Rightarrow> nat \<Rightarrow> fl_ptr \<Rightarrow> fl_ptr links option" where
  "insert_loop L base le =
     (let le = list_next L le in
      case le of
        FreeList \<Rightarrow> Some L
      | PageLink page \<Rightarrow>
          if base < page then Some (list_add_before L le (PageLink base))
          else if list_next L le = FreeList then insert_loop (list_add L le (PageLink base)) base le
          else insert_loop L base le)"

declare insert_loop.simps [code]

definition insert_free :: "fl_ptr links \<Rightarrow> nat \<Rightarrow> fl_ptr links res" where
  "insert_free L base =
     (if list_empty L FreeList then Inr (list_add L FreeList (PageLink base))
      else returned (insert_loop L base FreeList))"

definition default_init_memmap :: "free_state \<Rightarrow> nat \<Rightarrow> nat \<Rightarrow> free_state res" where
  "default_init_memmap s base n =
     bindR (assertR (n > 0) ''n > 0'') (\<lambda>_.
     bindR (init_pages (pages s) base n) (\<lambda>P.
     let P = P(base := SetPageProperty ((P base)\<lparr>property := trunc32 (int n)\<rparr>)) in
     bindR (insert_free (page_link s) base) (\<lambda>L.
     Inr (s\<lparr>pages := P, page_link := L, nr_free := add32 (nr_free s) n\<rparr>))))"

partial_function (option) first_fit_loop ::
  "fl_ptr links \<Rightarrow> (nat \<Rightarrow> Page) \<Rightarrow> nat \<Rightarrow> fl_ptr \<Rightarrow> nat option option" where
  "first_fit_loop L P n le =
     (case list_next L le of
        FreeList \<Rightarrow> Some None
      | PageLink p \<Rightarrow>
          if property (P p) \<ge> n then Some (Some p) else first_fit_loop L P n (PageLink p))"

declare first_fit_loop.simps [code]

definition default_alloc_pages :: "free_state \<Rightarrow> nat \<Rightarrow> (free_state \<times> nat option) res" where
  "default_alloc_pages s n =
     bindR (assertR (n > 0) ''n > 0'') (\<lambda>_.
     if n > nr_free s then Inr (s, None)
     else bindR (returned (first_fit_loop (page_link s) (pages s) n FreeList)) (\<lambda>r.
       case r of
         None \<Rightarrow> Inr (s, None)
       | Some page \<Rightarrow>
           let prev = list_prev (page_link s) (PageLink page);
               L = list_del (page_link s) (PageLink page);
               P = pages s;
               (P, L) =
                 (if property (P page) > n then
                    let p = page + n;
                        P = P(p := SetPageProperty ((P p)\<lparr>property := sub32 (property (P page)) n\<rparr>))
                    in (P, list_add L prev (PageLink p))
                  else (P, L));
               P = P(page := ClearPageProperty (P page))
           in Inr (s\<lparr>pages := P, page_link := L, nr_free := sub32 (nr_free s) n\<rparr>, Some page)))"

text \<open>
  The two merge steps at the end of \<open>default_free_pages\<close>; the first also returns the block that
  now holds the freed pages.
\<close>

definition merge_prev ::
  "(nat \<Rightarrow> Page) \<Rightarrow> fl_ptr links \<Rightarrow> nat \<Rightarrow> (nat \<Rightarrow> Page) \<times> fl_ptr links \<times> nat" where
  "merge_prev P L base =
     (case list_prev L (PageLink base) of
        FreeList \<Rightarrow> (P, L, base)
      | PageLink p \<Rightarrow>
          if p + property (P p) = base
          then (let P = P(p := (P p)\<lparr>property := add32 (property (P p)) (property (P base))\<rparr>);
                    P = P(base := ClearPageProperty (P base))
                in (P, list_del L (PageLink base), p))
          else (P, L, base))"

definition merge_next ::
  "(nat \<Rightarrow> Page) \<Rightarrow> fl_ptr links \<Rightarrow> nat \<Rightarrow> (nat \<Rightarrow> Page) \<times> fl_ptr links" where
  "merge_next P L base =
     (case list_next L (PageLink base) of
        FreeList \<Rightarrow> (P, L)
      | PageLink p \<Rightarrow>
          if base + property (P base) = p
          then (let P = P(base := (P base)\<lparr>property := add32 (property (P base)) (property (P p))\<rparr>);
                    P = P(p := ClearPageProperty (P p))
                in (P, list_del L (PageLink p)))
          else (P, L))"

definition default_free_pages :: "free_state \<Rightarrow> nat \<Rightarrow> nat \<Rightarrow> free_state res" where
  "default_free_pages s base n =
     bindR (assertR (n > 0) ''n > 0'') (\<lambda>_.
     bindR (clear_pages (pages s) base n) (\<lambda>P.
     let P = P(base := SetPageProperty ((P base)\<lparr>property := trunc32 (int n)\<rparr>)) in
     bindR (insert_free (page_link s) base) (\<lambda>L.
     let (P, L, b) = merge_prev P L base;
         (P, L) = merge_next P L b
     in Inr (s\<lparr>pages := P, page_link := L, nr_free := add32 (nr_free s) n\<rparr>))))"

definition default_nr_free_pages :: "free_state \<Rightarrow> nat" where
  "default_nr_free_pages s = nr_free s"

section \<open>Facts on the descriptors and the 32-bit counters\<close>

named_theorems page_simps "the effect of the flag macros on a page descriptor"

lemma flag_test_bit: "nr < 64 \<Longrightarrow> flag_test nr p = bit (flags p) nr"
  by (simp add: flag_test_def test_bit_at_arr arr_bit_def)

lemma flag_set_flags: "nr < 64 \<Longrightarrow> flags (flag_set nr p) = flags p OR BIT_MASK nr"
  by (simp add: flag_set_def set_bit_at_def BIT_WORD_def BITS_PER_LONG_def)

lemma flag_clear_flags: "nr < 64 \<Longrightarrow> flags (flag_clear nr p) = flags p AND NOT (BIT_MASK nr)"
  by (simp add: flag_clear_def clear_bit_at_def BIT_WORD_def BITS_PER_LONG_def)

lemma flag_other_fields [page_simps]:
  "property (flag_set nr p) = property p" "property (flag_clear nr p) = property p"
  "ref (flag_set nr p) = ref p" "ref (flag_clear nr p) = ref p"
  "pra_vaddr (flag_set nr p) = pra_vaddr p" "pra_vaddr (flag_clear nr p) = pra_vaddr p"
  by (simp_all add: flag_set_def flag_clear_def)

lemma macro_fields [page_simps]:
  "property (SetPageProperty p) = property p" "property (ClearPageProperty p) = property p"
  "ref (SetPageProperty p) = ref p" "ref (ClearPageProperty p) = ref p"
  "pra_vaddr (SetPageProperty p) = pra_vaddr p" "pra_vaddr (ClearPageProperty p) = pra_vaddr p"
  "property (SetPageReserved p) = property p" "ref (SetPageReserved p) = ref p"
  "property (set_page_ref v p) = property p" "flags (set_page_ref v p) = flags p"
  "ref (set_page_ref v p) = v"
  by (simp_all add: SetPageProperty_def ClearPageProperty_def SetPageReserved_def set_page_ref_def
      page_simps)

lemma PageReserved_bit: "PageReserved p \<longleftrightarrow> bit (flags p) 0"
  by (simp add: PageReserved_def PG_reserved_def flag_test_bit)

lemma PageProperty_bit: "PageProperty p \<longleftrightarrow> bit (flags p) 1"
  by (simp add: PageProperty_def PG_property_def flag_test_bit)

lemma page_flag_laws [page_simps]:
  "PageProperty (SetPageProperty p)" "\<not> PageProperty (ClearPageProperty p)"
  "PageReserved (SetPageReserved p)"
  "PageReserved (SetPageProperty p) \<longleftrightarrow> PageReserved p"
  "PageReserved (ClearPageProperty p) \<longleftrightarrow> PageReserved p"
  "PageProperty (SetPageReserved p) \<longleftrightarrow> PageProperty p"
  "PageProperty (p\<lparr>property := v\<rparr>) \<longleftrightarrow> PageProperty p"
  "PageReserved (p\<lparr>property := v\<rparr>) \<longleftrightarrow> PageReserved p"
  "PageProperty (p\<lparr>pra_vaddr := w\<rparr>) \<longleftrightarrow> PageProperty p"
  "PageReserved (p\<lparr>pra_vaddr := w\<rparr>) \<longleftrightarrow> PageReserved p"
  "PageProperty (p\<lparr>ref := r\<rparr>) \<longleftrightarrow> PageProperty p"
  "PageReserved (p\<lparr>ref := r\<rparr>) \<longleftrightarrow> PageReserved p"
  "PageProperty (set_page_ref r p) \<longleftrightarrow> PageProperty p"
  "PageReserved (set_page_ref r p) \<longleftrightarrow> PageReserved p"
  "\<not> PageProperty (p\<lparr>flags := 0\<rparr>)" "\<not> PageReserved (p\<lparr>flags := 0\<rparr>)"
  "\<not> PageProperty (p\<lparr>flags := 0, property := v\<rparr>)" "\<not> PageReserved (p\<lparr>flags := 0, property := v\<rparr>)"
  by (simp_all add: PageReserved_bit PageProperty_bit SetPageProperty_def ClearPageProperty_def
      SetPageReserved_def flag_set_flags flag_clear_flags PG_property_def PG_reserved_def
      bit_or_iff bit_and_iff bit_not_iff BIT_MASK_bit page_simps)

lemma trunc32_small: "0 \<le> a \<Longrightarrow> a < 2 ^ 32 \<Longrightarrow> trunc32 a = nat a"
  by (simp add: trunc32_def)

lemma trunc32_int: "n < 2 ^ 32 \<Longrightarrow> trunc32 (int n) = n"
  by (simp add: trunc32_small)

lemma add32_small: "a + b < 2 ^ 32 \<Longrightarrow> add32 a b = a + b"
  using trunc32_int [of "a + b"] by (simp add: add32_def)

lemma sub32_small: "b \<le> a \<Longrightarrow> a < 2 ^ 32 \<Longrightarrow> sub32 a b = a - b"
  using trunc32_int [of "a - b"] by (simp add: sub32_def of_nat_diff)

section \<open>Free blocks as sets of pages\<close>

text \<open>
  \<open>spans pr ps\<close> are the pages of the blocks that start at \<open>ps\<close> with the sizes \<open>pr\<close>;
  \<open>sepd pr ps\<close> says that the blocks come in address order with a gap between any two.
\<close>

definition spans :: "(nat \<Rightarrow> nat) \<Rightarrow> nat list \<Rightarrow> nat set" where
  "spans pr ps = (\<Union>p\<in>set ps. {p..<p + pr p})"

definition sepd :: "(nat \<Rightarrow> nat) \<Rightarrow> nat list \<Rightarrow> bool" where
  "sepd pr ps \<longleftrightarrow> sorted_wrt (\<lambda>p q. p + pr p < q) ps \<and> (\<forall>p\<in>set ps. 0 < pr p)"

lemma spans_simps [simp]:
  "spans pr [] = {}" "spans pr (p # ps) = {p..<p + pr p} \<union> spans pr ps"
  "spans pr (xs @ ys) = spans pr xs \<union> spans pr ys"
  by (auto simp: spans_def)

lemma finite_spans [simp]: "finite (spans pr ps)"
  by (simp add: spans_def)

lemma spans_cong: "(\<And>p. p \<in> set ps \<Longrightarrow> pr p = pr' p) \<Longrightarrow> spans pr ps = spans pr' ps"
  by (simp add: spans_def)

lemma sepd_cong: "(\<And>p. p \<in> set ps \<Longrightarrow> pr p = pr' p) \<Longrightarrow> sepd pr ps = sepd pr' ps"
  by (induction ps) (auto simp: sepd_def)

lemma sepd_append:
  "sepd pr (xs @ ys) \<longleftrightarrow> sepd pr xs \<and> sepd pr ys \<and> (\<forall>p\<in>set xs. \<forall>q\<in>set ys. p + pr p < q)"
  by (auto simp: sepd_def sorted_wrt_append)

lemma sepd_Cons:
  "sepd pr (p # ps) \<longleftrightarrow> 0 < pr p \<and> (\<forall>q\<in>set ps. p + pr p < q) \<and> sepd pr ps"
  by (auto simp: sepd_def)

lemma sepd_Nil [simp]: "sepd pr []"
  by (simp add: sepd_def)

lemma sepd_spans_lower: "sepd pr ps \<Longrightarrow> (\<forall>q\<in>set ps. b < q) \<Longrightarrow> x \<in> spans pr ps \<Longrightarrow> b < x"
  by (auto simp: spans_def)

lemma sepd_distinct: "sepd pr ps \<Longrightarrow> distinct ps"
  by (induction ps) (auto simp: sepd_Cons)

lemma sepd_apart:
  "sepd pr ps \<Longrightarrow> p \<in> set ps \<Longrightarrow> q \<in> set ps \<Longrightarrow> p = q \<or> p + pr p < q \<or> q + pr q < p"
  by (induction ps) (auto simp: sepd_Cons)

lemma sepd_sorted: "sepd pr ps \<Longrightarrow> sorted ps"
  by (induction ps) (force simp: sepd_Cons)+

lemma sepd_card: "sepd pr ps \<Longrightarrow> card (spans pr ps) = sum_list (map pr ps)"
proof (induction ps)
  case Nil
  then show ?case by simp
next
  case (Cons p ps)
  then have "{p..<p + pr p} \<inter> spans pr ps = {}"
    by (fastforce simp: sepd_Cons spans_def)
  with Cons show ?case by (simp add: card_Un_disjoint sepd_Cons)
qed

lemma sepd_run:
  assumes "sepd pr ps" and "{a..<a + n} \<subseteq> spans pr ps" and "0 < n"
  shows "\<exists>p\<in>set ps. p \<le> a \<and> a + n \<le> p + pr p"
proof -
  from assms(2,3) obtain p where p: "p \<in> set ps" "p \<le> a" "a < p + pr p"
    by (force simp: spans_def subset_iff)
  have "a + n \<le> p + pr p"
  proof (rule ccontr)
    assume "\<not> a + n \<le> p + pr p"
    with p assms(2) have "p + pr p \<in> spans pr ps" by (auto simp: subset_iff)
    then obtain q where q: "q \<in> set ps" "q \<le> p + pr p" "p + pr p < q + pr q"
      by (auto simp: spans_def)
    with sepd_apart [OF assms(1) p(1) q(1)] show False by auto
  qed
  with p show ?thesis by blast
qed

section \<open>The free list as a set of free blocks\<close>

abbreviation psize :: "free_state \<Rightarrow> nat \<Rightarrow> nat" where
  "psize s p \<equiv> property (pages s p)"

definition fl_rep :: "nat \<Rightarrow> free_state \<Rightarrow> nat list \<Rightarrow> bool" where
  "fl_rep N s ps \<longleftrightarrow>
     dll (page_link s) FreeList (map PageLink ps) \<and>
     sepd (psize s) ps \<and>
     spans (psize s) ps \<subseteq> {..<N} \<and>
     (\<forall>i<N. PageProperty (pages s i) \<longleftrightarrow> i \<in> set ps) \<and>
     (\<forall>i\<in>spans (psize s) ps. \<not> PageReserved (pages s i)) \<and>
     nr_free s = sum_list (map (psize s) ps) \<and> N < 2 ^ 32"

lemma fl_rep_nr_free: "fl_rep N s ps \<Longrightarrow> nr_free s = card (spans (psize s) ps)"
  by (simp add: fl_rep_def sepd_card)

lemma fl_rep_nr_free_bound: "fl_rep N s ps \<Longrightarrow> nr_free s < 2 ^ 32"
proof -
  assume rep: "fl_rep N s ps"
  then have "card (spans (psize s) ps) \<le> card {..<N}"
    by (intro card_mono) (auto simp: fl_rep_def)
  with rep show ?thesis by (simp add: fl_rep_nr_free [OF rep]) (simp add: fl_rep_def)
qed

lemma fl_rep_block:
  assumes "fl_rep N s ps" and "p \<in> set ps"
  shows "0 < psize s p" and "p + psize s p \<le> N" and "psize s p \<le> nr_free s"
    and "{p..<p + psize s p} \<subseteq> spans (psize s) ps"
proof -
  show pos: "0 < psize s p" using assms by (auto simp: fl_rep_def sepd_def)
  show sub: "{p..<p + psize s p} \<subseteq> spans (psize s) ps" using assms(2) by (auto simp: spans_def)
  with assms(1) have "{p..<p + psize s p} \<subseteq> {..<N}" by (auto simp: fl_rep_def)
  with pos have "p + psize s p - 1 < N" by (auto simp: subset_iff)
  with pos show "p + psize s p \<le> N" by simp
  show "psize s p \<le> nr_free s"
    using assms by (auto simp: fl_rep_def intro!: member_le_sum_list)
qed

subsection \<open>Allocation\<close>

text \<open>The search only follows \<open>next\<close>: it also finds its way in a list whose \<open>prev\<close> fields are wrong.\<close>

lemma first_fit_loop_chain:
  "dll L FreeList (map PageLink (xs @ ys)) \<Longrightarrow> lnext M = lnext L \<Longrightarrow>
   first_fit_loop M P n (last (FreeList # map PageLink xs)) = Some (find (\<lambda>p. n \<le> property (P p)) ys)"
proof (induction ys arbitrary: xs)
  case Nil
  then have "list_next M (last (FreeList # map PageLink xs)) = FreeList"
    using lh.rep_next [of L FreeList "map PageLink xs" "[]"] by (simp add: list_next_def)
  then show ?case by (subst first_fit_loop.simps) simp
next
  case (Cons y ys)
  then have nxt: "list_next M (last (FreeList # map PageLink xs)) = PageLink y"
    using lh.rep_next [of L FreeList "map PageLink xs" "map PageLink (y # ys)"] by (simp add: list_next_def)
  from Cons.prems have "first_fit_loop M P n (last (FreeList # map PageLink (xs @ [y]))) =
      Some (find (\<lambda>p. n \<le> property (P p)) ys)"
    by (intro Cons.IH) simp_all
  with nxt show ?case by (subst first_fit_loop.simps) simp
qed

lemmas first_fit_loop_finds = first_fit_loop_chain [OF _ refl]

lemma default_alloc_nofit:
  assumes "fl_rep N s ps" and "0 < n" and "\<forall>p\<in>set ps. psize s p < n"
  shows "default_alloc_pages s n = Inr (s, None)"
proof -
  have "find (\<lambda>p. n \<le> psize s p) ps = None"
    using assms(3) by (auto simp: find_None_iff)
  with assms(1,2) first_fit_loop_finds [of "page_link s" "[]" ps "pages s" n] show ?thesis
    by (simp add: default_alloc_pages_def fl_rep_def)
qed

lemma find_split:
  "\<exists>p\<in>set ps. P p \<Longrightarrow> \<exists>xs p ys. ps = xs @ p # ys \<and> P p \<and> (\<forall>x\<in>set xs. \<not> P x)"
  by (rule split_list_first_prop)

lemma find_first: "\<forall>x\<in>set xs. \<not> P x \<Longrightarrow> P p \<Longrightarrow> find P (xs @ p # ys) = Some p"
  by (induction xs) auto

lemma default_alloc_state:
  assumes rep: "fl_rep N s ps" and n: "0 < n" and ps: "ps = xs @ page # ys"
    and fit: "n \<le> psize s page" and before: "\<forall>p\<in>set xs. psize s p < n"
  shows "default_alloc_pages s n =
    (let L = list_del (page_link s) (PageLink page);
         (P, L) = (if psize s page > n then
             ((pages s)(page + n := SetPageProperty ((pages s (page + n))\<lparr>property := psize s page - n\<rparr>)),
              list_add_after L (last (FreeList # map PageLink xs)) (PageLink (page + n)))
           else (pages s, L))
     in Inr (s\<lparr>pages := P(page := ClearPageProperty (P page)), page_link := L,
               nr_free := nr_free s - n\<rparr>, Some page))"
proof -
  have mem: "page \<in> set ps" by (simp add: ps)
  have "find (\<lambda>p. n \<le> psize s p) ps = Some page"
    unfolding ps using before fit by (intro find_first) auto
  moreover have "first_fit_loop (page_link s) (pages s) n FreeList = Some (find (\<lambda>p. n \<le> psize s p) ps)"
    using first_fit_loop_finds [of "page_link s" "[]" ps] rep by (simp add: fl_rep_def)
  moreover have le: "n \<le> nr_free s" "nr_free s < 2 ^ 32" "psize s page < 2 ^ 32"
    using fl_rep_block(3) [OF rep mem] fl_rep_nr_free_bound [OF rep] fit by linarith+
  moreover have "list_prev (page_link s) (PageLink page) = last (FreeList # map PageLink xs)"
    using lh.prev_elem [of "page_link s" FreeList "map PageLink xs" "PageLink page" "map PageLink ys"] rep
    by (simp add: fl_rep_def ps)
  ultimately show ?thesis
    using n fit sub32_small [of n "nr_free s"] sub32_small [of n "psize s page"]
    by (simp add: default_alloc_pages_def list_add_def Let_def)
qed

text \<open>Taking \<open>n\<close> pages from the front of a block, on the level of block lists.\<close>

lemma sepd_disjoint_block:
  "sepd pr (xs @ p # ys) \<Longrightarrow> {p..<p + pr p} \<inter> (spans pr xs \<union> spans pr ys) = {}"
  by (fastforce simp: sepd_append sepd_Cons spans_def)

lemma spans_take_all:
  "sepd pr (xs @ p # ys) \<Longrightarrow> spans pr (xs @ ys) = spans pr (xs @ p # ys) - {p..<p + pr p}"
  using sepd_disjoint_block [of pr xs p ys] by auto

lemma sepd_take_all: "sepd pr (xs @ p # ys) \<Longrightarrow> sepd pr (xs @ ys)"
  by (auto simp: sepd_append sepd_Cons)

lemma split_block_fresh:
  "sepd pr (xs @ p # ys) \<Longrightarrow> 0 < n \<Longrightarrow> n < pr p \<Longrightarrow> p + n \<notin> set (xs @ p # ys)"
  by (fastforce simp: sepd_append sepd_Cons)

lemma sepd_split_block:
  assumes "sepd pr (xs @ p # ys)" and "0 < n" and "n < pr p"
  shows "sepd (pr(p + n := pr p - n)) (xs @ (p + n) # ys)"
proof -
  have "p + n \<notin> set (xs @ p # ys)" using assms by (rule split_block_fresh)
  then have "sepd (pr(p + n := pr p - n)) xs = sepd pr xs" "sepd (pr(p + n := pr p - n)) ys = sepd pr ys"
    by (auto intro!: sepd_cong)
  with assms \<open>p + n \<notin> _\<close> show ?thesis by (fastforce simp: sepd_append sepd_Cons)
qed

lemma spans_split_block:
  assumes "sepd pr (xs @ p # ys)" and "0 < n" and "n < pr p"
  shows "spans (pr(p + n := pr p - n)) (xs @ (p + n) # ys) = spans pr (xs @ p # ys) - {p..<p + n}"
proof -
  have "p + n \<notin> set (xs @ p # ys)" using assms by (rule split_block_fresh)
  then have eq: "spans (pr(p + n := pr p - n)) xs = spans pr xs" "spans (pr(p + n := pr p - n)) ys = spans pr ys"
    by (auto intro!: spans_cong)
  have "{p..<p + n} \<subseteq> {p..<p + pr p}" and diff: "{p..<p + pr p} - {p..<p + n} = {p + n..<p + pr p}"
    using assms(3) by auto
  with sepd_disjoint_block [OF assms(1)] have "{p..<p + n} \<inter> (spans pr xs \<union> spans pr ys) = {}"
    by blast
  then have "spans pr (xs @ p # ys) - {p..<p + n} = spans pr xs \<union> {p + n..<p + pr p} \<union> spans pr ys"
    using diff unfolding spans_simps by blast
  with assms(3) eq show ?thesis by (auto simp del: fun_upd_apply simp: fun_upd_same)
qed

lemma sum_split_block:
  assumes "sepd pr (xs @ p # ys)" and "0 < n" and "n < pr p"
  shows "sum_list (map (pr(p + n := pr p - n)) (xs @ (p + n) # ys)) = sum_list (map pr (xs @ p # ys)) - n"
  using split_block_fresh [OF assms] assms(3) by simp

lemma dll_del_page:
  "dll L FreeList (map PageLink (xs @ p # ys)) \<Longrightarrow>
   dll (list_del L (PageLink p)) FreeList (map PageLink (xs @ ys))"
  using lh.rep_del [of L FreeList "map PageLink xs" "PageLink p" "map PageLink ys"] by simp

lemma dll_add_page:
  "dll L FreeList (map PageLink (xs @ ys)) \<Longrightarrow> p \<notin> set (xs @ ys) \<Longrightarrow>
   dll (list_add_after L (last (FreeList # map PageLink xs)) (PageLink p)) FreeList
     (map PageLink (xs @ p # ys))"
  using lh.rep_add_after [of L FreeList "map PageLink xs" "map PageLink ys" "PageLink p"]
  by (auto simp del: last.simps)

lemma default_alloc_exact:
  assumes rep: "fl_rep N s (xs @ page # ys)" and n: "0 < n" and fit: "psize s page = n"
    and before: "\<forall>p\<in>set xs. psize s p < n"
  shows "\<exists>s'. default_alloc_pages s n = Inr (s', Some page) \<and> fl_rep N s' (xs @ ys) \<and>
    spans (psize s') (xs @ ys) = spans (psize s) (xs @ page # ys) - {page..<page + n} \<and>
    (\<forall>i. PageReserved (pages s' i) = PageReserved (pages s i) \<and> ref (pages s' i) = ref (pages s i))"
proof -
  let ?s = "s\<lparr>pages := (pages s)(page := ClearPageProperty (pages s page)),
     page_link := list_del (page_link s) (PageLink page), nr_free := nr_free s - n\<rparr>"
  have run: "default_alloc_pages s n = Inr (?s, Some page)"
    using default_alloc_state [OF rep n refl] fit before by simp
  have sep: "sepd (psize s) (xs @ page # ys)" using rep by (simp add: fl_rep_def)
  have pr: "psize ?s = psize s" by (auto simp: page_simps)
  have "dll (list_del (page_link s) (PageLink page)) FreeList (map PageLink (xs @ ys))"
    using dll_del_page rep unfolding fl_rep_def by blast
  moreover have "page \<notin> set (xs @ ys)" using sepd_distinct [OF sep] by auto
  ultimately have "fl_rep N ?s (xs @ ys)"
    using rep fit sepd_take_all [OF sep] pr by (auto simp: fl_rep_def page_simps)
  with run pr spans_take_all [OF sep] fit show ?thesis
    by (intro exI [of _ ?s]) (auto simp: page_simps)
qed

lemma default_alloc_split:
  assumes rep: "fl_rep N s (xs @ page # ys)" and n: "0 < n" and fit: "n < psize s page"
    and before: "\<forall>p\<in>set xs. psize s p < n"
  shows "\<exists>s'. default_alloc_pages s n = Inr (s', Some page) \<and> fl_rep N s' (xs @ (page + n) # ys) \<and>
    spans (psize s') (xs @ (page + n) # ys) = spans (psize s) (xs @ page # ys) - {page..<page + n} \<and>
    (\<forall>i. PageReserved (pages s' i) = PageReserved (pages s i) \<and> ref (pages s' i) = ref (pages s i))"
proof -
  let ?P = "(pages s)(page + n := SetPageProperty ((pages s (page + n))\<lparr>property := psize s page - n\<rparr>))"
  let ?L = "list_add_after (list_del (page_link s) (PageLink page)) (last (FreeList # map PageLink xs))
     (PageLink (page + n))"
  let ?s = "s\<lparr>pages := ?P(page := ClearPageProperty (?P page)), page_link := ?L,
     nr_free := nr_free s - n\<rparr>"
  have run: "default_alloc_pages s n = Inr (?s, Some page)"
    using default_alloc_state [OF rep n refl] fit before n by (simp add: Let_def)
  have sep: "sepd (psize s) (xs @ page # ys)" using rep by (simp add: fl_rep_def)
  have fresh: "page + n \<notin> set (xs @ page # ys)" using split_block_fresh [OF sep n fit] .
  have pr: "psize ?s = (psize s)(page + n := psize s page - n)" by (auto simp: page_simps)
  have "dll (list_del (page_link s) (PageLink page)) FreeList (map PageLink (xs @ ys))"
    using dll_del_page rep unfolding fl_rep_def by blast
  then have dll: "dll ?L FreeList (map PageLink (xs @ (page + n) # ys))"
    by (rule dll_add_page) (use fresh in auto)
  have sub: "spans (psize ?s) (xs @ (page + n) # ys) \<subseteq> spans (psize s) (xs @ page # ys)"
    using spans_split_block [OF sep n fit] pr by auto
  have "page \<notin> set (xs @ ys)" using sepd_distinct [OF sep] by auto
  then have heads: "\<forall>i<N. PageProperty (pages ?s i) \<longleftrightarrow> i \<in> set (xs @ (page + n) # ys)"
    using rep n by (auto simp: fl_rep_def page_simps)
  have res: "\<forall>i. PageReserved (pages ?s i) = PageReserved (pages s i) \<and> ref (pages ?s i) = ref (pages s i)"
    by (auto simp: page_simps)
  have "fl_rep N ?s (xs @ (page + n) # ys)"
    unfolding fl_rep_def
  proof (intro conjI)
    show "sepd (psize ?s) (xs @ (page + n) # ys)" using sepd_split_block [OF sep n fit] pr by simp
    show "nr_free ?s = sum_list (map (psize ?s) (xs @ (page + n) # ys))"
      using sum_split_block [OF sep n fit] rep pr by (simp add: fl_rep_def)
    show "spans (psize ?s) (xs @ (page + n) # ys) \<subseteq> {..<N}"
      using sub rep unfolding fl_rep_def by (blast intro: subset_trans)
    show "\<forall>i\<in>spans (psize ?s) (xs @ (page + n) # ys). \<not> PageReserved (pages ?s i)"
      using sub rep res unfolding fl_rep_def by blast
    show "N < 2 ^ 32" using rep unfolding fl_rep_def by blast
    show "\<forall>i<N. PageProperty (pages ?s i) \<longleftrightarrow> i \<in> set (xs @ (page + n) # ys)" by (fact heads)
    show "dll (page_link ?s) FreeList (map PageLink (xs @ (page + n) # ys))" using dll by simp
  qed
  moreover have "spans (psize ?s) (xs @ (page + n) # ys) = spans (psize s) (xs @ page # ys) - {page..<page + n}"
    using spans_split_block [OF sep n fit] pr by simp
  ultimately show ?thesis using run res by blast
qed

subsection \<open>Insertion into the free list\<close>

lemma insert_loop_before:
  assumes "dll L FreeList (map PageLink (xs @ ys))" and "base \<notin> set ys" and "\<exists>y\<in>set ys. base < y"
  shows "\<exists>as b bs. ys = as @ b # bs \<and> base < b \<and> (\<forall>a\<in>set as. a < base) \<and>
    insert_loop L base (last (FreeList # map PageLink xs)) = Some (list_add_before L (PageLink b) (PageLink base))"
  using assms
proof (induction ys arbitrary: xs)
  case Nil
  then show ?case by simp
next
  case (Cons y ys)
  have nxt: "list_next L (last (FreeList # map PageLink xs)) = PageLink y"
    using lh.rep_next [of L FreeList "map PageLink xs" "map PageLink (y # ys)"] Cons.prems(1) by simp
  show ?case
  proof (cases "base < y")
    case True
    with nxt show ?thesis
      by (intro exI [of _ "[]"] exI [of _ y] exI [of _ ys]) (simp add: insert_loop.simps)
  next
    case False
    with Cons.prems have "\<exists>z\<in>set ys. base < z" "y < base" "base \<notin> set ys" by auto
    then obtain z zs where ys: "ys = z # zs" by (cases ys) auto
    have "list_next L (PageLink y) = PageLink z"
      using lh.rep_next [of L FreeList "map PageLink (xs @ [y])" "map PageLink ys"] Cons.prems(1) ys by simp
    with nxt False have step: "insert_loop L base (last (FreeList # map PageLink xs)) =
        insert_loop L base (last (FreeList # map PageLink (xs @ [y])))"
      by (subst insert_loop.simps) simp
    have "dll L FreeList (map PageLink ((xs @ [y]) @ ys))" using Cons.prems(1) by simp
    from Cons.IH [OF this \<open>base \<notin> set ys\<close> \<open>\<exists>z\<in>set ys. base < z\<close>] obtain as b bs where
      "ys = as @ b # bs" "base < b" "\<forall>a\<in>set as. a < base"
      "insert_loop L base (last (FreeList # map PageLink (xs @ [y]))) =
         Some (list_add_before L (PageLink b) (PageLink base))" by blast
    with step \<open>y < base\<close> show ?thesis
      by (intro exI [of _ "y # as"] exI [of _ b] exI [of _ bs]) auto
  qed
qed

text \<open>The entry goes where the address order wants it, unless it would be the last one.\<close>

definition insertable :: "nat set \<Rightarrow> nat \<Rightarrow> bool" where
  "insertable F base \<longleftrightarrow> F = {} \<or> (\<exists>f\<in>F. base < f)"

lemma insert_free_ok:
  assumes "dll L FreeList (map PageLink ps)" and "base \<notin> set ps" and "ps = [] \<or> (\<exists>p\<in>set ps. base < p)"
    and "sorted ps"
  shows "\<exists>as bs L'. ps = as @ bs \<and> (\<forall>a\<in>set as. a < base) \<and> (\<forall>b\<in>set bs. base < b) \<and>
    insert_free L base = Inr L' \<and> dll L' FreeList (map PageLink (as @ base # bs))"
proof (cases "ps = []")
  case True
  with assms(1) have "dll (list_add_after L FreeList (PageLink base)) FreeList (map PageLink [base])"
    using dll_add_page [of L "[]" "[]" base] by simp
  with True assms(1) show ?thesis
    using lh.rep_empty [of L FreeList "[]"] by (auto simp: insert_free_def list_add_def)
next
  case False
  with assms obtain as b bs where ps: "ps = as @ b # bs" "base < b" "\<forall>a\<in>set as. a < base"
    and run: "insert_loop L base FreeList = Some (list_add_before L (PageLink b) (PageLink base))"
    using insert_loop_before [of L "[]" ps base] by auto
  have "dll (list_add_before L (PageLink b) (PageLink base)) FreeList
      (map PageLink as @ PageLink base # PageLink b # map PageLink bs)"
    using assms(1,2) ps by (intro lh.insert_before_elem) auto
  moreover have "\<forall>c\<in>set (b # bs). base < c" using ps assms(4) by (auto simp: sorted_append)
  moreover have "\<not> list_empty L FreeList"
    using False lh.rep_empty [OF assms(1)] by simp
  ultimately show ?thesis using ps run
    by (intro exI [of _ as] exI [of _ "b # bs"]) (auto simp: insert_free_def)
qed

lemma clear_pages_ok:
  "\<forall>i\<in>{p..<p + k}. \<not> PageReserved (P i) \<and> \<not> PageProperty (P i) \<Longrightarrow>
   clear_pages P p k = Inr (\<lambda>i. if p \<le> i \<and> i < p + k then set_page_ref 0 ((P i)\<lparr>flags := 0\<rparr>) else P i)"
proof (induction k arbitrary: P p)
  case 0
  then show ?case by (auto simp: fun_eq_iff)
next
  case (Suc k)
  let ?P = "P(p := set_page_ref 0 ((P p)\<lparr>flags := 0\<rparr>))"
  have "clear_pages ?P (p + 1) k =
      Inr (\<lambda>i. if p + 1 \<le> i \<and> i < p + 1 + k then set_page_ref 0 ((?P i)\<lparr>flags := 0\<rparr>) else ?P i)"
    using Suc.prems by (intro Suc.IH) auto
  then have "clear_pages P p (Suc k) =
      Inr (\<lambda>i. if p + 1 \<le> i \<and> i < p + 1 + k then set_page_ref 0 ((?P i)\<lparr>flags := 0\<rparr>) else ?P i)"
    using Suc.prems by simp
  then show ?case by (auto simp: fun_eq_iff)
qed

subsection \<open>Merging\<close>

abbreviation prop_of :: "(nat \<Rightarrow> Page) \<Rightarrow> nat \<Rightarrow> nat" where
  "prop_of P i \<equiv> property (P i)"

text \<open>The state between the insertion and the merges: block \<open>b\<close> may touch its neighbours.\<close>

definition mid_rep :: "nat \<Rightarrow> (nat \<Rightarrow> Page) \<Rightarrow> fl_ptr links \<Rightarrow> nat list \<Rightarrow> nat \<Rightarrow> nat list \<Rightarrow> bool" where
  "mid_rep N P L xs b ys \<longleftrightarrow>
     dll L FreeList (map PageLink (xs @ b # ys)) \<and>
     sepd (prop_of P) (xs @ ys) \<and> 0 < prop_of P b \<and>
     (\<forall>p\<in>set xs. p + prop_of P p \<le> b) \<and> (\<forall>q\<in>set ys. b + prop_of P b \<le> q) \<and>
     spans (prop_of P) (xs @ b # ys) \<subseteq> {..<N} \<and>
     (\<forall>i<N. PageProperty (P i) \<longleftrightarrow> i \<in> set (xs @ b # ys)) \<and> N < 2 ^ 32"

lemma mid_rep_bound: "mid_rep N P L xs b ys \<Longrightarrow> b + prop_of P b \<le> N"
proof -
  assume m: "mid_rep N P L xs b ys"
  then have "{b..<b + prop_of P b} \<subseteq> {..<N}" "0 < prop_of P b" by (auto simp: mid_rep_def)
  then have "b + prop_of P b - 1 < N" by (auto simp: subset_iff)
  with \<open>0 < _\<close> show ?thesis by simp
qed

lemma mid_rep_distinct: "mid_rep N P L xs b ys \<Longrightarrow> distinct (xs @ b # ys)"
  unfolding mid_rep_def using lh.rep_distinct [of L FreeList "map PageLink (xs @ b # ys)"]
  by (metis distinct.simps(2) distinct_map)

text \<open>Joining block \<open>p\<close> with the block \<open>q\<close> right behind it.\<close>

definition join_blocks :: "(nat \<Rightarrow> Page) \<Rightarrow> nat \<Rightarrow> nat \<Rightarrow> (nat \<Rightarrow> Page)" where
  "join_blocks P p q =
     (let P = P(p := (P p)\<lparr>property := add32 (prop_of P p) (prop_of P q)\<rparr>)
      in P(q := ClearPageProperty (P q)))"

lemma join_blocks_simps:
  assumes "p \<noteq> q" and "prop_of P p + prop_of P q < 2 ^ 32"
  shows "prop_of (join_blocks P p q) = (prop_of P)(p := prop_of P p + prop_of P q)"
    and "PageProperty (join_blocks P p q i) \<longleftrightarrow> i \<noteq> q \<and> PageProperty (P i)"
    and "PageReserved (join_blocks P p q i) = PageReserved (P i)"
    and "ref (join_blocks P p q i) = ref (P i)"
    and "prop_of (join_blocks P p q) i = (if i = p then prop_of P p + prop_of P q else prop_of P i)"
  using assms by (auto simp: join_blocks_def Let_def page_simps add32_small)

lemma spans_join:
  assumes "a + pr a = b" and "distinct (xs @ a # b # ys)"
  shows "spans (pr(a := pr a + pr b)) (xs @ a # ys) = spans pr (xs @ a # b # ys)"
proof -
  have "spans (pr(a := pr a + pr b)) xs = spans pr xs" "spans (pr(a := pr a + pr b)) ys = spans pr ys"
    using assms(2) by (auto intro!: spans_cong)
  moreover have "{a..<a + (pr a + pr b)} = {a..<a + pr a} \<union> {b..<b + pr b}" using assms(1) by auto
  ultimately show ?thesis by auto
qed

lemma merge_prev_ok:
  assumes m: "mid_rep N P L xs b ys"
  shows "\<exists>P' L' xs' b'. merge_prev P L b = (P', L', b') \<and> mid_rep N P' L' xs' b' ys \<and>
    (\<forall>p\<in>set xs'. p + prop_of P' p < b') \<and>
    spans (prop_of P') (xs' @ b' # ys) = spans (prop_of P) (xs @ b # ys) \<and>
    (\<forall>i. PageReserved (P' i) = PageReserved (P i))"
proof (cases xs rule: rev_cases)
  case Nil
  with m have "list_prev L (PageLink b) = FreeList"
    using lh.prev_elem [of L FreeList "[]" "PageLink b" "map PageLink ys"] by (simp add: mid_rep_def)
  with m Nil show ?thesis
    by (intro exI [of _ P] exI [of _ L] exI [of _ "[]"] exI [of _ b]) (simp add: merge_prev_def)
next
  case (snoc zs a)
  have prv: "list_prev L (PageLink b) = PageLink a"
    using m snoc lh.prev_elem [of L FreeList "map PageLink xs" "PageLink b" "map PageLink ys"]
    by (simp add: mid_rep_def)
  have strict: "\<forall>p\<in>set zs. p + prop_of P p < a" "a + prop_of P a \<le> b" "0 < prop_of P a"
    using m snoc by (auto simp: mid_rep_def sepd_append sepd_Cons)
  show ?thesis
  proof (cases "a + prop_of P a = b")
    case False
    with strict have "\<forall>p\<in>set xs. p + prop_of P p < b" unfolding snoc by auto
    with m prv False show ?thesis
      by (intro exI [of _ P] exI [of _ L] exI [of _ xs] exI [of _ b]) (simp add: merge_prev_def)
  next
    case True
    let ?P = "join_blocks P a b"
    let ?L = "list_del L (PageLink b)"
    have d: "distinct (zs @ a # b # ys)" using mid_rep_distinct [OF m] snoc by simp
    have sum: "prop_of P a + prop_of P b < 2 ^ 32"
      using mid_rep_bound [OF m] True m by (simp add: mid_rep_def)
    note j = join_blocks_simps [of a b P, OF _ sum]
    have run: "merge_prev P L b = (?P, ?L, a)"
      using prv True by (simp add: merge_prev_def join_blocks_def Let_def)
    have sp: "spans (prop_of ?P) (zs @ a # ys) = spans (prop_of P) (xs @ b # ys)"
      using spans_join [of a "prop_of P" b, OF True d] j(1) d snoc by simp
    have "mid_rep N ?P ?L zs a ys"
      unfolding mid_rep_def
    proof (intro conjI)
      show "dll ?L FreeList (map PageLink (zs @ a # ys))"
        using dll_del_page [of L "zs @ [a]" b ys] m snoc by (simp add: mid_rep_def)
      have "sepd (prop_of ?P) (zs @ ys) = sepd (prop_of P) (zs @ ys)"
        using j(5) d by (intro sepd_cong) auto
      then show "sepd (prop_of ?P) (zs @ ys)"
        using m snoc by (auto simp: mid_rep_def sepd_append sepd_Cons)
      show "0 < prop_of ?P a" using j(5) d strict(3) by simp
      show "\<forall>p\<in>set zs. p + prop_of ?P p \<le> a" using j(5) d strict(1) by (auto intro: less_imp_le)
      show "\<forall>q\<in>set ys. a + prop_of ?P a \<le> q" using j(5) d m True by (auto simp: mid_rep_def)
      show "spans (prop_of ?P) (zs @ a # ys) \<subseteq> {..<N}" using sp m unfolding mid_rep_def by metis
      show "\<forall>i<N. PageProperty (?P i) \<longleftrightarrow> i \<in> set (zs @ a # ys)"
        using j(2) d m snoc by (auto simp: mid_rep_def)
      show "N < 2 ^ 32" using m by (simp add: mid_rep_def)
    qed
    moreover have "\<forall>p\<in>set zs. p + prop_of ?P p < a" using j(5) d strict(1) by auto
    ultimately show ?thesis using run sp j(3) d
      by (intro exI [of _ ?P] exI [of _ ?L] exI [of _ zs] exI [of _ a]) simp
  qed
qed

lemma merge_next_ok:
  assumes m: "mid_rep N P L xs b ys" and left: "\<forall>p\<in>set xs. p + prop_of P p < b"
  shows "\<exists>P' L' ys'. merge_next P L b = (P', L') \<and> mid_rep N P' L' xs b ys' \<and>
    (\<forall>p\<in>set xs. p + prop_of P' p < b) \<and> (\<forall>q\<in>set ys'. b + prop_of P' b < q) \<and>
    spans (prop_of P') (xs @ b # ys') = spans (prop_of P) (xs @ b # ys) \<and>
    (\<forall>i. PageReserved (P' i) = PageReserved (P i))"
proof (cases ys)
  case Nil
  with m have "list_next L (PageLink b) = FreeList"
    using lh.next_elem [of L FreeList "map PageLink xs" "PageLink b" "[]"] by (simp add: mid_rep_def)
  with m left Nil show ?thesis
    by (intro exI [of _ P] exI [of _ L] exI [of _ "[]"]) (simp add: merge_next_def)
next
  case (Cons c zs)
  have nxt: "list_next L (PageLink b) = PageLink c"
    using m Cons lh.next_elem [of L FreeList "map PageLink xs" "PageLink b" "map PageLink ys"]
    by (simp add: mid_rep_def)
  have strict: "\<forall>q\<in>set zs. c + prop_of P c < q" "b + prop_of P b \<le> c" "0 < prop_of P c"
    using m Cons by (auto simp: mid_rep_def sepd_append sepd_Cons)
  show ?thesis
  proof (cases "b + prop_of P b = c")
    case False
    with strict have "\<forall>q\<in>set ys. b + prop_of P b < q" unfolding Cons by auto
    with m left nxt False show ?thesis
      by (intro exI [of _ P] exI [of _ L] exI [of _ ys]) (simp add: merge_next_def)
  next
    case True
    let ?P = "join_blocks P b c"
    let ?L = "list_del L (PageLink c)"
    have d: "distinct (xs @ b # c # zs)" using mid_rep_distinct [OF m] Cons by simp
    have "{c..<c + prop_of P c} \<subseteq> {..<N}" using m Cons by (auto simp: mid_rep_def)
    with strict(3) have "c + prop_of P c - 1 < N" by (auto simp: subset_iff)
    moreover have "N < 2 ^ 32" using m by (simp add: mid_rep_def)
    ultimately have sum: "prop_of P b + prop_of P c < 2 ^ 32" using True by linarith
    note j = join_blocks_simps [of b c P, OF _ sum]
    have run: "merge_next P L b = (?P, ?L)"
      using nxt True by (simp add: merge_next_def join_blocks_def Let_def)
    have sp: "spans (prop_of ?P) (xs @ b # zs) = spans (prop_of P) (xs @ b # ys)"
      using spans_join [of b "prop_of P" c, OF True d] j(1) d Cons by simp
    have right: "\<forall>q\<in>set zs. b + prop_of ?P b < q" using j(5) d strict(1) True by auto
    have left': "\<forall>p\<in>set xs. p + prop_of ?P p < b" using j(5) d left by auto
    have "mid_rep N ?P ?L xs b zs"
      unfolding mid_rep_def
    proof (intro conjI)
      show "dll ?L FreeList (map PageLink (xs @ b # zs))"
        using dll_del_page [of L "xs @ [b]" c zs] m Cons by (simp add: mid_rep_def)
      have "sepd (prop_of ?P) (xs @ zs) = sepd (prop_of P) (xs @ zs)"
        using j(5) d by (intro sepd_cong) auto
      then show "sepd (prop_of ?P) (xs @ zs)"
        using m Cons by (auto simp: mid_rep_def sepd_append sepd_Cons)
      show "0 < prop_of ?P b" using j(5) d strict(3) by simp
      show "\<forall>p\<in>set xs. p + prop_of ?P p \<le> b" using left' by (auto intro: less_imp_le)
      show "\<forall>q\<in>set zs. b + prop_of ?P b \<le> q" using right by (auto intro: less_imp_le)
      show "spans (prop_of ?P) (xs @ b # zs) \<subseteq> {..<N}" using sp m unfolding mid_rep_def by metis
      show "\<forall>i<N. PageProperty (?P i) \<longleftrightarrow> i \<in> set (xs @ b # zs)"
        using j(2) d m Cons by (auto simp: mid_rep_def)
      show "N < 2 ^ 32" using m by (simp add: mid_rep_def)
    qed
    with run sp left' right j(3) d show ?thesis
      by (intro exI [of _ ?P] exI [of _ ?L] exI [of _ zs]) simp
  qed
qed

subsection \<open>Freeing\<close>

lemma mid_rep_fl_rep:
  assumes "mid_rep N P L xs b ys" and "\<forall>p\<in>set xs. p + prop_of P p < b"
    and "\<forall>q\<in>set ys. b + prop_of P b < q" and "\<forall>i\<in>spans (prop_of P) (xs @ b # ys). \<not> PageReserved (P i)"
    and "pages s = P" and "page_link s = L" and "nr_free s = card (spans (prop_of P) (xs @ b # ys))"
  shows "fl_rep N s (xs @ b # ys)"
proof -
  have "sepd (prop_of P) (xs @ b # ys)"
    using assms(1-3) by (auto simp: mid_rep_def sepd_append sepd_Cons)
  with assms sepd_card [OF this] show ?thesis unfolding fl_rep_def mid_rep_def by simp
qed

lemma free_range_mid_rep:
  assumes rep: "fl_rep N s ps" and n: "0 < n" "base + n \<le> N"
    and dis: "{base..<base + n} \<inter> spans (psize s) ps = {}"
    and ps: "ps = as @ bs" "\<forall>a\<in>set as. a < base" "\<forall>b\<in>set bs. base < b"
    and L: "dll L FreeList (map PageLink (as @ base # bs))"
    and P: "P = (\<lambda>i. if base \<le> i \<and> i < base + n then set_page_ref 0 ((pages s i)\<lparr>flags := 0\<rparr>) else pages s i)
         (base := SetPageProperty ((set_page_ref 0 ((pages s base)\<lparr>flags := 0\<rparr>))\<lparr>property := n\<rparr>))"
  shows "mid_rep N P L as base bs" and "spans (prop_of P) (as @ base # bs) = spans (psize s) ps \<union> {base..<base + n}"
proof -
  have notin: "p \<notin> {base..<base + n}" if "p \<in> set ps" for p
    using dis fl_rep_block(1,4) [OF rep that] by fastforce
  have pr: "prop_of P i = ((psize s)(base := n)) i" for i by (auto simp: P page_simps)
  have eq: "prop_of P p = psize s p" if "p \<in> set ps" for p using notin [OF that] n pr [of p] by auto
  have sp: "spans (prop_of P) as = spans (psize s) as" "spans (prop_of P) bs = spans (psize s) bs"
    using eq ps(1) by (auto intro!: spans_cong)
  show spans: "spans (prop_of P) (as @ base # bs) = spans (psize s) ps \<union> {base..<base + n}"
    using sp pr [of base] ps(1) by auto
  have sep: "sepd (prop_of P) (as @ bs)"
    using eq rep ps(1) sepd_cong [of ps "prop_of P" "psize s"] by (simp add: fl_rep_def)
  have left: "p + prop_of P p \<le> base" if p: "p \<in> set as" for p
  proof (rule ccontr)
    assume "\<not> p + prop_of P p \<le> base"
    with p ps eq have "base \<in> {p..<p + psize s p}" by (auto simp: less_imp_le)
    with p ps(1) have "base \<in> spans (psize s) ps" by (auto simp: spans_def)
    moreover have "base \<in> {base..<base + n}" using n(1) by simp
    ultimately show False using dis by blast
  qed
  have right: "base + n \<le> q" if "q \<in> set bs" for q
    using notin [of q] that ps by fastforce
  have heads: "\<forall>i<N. PageProperty (P i) \<longleftrightarrow> i \<in> set (as @ base # bs)"
    using rep notin ps(1) n by (auto simp: P page_simps fl_rep_def)
  show "mid_rep N P L as base bs"
    unfolding mid_rep_def using L sep left right heads n spans rep pr [of base] by (auto simp: fl_rep_def)
qed

lemma default_free_ok:
  assumes rep: "fl_rep N s ps" and n: "0 < n" "base + n \<le> N"
    and dis: "{base..<base + n} \<inter> spans (psize s) ps = {}"
    and res: "\<forall>i\<in>{base..<base + n}. \<not> PageReserved (pages s i)"
    and pos: "insertable (spans (psize s) ps) base"
  shows "\<exists>s' ps'. default_free_pages s base n = Inr s' \<and> fl_rep N s' ps' \<and>
    spans (psize s') ps' = spans (psize s) ps \<union> {base..<base + n} \<and>
    (\<forall>i. PageReserved (pages s' i) = PageReserved (pages s i))"
proof -
  have heads: "i \<in> set ps \<Longrightarrow> i \<in> spans (psize s) ps" for i
    using fl_rep_block(1,4) [OF rep, of i] by auto
  have clear: "clear_pages (pages s) base n =
      Inr (\<lambda>i. if base \<le> i \<and> i < base + n then set_page_ref 0 ((pages s i)\<lparr>flags := 0\<rparr>) else pages s i)"
    using res dis heads rep n by (intro clear_pages_ok) (fastforce simp: fl_rep_def)
  have b_in: "base \<in> {base..<base + n}" using n by simp
  then have new: "base \<notin> set ps" using heads [of base] dis by blast
  have gap: "ps = [] \<or> (\<exists>p\<in>set ps. base < p)"
  proof (cases "ps = []")
    case False
    then have "hd ps \<in> spans (psize s) ps" by (intro heads) simp
    then have "spans (psize s) ps \<noteq> {}" by blast
    with pos obtain f p where f: "base < f" "p \<in> set ps" "p \<le> f" "f < p + psize s p"
      by (auto simp: insertable_def spans_def)
    have "base \<notin> {p..<p + psize s p}" using dis f(2) b_in unfolding spans_def by blast
    with f show ?thesis by (intro disjI2 bexI [of _ p]) auto
  qed simp
  have "dll (page_link s) FreeList (map PageLink ps)" "sorted ps"
    using rep by (auto simp: fl_rep_def intro: sepd_sorted)
  from insert_free_ok [OF this(1) new gap this(2)] obtain as bs L where ps: "ps = as @ bs" "\<forall>a\<in>set as. a < base" "\<forall>b\<in>set bs. base < b"
    and ins: "insert_free (page_link s) base = Inr L" and L: "dll L FreeList (map PageLink (as @ base # bs))"
    by blast
  define P where "P = (\<lambda>i. if base \<le> i \<and> i < base + n then set_page_ref 0 ((pages s i)\<lparr>flags := 0\<rparr>) else pages s i)
     (base := SetPageProperty ((set_page_ref 0 ((pages s base)\<lparr>flags := 0\<rparr>))\<lparr>property := n\<rparr>))"
  note mid = free_range_mid_rep [OF rep n dis ps L P_def]
  obtain P1 L1 xs b where m1: "merge_prev P L base = (P1, L1, b)" "mid_rep N P1 L1 xs b bs"
    "\<forall>p\<in>set xs. p + prop_of P1 p < b" "spans (prop_of P1) (xs @ b # bs) = spans (prop_of P) (as @ base # bs)"
    "\<forall>i. PageReserved (P1 i) = PageReserved (P i)"
    using merge_prev_ok [OF mid(1)] by blast
  obtain P2 L2 ys where m2: "merge_next P1 L1 b = (P2, L2)" "mid_rep N P2 L2 xs b ys"
    "\<forall>p\<in>set xs. p + prop_of P2 p < b" "\<forall>q\<in>set ys. b + prop_of P2 b < q"
    "spans (prop_of P2) (xs @ b # ys) = spans (prop_of P1) (xs @ b # bs)"
    "\<forall>i. PageReserved (P2 i) = PageReserved (P1 i)"
    using merge_next_ok [OF m1(2,3)] by blast
  have sp: "spans (prop_of P2) (xs @ b # ys) = spans (psize s) ps \<union> {base..<base + n}"
    using m2(5) m1(4) mid(2) by simp
  have keep: "PageReserved (P2 i) = PageReserved (pages s i)" for i
    using m2(6) m1(5) res n by (auto simp: P_def page_simps)
  have card: "card (spans (psize s) ps \<union> {base..<base + n}) = nr_free s + n"
    using dis fl_rep_nr_free [OF rep] by (subst card_Un_disjoint) auto
  have "card (spans (prop_of P2) (xs @ b # ys)) \<le> card {..<N}"
    using m2(2) by (intro card_mono) (auto simp: mid_rep_def)
  then have "nr_free s + n \<le> N" using sp card by simp
  then have cnt: "add32 (nr_free s) n = nr_free s + n" using rep by (intro add32_small) (simp add: fl_rep_def)
  have nmod: "trunc32 (int n) = n" using n rep by (intro trunc32_int) (simp add: fl_rep_def)
  let ?s = "s\<lparr>pages := P2, page_link := L2, nr_free := nr_free s + n\<rparr>"
  have "default_free_pages s base n = Inr ?s"
    using n(1) clear ins m1(1) m2(1) cnt nmod
    by (simp add: default_free_pages_def P_def fun_upd_def [symmetric] cong: if_cong)
  moreover have "fl_rep N ?s (xs @ b # ys)"
  proof (rule mid_rep_fl_rep [OF m2(2,3,4)])
    show "\<forall>i\<in>spans (prop_of P2) (xs @ b # ys). \<not> PageReserved (P2 i)"
      using sp keep res rep by (auto simp: fl_rep_def)
    show "nr_free ?s = card (spans (prop_of P2) (xs @ b # ys))" by (simp only: sp card) simp
  qed simp_all
  ultimately show ?thesis using sp keep by (intro exI [of _ ?s] exI [of _ "xs @ b # ys"]) simp
qed

subsection \<open>Initialisation\<close>

lemma init_pages_ok:
  "\<forall>i\<in>{p..<p + k}. PageReserved (P i) \<Longrightarrow>
   init_pages P p k = Inr (\<lambda>i. if p \<le> i \<and> i < p + k
     then set_page_ref 0 ((P i)\<lparr>flags := 0, property := 0\<rparr>) else P i)"
proof (induction k arbitrary: P p)
  case 0
  then show ?case by (auto simp: fun_eq_iff)
next
  case (Suc k)
  let ?P = "P(p := set_page_ref 0 ((P p)\<lparr>flags := 0, property := 0\<rparr>))"
  have "init_pages ?P (p + 1) k = Inr (\<lambda>i. if p + 1 \<le> i \<and> i < p + 1 + k
      then set_page_ref 0 ((?P i)\<lparr>flags := 0, property := 0\<rparr>) else ?P i)"
    using Suc.prems by (intro Suc.IH) auto
  then have "init_pages P p (Suc k) = Inr (\<lambda>i. if p + 1 \<le> i \<and> i < p + 1 + k
      then set_page_ref 0 ((?P i)\<lparr>flags := 0, property := 0\<rparr>) else ?P i)"
    using Suc.prems by simp
  then show ?case by (auto simp: fun_eq_iff)
qed

lemma default_init_memmap_ok:
  assumes "0 < n" and "base + n \<le> N" and "N < 2 ^ 32"
    and "\<forall>i<N. PageReserved (pages s i) \<and> \<not> PageProperty (pages s i)"
  shows "\<exists>s'. default_init_memmap (default_init s) base n = Inr s' \<and> fl_rep N s' [base] \<and>
    spans (psize s') [base] = {base..<base + n} \<and>
    (\<forall>i<N. PageReserved (pages s' i) \<longleftrightarrow> i \<notin> {base..<base + n})"
proof -
  let ?P = "(\<lambda>i. if base \<le> i \<and> i < base + n then set_page_ref 0 ((pages s i)\<lparr>flags := 0, property := 0\<rparr>) else pages s i)"
  let ?P' = "?P(base := SetPageProperty ((?P base)\<lparr>property := n\<rparr>))"
  let ?t = "default_init s"
  let ?L = "list_add_after (page_link ?t) FreeList (PageLink base)"
  let ?s = "?t\<lparr>pages := ?P', page_link := ?L, nr_free := n\<rparr>"
  have d0: "dll (page_link ?t) FreeList []" by (simp add: default_init_def lh.rep_init)
  have "pages ?t = pages s" by (simp add: default_init_def)
  then have "init_pages (pages ?t) base n = Inr ?P"
    using init_pages_ok [of base n "pages s"] assms(2,4) by simp
  moreover have "insert_free (page_link ?t) base = Inr ?L"
    using lh.rep_empty [OF d0] by (simp add: insert_free_def list_add_def)
  moreover have "trunc32 (int n) = n" using assms(2,3) by (intro trunc32_int) simp
  ultimately have "default_init_memmap ?t base n = Inr ?s"
    using assms(1) by (simp add: default_init_memmap_def add32_def default_init_def)
  moreover have pr: "psize ?s base = n" by (simp add: page_simps)
  moreover have "dll ?L FreeList (map PageLink [base])"
    using dll_add_page [of "page_link ?t" "[]" "[]" base] d0 by simp
  then have "fl_rep N ?s [base]"
    using assms pr by (auto simp: fl_rep_def sepd_Cons page_simps)
  moreover have "\<forall>i<N. PageReserved (pages ?s i) \<longleftrightarrow> i \<notin> {base..<base + n}"
    using assms by (auto simp: page_simps)
  ultimately show ?thesis by (intro exI [of _ ?s]) simp
qed

section \<open>The interface \<open>struct pmm_manager\<close>\<close>

text \<open>
  kern/mm/pmm.h declares the table of operations a physical memory manager provides.  The laws
  speak of the set \<open>F\<close> of free pages a state represents: an allocation takes a run of free pages
  and makes exactly them unavailable, it fails only when there is no run of that length, a free
  returns exactly its range, and \<open>nr_free_pages\<close> counts the set.  \<open>accepts\<close> are the places at
  which the manager can take pages back; \<open>owned s i\<close> says page \<open>i\<close> is not reserved.
\<close>

locale pmm_manager =
  fixes alloc :: "'s \<Rightarrow> nat \<Rightarrow> ('s \<times> nat option) res"
    and free :: "'s \<Rightarrow> nat \<Rightarrow> nat \<Rightarrow> 's res"
    and nr :: "'s \<Rightarrow> nat"
    and rep :: "'s \<Rightarrow> nat set \<Rightarrow> bool"
    and limit :: nat
    and owned :: "'s \<Rightarrow> nat \<Rightarrow> bool"
    and accepts :: "nat set \<Rightarrow> nat \<Rightarrow> bool"
  assumes rep_bound: "rep s F \<Longrightarrow> F \<subseteq> {..<limit}"
    and rep_owned: "rep s F \<Longrightarrow> i \<in> F \<Longrightarrow> owned s i"
    and nr_card: "rep s F \<Longrightarrow> nr s = card F"
    and alloc_none: "rep s F \<Longrightarrow> 0 < n \<Longrightarrow> \<not> (\<exists>p. {p..<p + n} \<subseteq> F) \<Longrightarrow> alloc s n = Inr (s, None)"
    and alloc_some: "rep s F \<Longrightarrow> 0 < n \<Longrightarrow> \<exists>p. {p..<p + n} \<subseteq> F \<Longrightarrow>
      \<exists>s' p. alloc s n = Inr (s', Some p) \<and> {p..<p + n} \<subseteq> F \<and> rep s' (F - {p..<p + n}) \<and>
        (\<forall>i. owned s' i = owned s i)"
    and free_ok: "rep s F \<Longrightarrow> 0 < n \<Longrightarrow> b + n \<le> limit \<Longrightarrow> {b..<b + n} \<inter> F = {} \<Longrightarrow>
      \<forall>i\<in>{b..<b + n}. owned s i \<Longrightarrow> accepts F b \<Longrightarrow>
      \<exists>s'. free s b n = Inr s' \<and> rep s' (F \<union> {b..<b + n}) \<and> (\<forall>i. owned s' i = owned s i)"
begin

lemma rep_finite: "rep s F \<Longrightarrow> finite F"
  using rep_bound finite_subset by blast

lemma alloc_cases:
  assumes "rep s F" and "0 < n"
  obtains (none) "alloc s n = Inr (s, None)" and "\<not> (\<exists>p. {p..<p + n} \<subseteq> F)"
  | (some) s' p where "alloc s n = Inr (s', Some p)" and "{p..<p + n} \<subseteq> F"
      and "rep s' (F - {p..<p + n})" and "\<forall>i. owned s' i = owned s i"
  using alloc_none [OF assms] alloc_some [OF assms] by blast

lemma alloc_takes:
  assumes "rep s F" and "0 < n" and "alloc s n = Inr (s', Some p)"
  shows "{p..<p + n} \<subseteq> F \<and> rep s' (F - {p..<p + n}) \<and> nr s' = nr s - n \<and> n \<le> nr s"
proof (cases rule: alloc_cases [OF assms(1,2)])
  case 1
  with assms(3) show ?thesis by simp
next
  case (2 t q)
  with assms(3) have eq: "t = s'" "q = p" by auto
  have fin: "finite F" using assms(1) by (rule rep_finite)
  have "card (F - {p..<p + n}) = card F - n" using 2 eq by (simp add: card_Diff_subset)
  moreover have "card {p..<p + n} \<le> card F" using 2 eq fin by (intro card_mono) auto
  ultimately show ?thesis using 2 eq nr_card assms(1) by simp
qed

lemma alloc_fails_iff:
  "rep s F \<Longrightarrow> 0 < n \<Longrightarrow> (\<exists>s'. alloc s n = Inr (s', None)) \<longleftrightarrow> \<not> (\<exists>p. {p..<p + n} \<subseteq> F)"
  by (cases rule: alloc_cases [of s F n]) auto

text \<open>Two allocations in a row never share a page.\<close>

lemma alloc_disjoint:
  assumes "rep s F" and "0 < m" and "0 < n"
    and "alloc s m = Inr (s1, Some p)" and "alloc s1 n = Inr (s2, Some q)"
  shows "{p..<p + m} \<inter> {q..<q + n} = {}"
proof -
  from alloc_takes [OF assms(1,2,4)] have "rep s1 (F - {p..<p + m})" by simp
  from alloc_takes [OF this assms(3,5)] show ?thesis by blast
qed

text \<open>A block just allocated can be freed again, and that brings the set of free pages back.\<close>

lemma alloc_freeable:
  assumes "rep s F" and "0 < n" and "alloc s n = Inr (s1, Some p)"
  shows "p + n \<le> limit" and "{p..<p + n} \<inter> (F - {p..<p + n}) = {}" and "\<forall>i\<in>{p..<p + n}. owned s1 i"
    and "F - {p..<p + n} \<union> {p..<p + n} = F" and "rep s1 (F - {p..<p + n})"
proof -
  obtain t q where t: "alloc s n = Inr (t, Some q)" "{q..<q + n} \<subseteq> F" "rep t (F - {q..<q + n})"
    "\<forall>i. owned t i = owned s i"
    by (cases rule: alloc_cases [OF assms(1,2)]) (use assms(3) in auto)
  with assms(3) have eq: "t = s1" "q = p" by auto
  have "p + n - 1 \<in> {p..<p + n}" using assms(2) by auto
  then have "p + n - 1 < limit" using t(2) eq rep_bound [OF assms(1)] by blast
  then show "p + n \<le> limit" by simp
  show "\<forall>i\<in>{p..<p + n}. owned s1 i" using t eq rep_owned [OF assms(1)] by blast
  show "{p..<p + n} \<inter> (F - {p..<p + n}) = {}" by blast
  show "F - {p..<p + n} \<union> {p..<p + n} = F" using t(2) eq by blast
  show "rep s1 (F - {p..<p + n})" using t(3) eq by simp
qed

lemma alloc_free_roundtrip:
  assumes "rep s F" and "0 < n" and "alloc s n = Inr (s1, Some p)" and "accepts (F - {p..<p + n}) p"
  shows "\<exists>s2. free s1 p n = Inr s2 \<and> rep s2 F"
  using free_ok [OF alloc_freeable(5) [OF assms(1-3)] assms(2) alloc_freeable(1,2,3) [OF assms(1-3)] assms(4)]
    alloc_freeable(4) [OF assms(1-3)] by auto

end

definition pmm_rep :: "nat \<Rightarrow> free_state \<Rightarrow> nat set \<Rightarrow> bool" where
  "pmm_rep N s F \<longleftrightarrow> (\<exists>ps. fl_rep N s ps \<and> F = spans (psize s) ps)"

definition page_owned :: "free_state \<Rightarrow> nat \<Rightarrow> bool" where
  "page_owned s i \<longleftrightarrow> \<not> PageReserved (pages s i)"

lemma default_alloc_some:
  assumes "fl_rep N s ps" and "0 < n" and "{a..<a + n} \<subseteq> spans (psize s) ps"
  shows "\<exists>s' p ps'. default_alloc_pages s n = Inr (s', Some p) \<and> {p..<p + n} \<subseteq> spans (psize s) ps \<and>
    fl_rep N s' ps' \<and> spans (psize s') ps' = spans (psize s) ps - {p..<p + n} \<and>
    (\<forall>i. PageReserved (pages s' i) = PageReserved (pages s i) \<and> ref (pages s' i) = ref (pages s i))"
proof -
  have "\<exists>p\<in>set ps. n \<le> psize s p"
  proof -
    from assms have "sepd (psize s) ps" by (simp add: fl_rep_def)
    from sepd_run [OF this assms(3,2)] obtain p where "p \<in> set ps" "p \<le> a" "a + n \<le> p + psize s p"
      by blast
    then show ?thesis by (intro bexI [of _ p]) auto
  qed
  then obtain xs page ys where ps: "ps = xs @ page # ys" and fit: "n \<le> psize s page"
    and before: "\<forall>x\<in>set xs. psize s x < n"
    using find_split [of ps "\<lambda>p. n \<le> psize s p"] by (auto simp: not_le)
  have "{page..<page + n} \<subseteq> spans (psize s) ps"
    using fl_rep_block(4) [OF assms(1), of page] ps fit by (fastforce simp: subset_iff)
  then show ?thesis
    using default_alloc_exact [OF assms(1) [unfolded ps] assms(2) _ before]
      default_alloc_split [OF assms(1) [unfolded ps] assms(2) _ before] fit ps
    by (cases "psize s page = n") (blast, fastforce)
qed

interpretation dpmm: pmm_manager default_alloc_pages default_free_pages default_nr_free_pages
  "pmm_rep N" N page_owned insertable
  for N :: nat
proof unfold_locales
  fix s F i n b
  assume rep: "pmm_rep N s F"
  then obtain ps where ps: "fl_rep N s ps" "F = spans (psize s) ps" by (auto simp: pmm_rep_def)
  show "F \<subseteq> {..<N}" using ps by (simp add: fl_rep_def)
  show "i \<in> F \<Longrightarrow> page_owned s i" using ps by (simp add: fl_rep_def page_owned_def)
  show "default_nr_free_pages s = card F" using ps fl_rep_nr_free by (simp add: default_nr_free_pages_def)
  show "default_alloc_pages s n = Inr (s, None)" if "0 < n" "\<not> (\<exists>p. {p..<p + n} \<subseteq> F)"
  proof (rule default_alloc_nofit [OF ps(1) that(1)], rule ballI, rule ccontr)
    fix p assume "p \<in> set ps" "\<not> psize s p < n"
    with fl_rep_block(4) [OF ps(1), of p] ps(2) have "{p..<p + n} \<subseteq> F" by (fastforce simp: subset_iff)
    with that show False by blast
  qed
  show "\<exists>s' p. default_alloc_pages s n = Inr (s', Some p) \<and> {p..<p + n} \<subseteq> F \<and>
      pmm_rep N s' (F - {p..<p + n}) \<and> (\<forall>i. page_owned s' i = page_owned s i)"
    if "0 < n" "\<exists>p. {p..<p + n} \<subseteq> F"
    using default_alloc_some [OF ps(1) that(1)] that(2) ps(2)
    unfolding pmm_rep_def page_owned_def by metis
  show "\<exists>s'. default_free_pages s b n = Inr s' \<and> pmm_rep N s' (F \<union> {b..<b + n}) \<and>
      (\<forall>i. page_owned s' i = page_owned s i)"
    if "0 < n" "b + n \<le> N" "{b..<b + n} \<inter> F = {}" "\<forall>i\<in>{b..<b + n}. page_owned s i" "insertable F b"
    using default_free_ok [OF ps(1) that(1,2)] that(3-5) ps(2)
    unfolding pmm_rep_def page_owned_def by metis
qed

section \<open>Insertion at the end of the list\<close>

text \<open>
  When the freed block lies above every free block the loop inserts it after the last entry and
  runs once more from there; the second pass inserts the entry after itself, so that its \<open>prev\<close>
  field points to itself.
\<close>

definition self_linked :: "fl_ptr links \<Rightarrow> nat list \<Rightarrow> nat \<Rightarrow> bool" where
  "self_linked M ps base \<longleftrightarrow> (\<exists>L. dll L FreeList (map PageLink (ps @ [base])) \<and> lnext M = lnext L \<and>
     lprev M = (lprev L)(PageLink base := PageLink base))"

lemma insert_loop_end:
  assumes "dll L FreeList (map PageLink (xs @ ys))" and "ys \<noteq> []" and "\<forall>y\<in>set ys. y < base"
    and "base \<notin> set xs"
  shows "\<exists>M. insert_loop L base (last (FreeList # map PageLink xs)) = Some M \<and> self_linked M (xs @ ys) base"
  using assms
proof (induction ys arbitrary: xs)
  case Nil
  then show ?case by simp
next
  case (Cons y ys)
  have nxt: "list_next L (last (FreeList # map PageLink xs)) = PageLink y"
    using lh.rep_next [of L FreeList "map PageLink xs" "map PageLink (y # ys)"] Cons.prems(1) by simp
  have nxt2: "list_next L (PageLink y) = hd (map PageLink ys @ [FreeList])"
    using lh.rep_next [of L FreeList "map PageLink (xs @ [y])" "map PageLink ys"] Cons.prems(1) by simp
  show ?case
  proof (cases ys)
    case Nil
    let ?L = "list_add L (PageLink y) (PageLink base)"
    let ?M = "list_add ?L (PageLink base) (PageLink base)"
    have d: "dll ?L FreeList (map PageLink ((xs @ [y]) @ [base]))"
      using dll_add_page [of L "xs @ [y]" "[]" base] Cons.prems Nil by (auto simp: list_add_def)
    have n1: "list_next ?L (PageLink y) = PageLink base"
      using lh.next_elem [of ?L FreeList "map PageLink xs" "PageLink y" "[PageLink base]"] d by simp
    have n2: "list_next ?L (PageLink base) = FreeList" "list_prev ?L FreeList = PageLink base"
      using lh.next_elem [of ?L FreeList "map PageLink (xs @ [y])" "PageLink base" "[]"] lh.prev_head [OF d] d
      by simp_all
    then have n3: "lnext ?M = lnext ?L" "lprev ?M = (lprev ?L)(PageLink base := PageLink base)"
      by (auto simp: list_h_defs fun_eq_iff)
    have "insert_loop L base (last (FreeList # map PageLink xs)) = insert_loop ?L base (PageLink y)"
      using nxt nxt2 Nil Cons.prems(3) by (subst insert_loop.simps) (simp add: Let_def)
    also have "\<dots> = insert_loop ?M base (PageLink base)"
      using n1 n2 by (subst insert_loop.simps) (simp add: Let_def)
    also have "\<dots> = Some ?M" using n3(1) n2 by (subst insert_loop.simps) (simp add: list_next_def)
    finally show ?thesis using n3 d Nil unfolding self_linked_def by auto
  next
    case (Cons z zs)
    with nxt nxt2 \<open>\<forall>y\<in>set (y # ys). y < base\<close> have "insert_loop L base (last (FreeList # map PageLink xs)) =
        insert_loop L base (last (FreeList # map PageLink (xs @ [y])))"
      by (subst insert_loop.simps) simp
    moreover have "dll L FreeList (map PageLink ((xs @ [y]) @ ys))" using Cons.prems(1) by simp
    ultimately show ?thesis using Cons.IH [of "xs @ [y]"] Cons.prems \<open>ys = z # zs\<close> by auto
  qed
qed

text \<open>Such a chain is no doubly linked list, and deleting its last entry leaves it as it is.\<close>

lemma self_linked_links:
  assumes "self_linked M ps base"
  shows "list_next M (PageLink base) = FreeList" and "list_prev M (PageLink base) = PageLink base"
    and "list_prev M FreeList = PageLink base"
proof -
  obtain L where d: "dll L FreeList (map PageLink (ps @ [base]))" and nx: "lnext M = lnext L"
    and pv: "lprev M = (lprev L)(PageLink base := PageLink base)"
    using assms unfolding self_linked_def by blast
  show "list_next M (PageLink base) = FreeList"
    using lh.next_elem [of L FreeList "map PageLink ps" "PageLink base" "[]"] d nx by (simp add: list_next_def)
  show "list_prev M (PageLink base) = PageLink base" using pv by (simp add: list_prev_def)
  show "list_prev M FreeList = PageLink base" using lh.prev_head [OF d] pv by (simp add: list_prev_def)
qed

lemma self_linked_not_dll: "self_linked M ps base \<Longrightarrow> \<not> dll M FreeList (map PageLink qs)"
proof
  assume M: "self_linked M ps base" and d: "dll M FreeList (map PageLink qs)"
  have "last (FreeList # map PageLink qs) = PageLink base"
    using lh.prev_head [OF d] self_linked_links(3) [OF M] by simp
  then obtain rs where qs: "qs = rs @ [base]" by (cases qs rule: rev_cases) auto
  then have "last (FreeList # map PageLink rs) = PageLink base"
    using lh.prev_elem [of M FreeList "map PageLink rs" "PageLink base" "[]"] d self_linked_links(2) [OF M]
    by simp
  then have "base \<in> set rs" by (cases rs rule: rev_cases) auto
  with d qs show False by (auto simp: dll_def distinct_map)
qed

lemma self_linked_del:
  assumes "self_linked M ps base"
  shows "list_del M (PageLink base) = M"
  using self_linked_links [OF assms] by (simp add: list_h_defs fun_upd_idem)

text \<open>Freeing a block above every free block: no merge happens, and the list is left self-linked.\<close>

lemma default_free_end:
  assumes rep: "fl_rep N s ps" and n: "0 < n" "base + n \<le> N"
    and dis: "{base..<base + n} \<inter> spans (psize s) ps = {}"
    and res: "\<forall>i\<in>{base..<base + n}. \<not> PageReserved (pages s i)"
    and ne: "ps \<noteq> []" and above: "\<forall>p\<in>set ps. p < base"
  shows "\<exists>P M. default_free_pages s base n =
      Inr (s\<lparr>pages := P, page_link := M, nr_free := nr_free s + n\<rparr>) \<and> self_linked M ps base \<and>
      prop_of P base = n \<and> (\<forall>p\<in>set ps. prop_of P p = psize s p) \<and>
      (\<forall>i. PageReserved (P i) = PageReserved (pages s i))"
proof -
  have heads: "i \<in> set ps \<Longrightarrow> i \<in> spans (psize s) ps" for i
    using fl_rep_block(1,4) [OF rep, of i] by auto
  have clear: "clear_pages (pages s) base n =
      Inr (\<lambda>i. if base \<le> i \<and> i < base + n then set_page_ref 0 ((pages s i)\<lparr>flags := 0\<rparr>) else pages s i)"
    using res dis heads rep n by (intro clear_pages_ok) (fastforce simp: fl_rep_def)
  have d: "dll (page_link s) FreeList (map PageLink ps)" using rep by (simp add: fl_rep_def)
  obtain M where M: "insert_free (page_link s) base = Inr M" "self_linked M ps base"
    using insert_loop_end [of "page_link s" "[]" ps base] d ne above lh.rep_empty [OF d]
    by (auto simp: insert_free_def)
  define P where "P = (\<lambda>i. if base \<le> i \<and> i < base + n then set_page_ref 0 ((pages s i)\<lparr>flags := 0\<rparr>) else pages s i)
     (base := SetPageProperty ((set_page_ref 0 ((pages s base)\<lparr>flags := 0\<rparr>))\<lparr>property := n\<rparr>))"
  have pn: "prop_of P base = n" by (simp add: P_def page_simps)
  have merge: "merge_prev P M base = (P, M, base)" "merge_next P M base = (P, M)"
    using self_linked_links [OF M(2)] n pn by (simp_all add: merge_prev_def merge_next_def)
  have "card (spans (psize s) ps \<union> {base..<base + n}) \<le> card {..<N}"
    using rep n by (intro card_mono) (auto simp: fl_rep_def)
  moreover have "card (spans (psize s) ps \<union> {base..<base + n}) = nr_free s + n"
    using dis fl_rep_nr_free [OF rep] by (subst card_Un_disjoint) auto
  ultimately have cnt: "add32 (nr_free s) n = nr_free s + n"
    using rep by (intro add32_small) (simp add: fl_rep_def)
  have nmod: "trunc32 (int n) = n" using n rep by (intro trunc32_int) (simp add: fl_rep_def)
  have "default_free_pages s base n = Inr (s\<lparr>pages := P, page_link := M, nr_free := nr_free s + n\<rparr>)"
    using n(1) clear M(1) merge cnt nmod
    by (simp add: default_free_pages_def P_def fun_upd_def [symmetric] cong: if_cong)
  moreover have "\<forall>p\<in>set ps. prop_of P p = psize s p" using above by (auto simp: P_def)
  moreover have "\<forall>i. PageReserved (P i) = PageReserved (pages s i)"
    using res n by (auto simp: P_def page_simps)
  ultimately show ?thesis using M(2) pn by blast
qed

lemma not_insertable_heads:
  "fl_rep N s ps \<Longrightarrow> \<not> insertable (spans (psize s) ps) base \<Longrightarrow> base \<notin> spans (psize s) ps \<Longrightarrow>
   ps \<noteq> [] \<and> (\<forall>p\<in>set ps. p < base)"
proof -
  assume rep: "fl_rep N s ps" and top: "\<not> insertable (spans (psize s) ps) base" and b: "base \<notin> spans (psize s) ps"
  have "p \<in> spans (psize s) ps" if "p \<in> set ps" for p
    using fl_rep_block(1,4) [OF rep that] by auto
  with top b have "p < base" if "p \<in> set ps" for p
    using that by (metis insertable_def linorder_neqE_nat)
  moreover have "ps \<noteq> []" using top by (auto simp: insertable_def)
  ultimately show ?thesis by blast
qed

text \<open>Freeing, on every list: the range joins the free pages, or the list is broken.\<close>

lemma default_free_total:
  assumes rep: "pmm_rep N s F" and n: "0 < n" and bn: "b + n \<le> N" and dis: "{b..<b + n} \<inter> F = {}"
    and own: "\<forall>i\<in>{b..<b + n}. page_owned s i"
  shows "\<exists>s'. default_free_pages s b n = Inr s' \<and> (\<forall>i. page_owned s' i = page_owned s i) \<and>
    (if insertable F b then pmm_rep N s' (F \<union> {b..<b + n})
     else list_prev (page_link s') (PageLink b) = PageLink b \<and> (\<forall>F'. \<not> pmm_rep N s' F'))"
proof (cases "insertable F b")
  case True
  with dpmm.free_ok [OF assms] show ?thesis by auto
next
  case False
  obtain ps where ps: "fl_rep N s ps" "F = spans (psize s) ps" using rep by (auto simp: pmm_rep_def)
  have "b \<in> {b..<b + n}" using n by simp
  with dis have "b \<notin> F" by blast
  with not_insertable_heads [of N s ps b] False ps have "ps \<noteq> []" "\<forall>p\<in>set ps. p < b" by auto
  from default_free_end [OF ps(1) n bn _ _ this] dis own ps(2) obtain P M where
    run: "default_free_pages s b n = Inr (s\<lparr>pages := P, page_link := M, nr_free := nr_free s + n\<rparr>)"
    and M: "self_linked M ps b" "\<forall>i. PageReserved (P i) = PageReserved (pages s i)"
    by (auto simp: page_owned_def)
  with self_linked_links(2) [OF M(1)] self_linked_not_dll [OF M(1)] False show ?thesis
    by (auto simp: pmm_rep_def fl_rep_def page_owned_def)
qed

text \<open>The allocator takes the block out of a self-linked list without any effect on the list.\<close>

lemma self_linked_alloc:
  assumes M: "self_linked M ps base" and n: "0 < n" "n \<le> nr_free s" "nr_free s < 2 ^ 32"
    and s: "page_link s = M" "psize s base = n" "\<forall>p\<in>set ps. psize s p < n"
  shows "default_alloc_pages s n = Inr (s\<lparr>pages := (pages s)(base := ClearPageProperty (pages s base)),
      nr_free := nr_free s - n\<rparr>, Some base)"
proof -
  obtain L where L: "dll L FreeList (map PageLink ([] @ ps @ [base]))" "lnext M = lnext L"
    using M unfolding self_linked_def by auto
  have "find (\<lambda>p. n \<le> psize s p) (ps @ [base]) = Some base"
    using s by (intro find_first) auto
  then have "first_fit_loop M (pages s) n FreeList = Some (Some base)"
    using first_fit_loop_chain [OF L, of "pages s" n] by simp
  with n s self_linked_del [OF M] sub32_small [of n "nr_free s"] show ?thesis
    by (simp add: default_alloc_pages_def Let_def)
qed

lemma self_linked_double_alloc:
  assumes rep: "fl_rep N s ps" and n: "0 < n" "base + n \<le> N" "n \<le> nr_free s"
    and dis: "{base..<base + n} \<inter> spans (psize s) ps = {}"
    and res: "\<forall>i\<in>{base..<base + n}. \<not> PageReserved (pages s i)"
    and ne: "ps \<noteq> []" and above: "\<forall>p\<in>set ps. p < base" and small: "\<forall>p\<in>set ps. psize s p < n"
  shows "\<exists>s1 s2 s3. default_free_pages s base n = Inr s1 \<and>
    default_alloc_pages s1 n = Inr (s2, Some base) \<and> default_alloc_pages s2 n = Inr (s3, Some base)"
proof -
  obtain P M where run: "default_free_pages s base n =
      Inr (s\<lparr>pages := P, page_link := M, nr_free := nr_free s + n\<rparr>)" and M: "self_linked M ps base"
    and P: "prop_of P base = n" "\<forall>p\<in>set ps. prop_of P p = psize s p"
    using default_free_end [OF rep n(1,2) dis res ne above] by blast
  let ?s1 = "s\<lparr>pages := P, page_link := M, nr_free := nr_free s + n\<rparr>"
  let ?s2 = "?s1\<lparr>pages := P(base := ClearPageProperty (P base)), nr_free := nr_free s\<rparr>"
  have "card (spans (psize s) ps \<union> {base..<base + n}) \<le> card {..<N}"
    using rep n by (intro card_mono) (auto simp: fl_rep_def)
  moreover have "card (spans (psize s) ps \<union> {base..<base + n}) = nr_free s + n"
    using dis fl_rep_nr_free [OF rep] by (subst card_Un_disjoint) auto
  ultimately have lt: "nr_free s + n < 2 ^ 32" using rep by (simp add: fl_rep_def)
  have "default_alloc_pages ?s1 n = Inr (?s2, Some base)"
    using self_linked_alloc [OF M n(1), of ?s1] lt P small by simp
  moreover have "\<exists>s3. default_alloc_pages ?s2 n = Inr (s3, Some base)"
    proof (intro exI, rule self_linked_alloc [OF M n(1)])
    show "\<forall>p\<in>set ps. psize ?s2 p < n" using small P(2) above by auto
  qed (use n lt P in \<open>simp_all add: page_simps\<close>)
  ultimately show ?thesis using run by blast
qed

section \<open>A small memory\<close>

text \<open>Eight pages, all reserved before \<open>default_init_memmap\<close>: the concrete state of the witnesses.\<close>

definition links0 :: "'p links" where "links0 = \<lparr>lprev = (\<lambda>p. p), lnext = (\<lambda>p. p)\<rparr>"

definition reserved_pages :: free_state where
  "reserved_pages = \<lparr>pages = (\<lambda>_. \<lparr>ref = 0, flags = 1, property = 0, pra_vaddr = 0\<rparr>),
     page_link = links0, nr_free = 0\<rparr>"

lemma mem8_fl_rep:
  "\<exists>s. default_init_memmap (default_init reserved_pages) 0 8 = Inr s \<and> fl_rep 8 s [0] \<and>
     psize s 0 = 8 \<and> (\<forall>i<8. page_owned s i)"
proof -
  have "\<forall>i<8. PageReserved (pages reserved_pages i) \<and> \<not> PageProperty (pages reserved_pages i)"
    by (simp add: reserved_pages_def PageReserved_bit PageProperty_bit bit_1_iff)
  from default_init_memmap_ok [OF _ _ _ this, of 8 0] obtain s where
    s: "default_init_memmap (default_init reserved_pages) 0 8 = Inr s" "fl_rep 8 s [0]"
      "spans (psize s) [0] = {0..<0 + 8}" "\<forall>i<8. PageReserved (pages s i) \<longleftrightarrow> i \<notin> {0..<0 + 8}"
    by auto
  have "psize s 0 = 8" using arg_cong [OF s(3), of card] by simp
  with s show ?thesis by (auto simp: page_owned_def)
qed

lemma mem8_rep: "\<exists>s. pmm_rep 8 s {0..<8} \<and> (\<forall>i<8. page_owned s i)"
  using mem8_fl_rep unfolding pmm_rep_def by fastforce

lemma mem8_alloc:
  "\<exists>s s1. pmm_rep 8 s {0..<8} \<and> default_alloc_pages s 3 = Inr (s1, Some 0) \<and> pmm_rep 8 s1 {3..<8} \<and>
     (\<forall>i<8. page_owned s1 i)"
proof -
  obtain s where s: "fl_rep 8 s [0]" "psize s 0 = 8" "\<forall>i<8. page_owned s i" using mem8_fl_rep by blast
  then have F: "pmm_rep 8 s {0..<8}" unfolding pmm_rep_def by (intro exI [of _ "[0]"]) simp
  from default_alloc_split [of 8 s "[]" 0 "[]" 3] s obtain s1 where
    s1: "default_alloc_pages s 3 = Inr (s1, Some 0)" "fl_rep 8 s1 [3]"
      "spans (psize s1) [3] = {0..<8} - {0..<3}" "\<forall>i. PageReserved (pages s1 i) = PageReserved (pages s i)"
    by auto
  then have "pmm_rep 8 s1 {3..<8}" unfolding pmm_rep_def by (intro exI [of _ "[3]"]) auto
  with F s1 s(3) show ?thesis by (auto simp: page_owned_def)
qed

lemma mem8_holes: "\<exists>s. pmm_rep 8 s {0, 2} \<and> (\<forall>i<8. page_owned s i)"
proof -
  obtain s where s: "pmm_rep 8 s {0..<8}" "\<forall>i<8. page_owned s i" using mem8_rep by blast
  have "\<exists>p. {p..<p + 8} \<subseteq> {0..<8::nat}" by (rule exI [of _ 0]) simp
  from dpmm.alloc_some [OF s(1) _ this] obtain s1 p where p: "{p..<p + 8} \<subseteq> {0..<8::nat}"
    "pmm_rep 8 s1 ({0..<8} - {p..<p + 8})" "\<forall>i. page_owned s1 i = page_owned s i" by auto
  have "p = 0" using subsetD [OF p(1), of "p + 7"] by simp
  with p s have s1: "pmm_rep 8 s1 {}" "\<forall>i<8. page_owned s1 i" by auto
  from dpmm.free_ok [OF s1(1), of 1 2] s1 obtain s2 where s2: "pmm_rep 8 s2 {2}" "\<forall>i<8. page_owned s2 i"
    by (auto simp: insertable_def eval_nat_numeral)
  from dpmm.free_ok [OF s2(1), of 1 0] s2 show ?thesis by (auto simp: insertable_def insert_commute)
qed

section \<open>Properties\<close>

text \<open>C5: allocation refines the set-of-free-pages view.  In a state whose free list represents the
  set \<open>F\<close>, \<open>default_alloc_pages\<close> with a positive size always returns; it returns NULL, with the
  state unchanged, exactly when no run of that many free pages exists; otherwise it returns the
  start of a run of free pages and the new state represents exactly the remaining pages.\<close>

theorem default_alloc_refines:
  assumes "pmm_rep N s F" and "0 < n"
  shows "if \<exists>p. {p..<p + n} \<subseteq> F
         then \<exists>s' p. default_alloc_pages s n = Inr (s', Some p) \<and> {p..<p + n} \<subseteq> F \<and>
                pmm_rep N s' (F - {p..<p + n})
         else default_alloc_pages s n = Inr (s, None)"
proof (cases "\<exists>p. {p..<p + n} \<subseteq> F")
  case True
  with dpmm.alloc_some [OF assms] show ?thesis by (simp only: if_True) blast
next
  case False
  with dpmm.alloc_none [OF assms] show ?thesis by simp
qed

theorem default_alloc_refines_witness:
  "\<exists>s s' p. pmm_rep 8 s {0..<8} \<and> default_alloc_pages s 3 = Inr (s', Some p) \<and>
     pmm_rep 8 s' ({0..<8} - {p..<p + 3})"
proof -
  obtain s where s: "pmm_rep 8 s {0..<8}" using mem8_rep by blast
  have "\<exists>p. {p..<p + 3} \<subseteq> {0..<8::nat}" by (rule exI [of _ 0]) auto
  with default_alloc_refines [OF s, of 3] s show ?thesis by (simp only: if_True) auto
qed

text \<open>C6: what freeing does, on every list.  In a state whose free list represents \<open>F\<close>, freeing a
  range of pages that are not reserved and not in \<open>F\<close> always returns.  If some free page lies above
  the range, or no page is free (\<open>insertable\<close>), the new state represents exactly \<open>F\<close> and the range,
  merged with its neighbours.  Otherwise the entry of the freed block is inserted twice: its \<open>prev\<close>
  field points to itself and the state represents no set of free pages any more.\<close>

theorem default_free_refines:
  assumes "pmm_rep N s F" and "0 < n" and "b + n \<le> N" and "{b..<b + n} \<inter> F = {}"
    and "\<forall>i\<in>{b..<b + n}. page_owned s i"
  shows "\<exists>s'. default_free_pages s b n = Inr s' \<and>
    (if insertable F b then pmm_rep N s' (F \<union> {b..<b + n})
     else list_prev (page_link s') (PageLink b) = PageLink b \<and> (\<forall>F'. \<not> pmm_rep N s' F'))"
  using default_free_total [OF assms] by blast

theorem default_free_refines_witness:
  "(\<exists>s s'. pmm_rep 8 s {3..<8} \<and> default_free_pages s 0 3 = Inr s' \<and> pmm_rep 8 s' ({3..<8} \<union> {0..<0 + 3})) \<and>
   (\<exists>s s'. pmm_rep 8 s {0, 2} \<and> default_free_pages s 4 2 = Inr s' \<and>
      list_prev (page_link s') (PageLink 4) = PageLink 4 \<and> (\<forall>F'. \<not> pmm_rep 8 s' F'))"
proof
  obtain s where s: "pmm_rep 8 s {3..<8}" "\<forall>i<8. page_owned s i" using mem8_alloc by blast
  have "insertable {3..<8} 0" by (auto simp: insertable_def intro: bexI [of _ 3])
  with default_free_refines [OF s(1), of 3 0] s
  show "\<exists>s s'. pmm_rep 8 s {3..<8} \<and> default_free_pages s 0 3 = Inr s' \<and>
    pmm_rep 8 s' ({3..<8} \<union> {0..<0 + 3})" by auto
next
  obtain s where s: "pmm_rep 8 s {0, 2}" "\<forall>i<8. page_owned s i" using mem8_holes by blast
  have "\<not> insertable {0, 2} 4" by (simp add: insertable_def)
  with default_free_refines [OF s(1), of 2 4] s
  show "\<exists>s s'. pmm_rep 8 s {0, 2} \<and> default_free_pages s 4 2 = Inr s' \<and>
    list_prev (page_link s') (PageLink 4) = PageLink 4 \<and> (\<forall>F'. \<not> pmm_rep 8 s' F')" by auto
qed

text \<open>two allocations in a row return disjoint blocks, as long as the free list is in order.\<close>

theorem default_alloc_disjoint:
  assumes "pmm_rep N s F" and "0 < m" and "0 < n"
    and "default_alloc_pages s m = Inr (s1, Some p)" and "default_alloc_pages s1 n = Inr (s2, Some q)"
  shows "{p..<p + m} \<inter> {q..<q + n} = {}"
  using assms by (rule dpmm.alloc_disjoint)

theorem default_alloc_disjoint_witness:
  "\<exists>s s1 s2 q. pmm_rep 8 s {0..<8} \<and> default_alloc_pages s 3 = Inr (s1, Some 0) \<and>
     default_alloc_pages s1 2 = Inr (s2, Some q) \<and> {0..<0 + 3} \<inter> {q..<q + 2} = {}"
proof -
  obtain s s1 where s: "pmm_rep 8 s {0..<8}" "default_alloc_pages s 3 = Inr (s1, Some 0)"
    "pmm_rep 8 s1 {3..<8}" using mem8_alloc by blast
  have "\<exists>p. {p..<p + 2} \<subseteq> {3..<8::nat}" by (rule exI [of _ 3]) auto
  with dpmm.alloc_some [OF s(3), of 2] obtain s2 q where q: "default_alloc_pages s1 2 = Inr (s2, Some q)"
    by auto
  with default_alloc_disjoint [OF s(1) _ _ s(2) q] s show ?thesis by auto
qed

text \<open>C30: allocating a block and freeing it again at once.  The free always returns; it restores the
  set of free pages when one of the remaining free pages lies above the block or none remains
  (\<open>insertable\<close>), and otherwise leaves a list that represents no set of free pages.\<close>

theorem default_alloc_free_roundtrip:
  assumes "pmm_rep N s F" and "0 < n" and "default_alloc_pages s n = Inr (s1, Some p)"
  shows "\<exists>s2. default_free_pages s1 p n = Inr s2 \<and>
    (if insertable (F - {p..<p + n}) p then pmm_rep N s2 F else \<forall>F'. \<not> pmm_rep N s2 F')"
  using default_free_total [OF dpmm.alloc_freeable(5) [OF assms] assms(2) dpmm.alloc_freeable(1,2,3) [OF assms]]
    dpmm.alloc_freeable(4) [OF assms] by (auto split: if_splits)

theorem default_alloc_free_roundtrip_witness:
  "\<exists>s s1 s2. pmm_rep 8 s {0..<8} \<and> default_alloc_pages s 3 = Inr (s1, Some 0) \<and>
     default_free_pages s1 0 3 = Inr s2 \<and> pmm_rep 8 s2 {0..<8}"
proof -
  obtain s s1 where s: "pmm_rep 8 s {0..<8}" "default_alloc_pages s 3 = Inr (s1, Some 0)"
    using mem8_alloc by blast
  have "insertable ({0..<8} - {0..<0 + 3}) 0" by (auto simp: insertable_def intro: bexI [of _ 3])
  with default_alloc_free_roundtrip [OF s(1) _ s(2)] s show ?thesis by auto
qed

text \<open>the counter \<open>nr_free\<close> is the number of free pages.\<close>

theorem default_nr_free_counts: "pmm_rep N s F \<Longrightarrow> default_nr_free_pages s = card F"
  by (rule dpmm.nr_card)

theorem default_nr_free_counts_witness: "\<exists>s. pmm_rep 8 s {0..<8} \<and> default_nr_free_pages s = 8"
  using mem8_rep default_nr_free_counts [of 8 _ "{0..<8}"] by force

text \<open>C31: the consequence of a free above every free page.  Let a block of \<open>n\<close> pages that lies above
  every free page be freed while at least \<open>n\<close> pages are free but no \<open>n\<close> of them in a row.  Then the
  next two allocations of \<open>n\<close> pages both return that same block, so two users own it at once.\<close>

theorem default_pmm_double_alloc:
  assumes rep: "pmm_rep N s F" and n: "0 < n" and bn: "b + n \<le> N" and dis: "{b..<b + n} \<inter> F = {}"
    and own: "\<forall>i\<in>{b..<b + n}. page_owned s i"
    and above: "\<not> insertable F b" and norun: "\<not> (\<exists>p. {p..<p + n} \<subseteq> F)" and card: "n \<le> card F"
  shows "\<exists>s1 s2 s3. default_free_pages s b n = Inr s1 \<and> default_alloc_pages s1 n = Inr (s2, Some b) \<and>
    default_alloc_pages s2 n = Inr (s3, Some b)"
proof -
  obtain ps where ps: "fl_rep N s ps" "F = spans (psize s) ps" using rep by (auto simp: pmm_rep_def)
  have "b \<in> {b..<b + n}" using n by simp
  with dis have "b \<notin> F" by blast
  with not_insertable_heads [of N s ps b] above ps have hs: "ps \<noteq> []" "\<forall>p\<in>set ps. p < b" by auto
  have small: "\<forall>p\<in>set ps. psize s p < n"
  proof (rule ballI, rule ccontr)
    fix p assume "p \<in> set ps" "\<not> psize s p < n"
    with fl_rep_block(4) [OF ps(1), of p] ps(2) have "{p..<p + n} \<subseteq> F" by (fastforce simp: subset_iff)
    with norun show False by blast
  qed
  have "n \<le> nr_free s" using card fl_rep_nr_free [OF ps(1)] ps(2) by simp
  from self_linked_double_alloc [OF ps(1) n bn this _ _ hs small] dis own ps(2) show ?thesis
    by (simp add: page_owned_def)
qed

theorem default_pmm_double_alloc_witness:
  "\<exists>s s1 s2 s3. pmm_rep 8 s {0, 2} \<and> default_free_pages s 4 2 = Inr s1 \<and>
     default_alloc_pages s1 2 = Inr (s2, Some 4) \<and> default_alloc_pages s2 2 = Inr (s3, Some 4)"
proof -
  obtain s where s: "pmm_rep 8 s {0, 2}" "\<forall>i<8. page_owned s i" using mem8_holes by blast
  have "\<not> insertable {0, 2} 4" by (simp add: insertable_def)
  moreover have "\<not> {p..<p + 2} \<subseteq> {0, 2}" for p :: nat
    using subsetD [of "{p..<p + 2}" "{0, 2}" p] subsetD [of "{p..<p + 2}" "{0, 2}" "p + 1"] by auto
  ultimately show ?thesis using default_pmm_double_alloc [OF s(1), of 2 4] s by auto
qed

end
