(* ===== verification/Mem_State.thy ===== *)
theory Mem_State
  imports Default_Pmm
begin

text \<open>
  The constants and address macros of kern/mm/mmu.h, kern/mm/memlayout.h and kern/mm/pmm.h, and the
  state of the memory subsystem: page descriptors and free list, physical memory, the structures
  mm_struct and vma_struct of kern/mm/vmm.h with their lists, the FIFO list of swappable pages, the
  faked disk of kern/driver/ide.c and the heap of kern/mm/kmalloc.c.

  Physical memory is a function from the frame number and the index of a 64-bit word in the frame
  to the word: page tables are arrays of such words.  A page table entry is addressed by frame and
  index; a kernel address of the direct map (\<open>KADDR\<close>) is a 64-bit value that \<open>kva_frame\<close> takes back
  to its frame.  The TLB is not modelled: \<open>tlb_invalidate\<close> and \<open>flush_tlb\<close> change no state here.
\<close>

section \<open>Constants\<close>

definition PGSIZE :: u64 where "PGSIZE = 4096"
definition PGSHIFT :: nat where "PGSHIFT = 12"
definition NPTEENTRY :: nat where "NPTEENTRY = 512"
definition PTSIZE :: u64 where "PTSIZE = PGSIZE * 512"
definition PDSIZE :: u64 where "PDSIZE = PTSIZE * 512"
definition PTXSHIFT :: nat where "PTXSHIFT = 12"
definition PDX0SHIFT :: nat where "PDX0SHIFT = 21"
definition PDX1SHIFT :: nat where "PDX1SHIFT = 30"
definition PTE_PPN_SHIFT :: nat where "PTE_PPN_SHIFT = 10"

definition PTE_V :: u64 where "PTE_V = 0x001"
definition PTE_R :: u64 where "PTE_R = 0x002"
definition PTE_W :: u64 where "PTE_W = 0x004"
definition PTE_X :: u64 where "PTE_X = 0x008"
definition PTE_U :: u64 where "PTE_U = 0x010"
definition READ_WRITE :: u64 where "READ_WRITE = PTE_R OR PTE_W OR PTE_V"
definition PTE_USER :: u64 where "PTE_USER = PTE_R OR PTE_W OR PTE_X OR PTE_U OR PTE_V"

definition KERNBASE :: u64 where "KERNBASE = 0xFFFFFFFFC0200000"
definition KMEMSIZE :: u64 where "KMEMSIZE = 0x7E00000"
definition KERNTOP :: u64 where "KERNTOP = KERNBASE + KMEMSIZE"
definition KERNEL_BEGIN_PADDR :: u64 where "KERNEL_BEGIN_PADDR = 0x80200000"
definition PHYSICAL_MEMORY_END :: u64 where "PHYSICAL_MEMORY_END = 0x88000000"
definition DRAM_BASE :: u64 where "DRAM_BASE = 0x80000000"
definition KSTACKPAGE :: nat where "KSTACKPAGE = 2"
definition KSTACKSIZE :: u64 where "KSTACKSIZE = of_nat KSTACKPAGE * PGSIZE"
definition USERTOP :: u64 where "USERTOP = 0x80000000"
definition USTACKTOP :: u64 where "USTACKTOP = USERTOP"
definition USTACKPAGE :: u64 where "USTACKPAGE = 256"
definition USTACKSIZE :: u64 where "USTACKSIZE = USTACKPAGE * PGSIZE"
definition USERBASE :: u64 where "USERBASE = 0x00200000"

definition va_pa_offset :: u64 where "va_pa_offset = KERNBASE - 0x80200000"
definition nbase :: nat where "nbase = 0x80000"

definition VM_READ :: u32 where "VM_READ = 1"
definition VM_WRITE :: u32 where "VM_WRITE = 2"
definition VM_EXEC :: u32 where "VM_EXEC = 4"
definition VM_STACK :: u32 where "VM_STACK = 8"

definition E_UNSPECIFIED :: int where "E_UNSPECIFIED = 1"
definition E_BAD_PROC :: int where "E_BAD_PROC = 2"
definition E_INVAL :: int where "E_INVAL = 3"
definition E_NO_MEM :: int where "E_NO_MEM = 4"
definition E_NO_FREE_PROC :: int where "E_NO_FREE_PROC = 5"
definition E_FAULT :: int where "E_FAULT = 6"
definition E_INVAL_ELF :: int where "E_INVAL_ELF = 8"
definition E_KILLED :: int where "E_KILLED = 9"
definition E_PANIC :: int where "E_PANIC = 10"

lemmas err_defs = E_UNSPECIFIED_def E_BAD_PROC_def E_INVAL_def E_NO_MEM_def E_NO_FREE_PROC_def
  E_FAULT_def E_INVAL_ELF_def E_KILLED_def E_PANIC_def

section \<open>Address macros\<close>

definition ROUNDDOWN :: "u64 \<Rightarrow> u64 \<Rightarrow> u64" where "ROUNDDOWN a n = a - a mod n"
definition ROUNDUP :: "u64 \<Rightarrow> u64 \<Rightarrow> u64" where "ROUNDUP a n = ROUNDDOWN (a + n - 1) n"

definition PDX1 :: "u64 \<Rightarrow> u64" where "PDX1 la = drop_bit PDX1SHIFT la AND 0x1FF"
definition PDX0 :: "u64 \<Rightarrow> u64" where "PDX0 la = drop_bit PDX0SHIFT la AND 0x1FF"
definition PTX :: "u64 \<Rightarrow> u64" where "PTX la = drop_bit PTXSHIFT la AND 0x1FF"
definition PPN :: "u64 \<Rightarrow> u64" where "PPN la = drop_bit PTXSHIFT la"
definition PGOFF :: "u64 \<Rightarrow> u64" where "PGOFF la = la AND 0xFFF"
definition PGADDR :: "u64 \<Rightarrow> u64 \<Rightarrow> u64 \<Rightarrow> u64 \<Rightarrow> u64" where
  "PGADDR d1 d0 t off = push_bit PDX1SHIFT d1 OR push_bit PDX0SHIFT d0 OR push_bit PTXSHIFT t OR off"
definition PTE_ADDR :: "u64 \<Rightarrow> u64" where
  "PTE_ADDR pte = push_bit (PTXSHIFT - PTE_PPN_SHIFT) (pte AND NOT 0x3FF)"
definition PDE_ADDR :: "u64 \<Rightarrow> u64" where "PDE_ADDR pde = PTE_ADDR pde"
definition USER_ACCESS :: "u64 \<Rightarrow> u64 \<Rightarrow> bool" where
  "USER_ACCESS start en \<longleftrightarrow> USERBASE \<le> start \<and> start < en \<and> en \<le> USERTOP"
definition KERN_ACCESS :: "u64 \<Rightarrow> u64 \<Rightarrow> bool" where
  "KERN_ACCESS start en \<longleftrightarrow> KERNBASE \<le> start \<and> start < en \<and> en \<le> KERNTOP"

section \<open>Structures\<close>

type_synonym addr = nat \<comment> \<open>address of a heap object; 0 is NULL\<close>

datatype pra_ptr = PraHead | PraLink nat
datatype mm_ptr = MmapList addr | VmaLink addr

record vma_struct =
  vm_mm :: addr
  vm_start :: u64
  vm_end :: u64
  vm_flags :: u32

record mm_struct =
  mmap_cache :: addr
  pgdir :: u64
  map_count :: s32
  sm_priv :: "pra_ptr option"
  mm_count :: s32
  mm_lock :: u64

record bigblock =
  bb_order :: nat
  bb_pages :: addr
  bb_next :: addr

record slob_state =
  units :: "addr \<Rightarrow> int"
  snext :: "addr \<Rightarrow> addr"
  slobfree :: addr
  bigblocks :: addr
  bbs :: "addr \<Rightarrow> bigblock"

record mstate =
  fa :: free_state
  npage :: nat
  pmem :: "nat \<Rightarrow> nat \<Rightarrow> u64"
  sstatus :: u64
  satp :: u64
  swap_init_ok :: bool
  max_swap_offset :: nat
  check_mm_struct :: addr
  mms :: "addr \<Rightarrow> mm_struct"
  vmas :: "addr \<Rightarrow> vma_struct"
  mmap_link :: "mm_ptr links"
  pra_link :: "pra_ptr links"
  ide :: "nat \<Rightarrow> u64"
  slob :: slob_state
  pgfault_num :: u32

section \<open>Page descriptors, frames and entries\<close>

definition page_of :: "mstate \<Rightarrow> nat \<Rightarrow> Page" where "page_of s i = pages (fa s) i"

definition upd_page :: "nat \<Rightarrow> (Page \<Rightarrow> Page) \<Rightarrow> mstate \<Rightarrow> mstate" where
  "upd_page i f s = s\<lparr>fa := (fa s)\<lparr>pages := (pages (fa s))(i := f (pages (fa s) i))\<rparr>\<rparr>"

definition KADDR :: "mstate \<Rightarrow> u64 \<Rightarrow> u64 res" where
  "KADDR s pa = (if unat (PPN pa) \<ge> npage s then Inl (Panic ''KADDR called with invalid pa'')
     else Inr (pa + va_pa_offset))"

definition PADDR :: "u64 \<Rightarrow> u64 res" where
  "PADDR kva = (if kva < KERNBASE then Inl (Panic ''PADDR called with invalid kva'')
     else Inr (kva - va_pa_offset))"

definition page2ppn :: "nat \<Rightarrow> nat" where "page2ppn page = page + nbase"

definition page2pa :: "nat \<Rightarrow> u64" where "page2pa page = push_bit PGSHIFT (of_nat (page2ppn page))"

text \<open>An index below \<open>nbase\<close> would point before the array \<open>pages\<close>.\<close>

definition pa2page :: "mstate \<Rightarrow> u64 \<Rightarrow> nat res" where
  "pa2page s pa =
     (if unat (PPN pa) \<ge> npage s then Inl (Panic ''pa2page called with invalid pa'')
      else if unat (PPN pa) < nbase then Inl (BadPtr ''pages'')
      else Inr (unat (PPN pa) - nbase))"

definition page2kva :: "mstate \<Rightarrow> nat \<Rightarrow> u64 res" where "page2kva s page = KADDR s (page2pa page)"

definition kva2page :: "mstate \<Rightarrow> u64 \<Rightarrow> nat res" where
  "kva2page s kva = bindR (PADDR kva) (pa2page s)"

definition pte2page :: "mstate \<Rightarrow> u64 \<Rightarrow> nat res" where
  "pte2page s pte = (if pte AND PTE_V = 0 then Inl (Panic ''pte2page called with invalid pte'')
     else pa2page s (PTE_ADDR pte))"

definition pde2page :: "mstate \<Rightarrow> u64 \<Rightarrow> nat res" where "pde2page s pde = pa2page s (PDE_ADDR pde)"

definition page_ref :: "mstate \<Rightarrow> nat \<Rightarrow> s32" where "page_ref s page = ref (page_of s page)"

definition page_ref_inc :: "nat \<Rightarrow> mstate \<Rightarrow> mstate" where
  "page_ref_inc page = upd_page page (\<lambda>p. p\<lparr>ref := ref p + 1\<rparr>)"

definition page_ref_dec :: "nat \<Rightarrow> mstate \<Rightarrow> mstate" where
  "page_ref_dec page = upd_page page (\<lambda>p. p\<lparr>ref := ref p - 1\<rparr>)"

text \<open>The argument \<open>type\<close> of \<open>pte_create\<close> is an \<open>int\<close>: cut to 32 bits and extended with its sign.\<close>

definition pte_create :: "u64 \<Rightarrow> u64 \<Rightarrow> u64" where
  "pte_create ppn type = push_bit PTE_PPN_SHIFT ppn OR PTE_V OR scast (ucast type :: s32)"

text \<open>The frame a direct-map address lies in; anything else is not memory of this kernel.\<close>

definition kva_frame :: "mstate \<Rightarrow> u64 \<Rightarrow> nat res" where
  "kva_frame s kva =
     (let ppn = unat (PPN (kva - va_pa_offset))
      in if nbase \<le> ppn \<and> ppn < npage s then Inr ppn else Inl (BadPtr ''direct map''))"

type_synonym pte_ptr = "nat \<times> nat"

definition rd :: "mstate \<Rightarrow> pte_ptr \<Rightarrow> u64" where "rd s p = pmem s (fst p) (snd p)"

definition wr :: "pte_ptr \<Rightarrow> u64 \<Rightarrow> mstate \<Rightarrow> mstate" where
  "wr p v s = s\<lparr>pmem := (pmem s)(fst p := (pmem s (fst p))(snd p := v))\<rparr>"

text \<open>\<open>memset(kva, 0, PGSIZE)\<close> and \<open>memcpy(dst, src, PGSIZE)\<close> on whole frames.\<close>

definition zero_frame :: "nat \<Rightarrow> mstate \<Rightarrow> mstate" where
  "zero_frame ppn s = s\<lparr>pmem := (pmem s)(ppn := (\<lambda>_. 0))\<rparr>"

definition copy_frame :: "nat \<Rightarrow> nat \<Rightarrow> mstate \<Rightarrow> mstate" where
  "copy_frame dst src s = s\<lparr>pmem := (pmem s)(dst := pmem s src)\<rparr>"

end
