(* ===== verification/Pmm.thy ===== *)
theory Pmm
  imports Mem_State
begin

text \<open>
  kern/mm/pmm.c, kern/mm/swap.c, kern/mm/swap_fifo.c, kern/fs/swapfs.c and kern/driver/ide.c: page
  allocation with its fall back to swapping, the three level page tables, and the swap machinery.
  \<open>alloc_pages\<close> calls \<open>swap_out\<close>, which walks page tables with \<open>get_pte(.., 0)\<close>, while
  \<open>get_pte(.., 1)\<close> calls \<open>alloc_page\<close>: \<open>get_pte_with\<close> takes the allocator as an argument, is used
  first without creation by \<open>swap_out\<close>, and becomes \<open>get_pte\<close> once \<open>alloc_page\<close> is defined.
\<close>

section \<open>The disk\<close>

definition SECTSIZE :: nat where "SECTSIZE = 512"
definition PAGE_NSECT :: nat where "PAGE_NSECT = 8"
definition SWAP_DEV_NO :: nat where "SWAP_DEV_NO = 1"
definition MAX_IDE :: nat where "MAX_IDE = 2"
definition MAX_DISK_NSECS :: nat where "MAX_DISK_NSECS = 56"
definition MAX_SWAP_OFFSET_LIMIT :: nat where "MAX_SWAP_OFFSET_LIMIT = 2 ^ 24"

definition ide_device_valid :: "nat \<Rightarrow> bool" where "ide_device_valid ideno \<longleftrightarrow> ideno < MAX_IDE"
definition ide_device_size :: "nat \<Rightarrow> nat" where "ide_device_size ideno = MAX_DISK_NSECS"

text \<open>
  The array \<open>ide\<close> is kept in 64-bit words (a sector is 64 of them).  A transfer that leaves the
  array is undefined behaviour.
\<close>

definition ide_in_range :: "nat \<Rightarrow> nat \<Rightarrow> bool" where
  "ide_in_range secno nsecs \<longleftrightarrow> secno + nsecs \<le> MAX_DISK_NSECS"

definition ide_read_secs :: "nat \<Rightarrow> nat \<Rightarrow> nat \<Rightarrow> nat \<Rightarrow> mstate \<Rightarrow> (mstate \<times> int) res" where
  "ide_read_secs ideno secno dst nsecs s =
     (if ide_in_range secno nsecs
      then Inr (s\<lparr>pmem := (pmem s)(dst :=
             (\<lambda>i. if i < nsecs * 64 then ide s (secno * 64 + i) else pmem s dst i))\<rparr>, 0)
      else Inl (BadPtr ''ide''))"

definition ide_write_secs :: "nat \<Rightarrow> nat \<Rightarrow> nat \<Rightarrow> nat \<Rightarrow> mstate \<Rightarrow> (mstate \<times> int) res" where
  "ide_write_secs ideno secno src nsecs s =
     (if ide_in_range secno nsecs
      then Inr (s\<lparr>ide := (\<lambda>k. if secno * 64 \<le> k \<and> k < secno * 64 + nsecs * 64
             then pmem s src (k - secno * 64) else ide s k)\<rparr>, 0)
      else Inl (BadPtr ''ide''))"

definition swap_offset :: "mstate \<Rightarrow> u64 \<Rightarrow> nat res" where
  "swap_offset s entry =
     (let off = unat (drop_bit 8 entry)
      in if 0 < off \<and> off < max_swap_offset s then Inr off else Inl (Panic ''invalid swap_entry_t''))"

definition swapfs_init :: "mstate \<Rightarrow> mstate res" where
  "swapfs_init s =
     (if \<not> ide_device_valid SWAP_DEV_NO then Inl (Panic ''swap fs isn't available.'')
      else Inr (s\<lparr>max_swap_offset := ide_device_size SWAP_DEV_NO div (4096 div SECTSIZE)\<rparr>))"

definition swapfs_read :: "u64 \<Rightarrow> nat \<Rightarrow> mstate \<Rightarrow> (mstate \<times> int) res" where
  "swapfs_read entry page s =
     bindR (swap_offset s entry) (\<lambda>off.
     bindR (page2kva s page) (\<lambda>kva.
     bindR (kva_frame s kva) (\<lambda>frame.
     ide_read_secs SWAP_DEV_NO (off * PAGE_NSECT) frame PAGE_NSECT s)))"

definition swapfs_write :: "u64 \<Rightarrow> nat \<Rightarrow> mstate \<Rightarrow> (mstate \<times> int) res" where
  "swapfs_write entry page s =
     bindR (swap_offset s entry) (\<lambda>off.
     bindR (page2kva s page) (\<lambda>kva.
     bindR (kva_frame s kva) (\<lambda>frame.
     ide_write_secs SWAP_DEV_NO (off * PAGE_NSECT) frame PAGE_NSECT s)))"

section \<open>The FIFO replacement policy\<close>

definition fifo_init_mm :: "addr \<Rightarrow> mstate \<Rightarrow> mstate \<times> int" where
  "fifo_init_mm mm s =
     (s\<lparr>pra_link := list_init (pra_link s) PraHead,
        mms := (mms s)(mm := (mms s mm)\<lparr>sm_priv := Some PraHead\<rparr>)\<rparr>, 0)"

definition fifo_map_swappable :: "addr \<Rightarrow> u64 \<Rightarrow> nat \<Rightarrow> int \<Rightarrow> mstate \<Rightarrow> (mstate \<times> int) res" where
  "fifo_map_swappable mm addr page swap_in s =
     (if mm = 0 then Inl (BadPtr ''mm'')
      else case sm_priv (mms s mm) of
        None \<Rightarrow> Inl (AssertFail ''entry != NULL && head != NULL'')
      | Some head \<Rightarrow> Inr (s\<lparr>pra_link := list_add_before (pra_link s) head (PraLink page)\<rparr>, 0))"

text \<open>\<open>le2page\<close> of the header itself is not a page: taking a victim from an empty list is undefined.\<close>

definition fifo_swap_out_victim :: "addr \<Rightarrow> int \<Rightarrow> mstate \<Rightarrow> (mstate \<times> nat \<times> int) res" where
  "fifo_swap_out_victim mm in_tick s =
     (if mm = 0 then Inl (BadPtr ''mm'')
      else case sm_priv (mms s mm) of
        None \<Rightarrow> Inl (AssertFail ''head != NULL'')
      | Some head \<Rightarrow>
          bindR (assertR (in_tick = 0) ''in_tick==0'') (\<lambda>_.
          let entry = list_next (pra_link s) head;
              s = s\<lparr>pra_link := list_del (pra_link s) entry\<rparr>
          in case entry of PraHead \<Rightarrow> Inl (BadPtr ''le2page'') | PraLink page \<Rightarrow> Inr (s, page, 0)))"

definition fifo_init :: int where "fifo_init = 0"
definition fifo_set_unswappable :: "addr \<Rightarrow> u64 \<Rightarrow> int" where "fifo_set_unswappable mm addr = 0"
definition fifo_tick_event :: "addr \<Rightarrow> int" where "fifo_tick_event mm = 0"

text \<open>\<open>sm\<close> is \<open>swap_manager_fifo\<close>.\<close>

definition swap_init_mm :: "addr \<Rightarrow> mstate \<Rightarrow> mstate \<times> int" where
  "swap_init_mm mm s = fifo_init_mm mm s"
definition swap_tick_event :: "addr \<Rightarrow> int" where "swap_tick_event mm = fifo_tick_event mm"
definition swap_map_swappable :: "addr \<Rightarrow> u64 \<Rightarrow> nat \<Rightarrow> int \<Rightarrow> mstate \<Rightarrow> (mstate \<times> int) res" where
  "swap_map_swappable mm addr page swap_in s = fifo_map_swappable mm addr page swap_in s"
definition swap_set_unswappable :: "addr \<Rightarrow> u64 \<Rightarrow> int" where
  "swap_set_unswappable mm addr = fifo_set_unswappable mm addr"

section \<open>Freeing pages and walking page tables\<close>

definition free_pages :: "nat \<Rightarrow> nat \<Rightarrow> mstate \<Rightarrow> mstate res" where
  "free_pages base n s =
     (let (intr_flag, st) = intr_save (sstatus s)
      in bindR (default_free_pages (fa s) base n) (\<lambda>f.
         Inr (s\<lparr>fa := f, sstatus := intr_restore intr_flag st\<rparr>)))"

definition free_page :: "nat \<Rightarrow> mstate \<Rightarrow> mstate res" where "free_page page s = free_pages page 1 s"

definition nr_free_pages :: "mstate \<Rightarrow> nat" where "nr_free_pages s = default_nr_free_pages (fa s)"

text \<open>
  One level of \<open>get_pte\<close>: make sure the directory entry \<open>pdep\<close> is valid, allocating and clearing a
  table if allowed.  \<open>False\<close> stands for the early \<open>return NULL\<close>.
\<close>

definition ensure_table ::
  "(mstate \<Rightarrow> (mstate \<times> nat option) res) \<Rightarrow> pte_ptr \<Rightarrow> bool \<Rightarrow> mstate \<Rightarrow> (mstate \<times> bool) res" where
  "ensure_table alloc pdep create s =
     (if rd s pdep AND PTE_V = 0 then
        if \<not> create then Inr (s, False)
        else bindR (alloc s) (\<lambda>(s, r).
          case r of
            None \<Rightarrow> Inr (s, False)
          | Some page \<Rightarrow>
              let s = upd_page page (set_page_ref 1) s in
              bindR (KADDR s (page2pa page)) (\<lambda>kva.
              bindR (kva_frame s kva) (\<lambda>frame.
              let s = zero_frame frame s in
              Inr (wr pdep (pte_create (of_nat (page2ppn page)) (PTE_U OR PTE_V)) s, True))))
      else Inr (s, True))"

definition get_pte_with ::
  "(mstate \<Rightarrow> (mstate \<times> nat option) res) \<Rightarrow> u64 \<Rightarrow> u64 \<Rightarrow> bool \<Rightarrow> mstate \<Rightarrow>
   (mstate \<times> pte_ptr option) res" where
  "get_pte_with alloc pd la create s =
     bindR (kva_frame s pd) (\<lambda>pd1.
     let pdep1 = (pd1, unat (PDX1 la)) in
     bindR (ensure_table alloc pdep1 create s) (\<lambda>(s, ok).
     if \<not> ok then Inr (s, None)
     else
       bindR (KADDR s (PDE_ADDR (rd s pdep1))) (\<lambda>kva.
       bindR (kva_frame s kva) (\<lambda>pd0.
       let pdep0 = (pd0, unat (PDX0 la)) in
       bindR (ensure_table alloc pdep0 create s) (\<lambda>(s, ok).
       if \<not> ok then Inr (s, None)
       else
         bindR (KADDR s (PDE_ADDR (rd s pdep0))) (\<lambda>kva.
         bindR (kva_frame s kva) (\<lambda>pt.
         Inr (s, Some (pt, unat (PTX la))))))))))"

text \<open>The allocator is never called when \<open>create\<close> is 0.\<close>

definition no_alloc :: "mstate \<Rightarrow> (mstate \<times> nat option) res" where "no_alloc s = Inr (s, None)"

section \<open>Swapping out and allocation\<close>

text \<open>The loop body of \<open>swap_out\<close>; \<open>False\<close> for the \<open>break\<close>.\<close>

definition swap_out_one :: "addr \<Rightarrow> int \<Rightarrow> mstate \<Rightarrow> (mstate \<times> bool) res" where
  "swap_out_one mm in_tick s =
     bindR (fifo_swap_out_victim mm in_tick s) (\<lambda>(s, page, r).
     if r \<noteq> 0 then Inr (s, False)
     else
       let v = pra_vaddr (page_of s page) in
       bindR (get_pte_with no_alloc (pgdir (mms s mm)) v False s) (\<lambda>(s, ptep).
       case ptep of
         None \<Rightarrow> Inl (BadPtr ''ptep'')
       | Some ptep \<Rightarrow>
           bindR (assertR (rd s ptep AND PTE_V \<noteq> 0) ''(*ptep & PTE_V) != 0'') (\<lambda>_.
           let entry = push_bit 8 (pra_vaddr (page_of s page) div PGSIZE + 1) in
           bindR (swapfs_write entry page s) (\<lambda>(s, r).
           if r \<noteq> 0 then
             bindR (fifo_map_swappable mm v page 0 s) (\<lambda>(s, _). Inr (s, True))
           else
             bindR (free_page page (wr ptep entry s)) (\<lambda>s. Inr (s, True))))))"

fun swap_out_loop :: "nat \<Rightarrow> addr \<Rightarrow> int \<Rightarrow> mstate \<Rightarrow> int \<Rightarrow> (mstate \<times> int) res" where
  "swap_out_loop 0 mm in_tick s i = Inr (s, i)"
| "swap_out_loop (Suc k) mm in_tick s i =
     bindR (swap_out_one mm in_tick s) (\<lambda>(s, more).
     if more then swap_out_loop k mm in_tick s (i + 1) else Inr (s, i))"

definition swap_out :: "addr \<Rightarrow> nat \<Rightarrow> int \<Rightarrow> mstate \<Rightarrow> (mstate \<times> int) res" where
  "swap_out mm n in_tick s = swap_out_loop n mm in_tick s 0"

definition pmm_alloc :: "nat \<Rightarrow> mstate \<Rightarrow> (mstate \<times> nat option) res" where
  "pmm_alloc n s =
     (let (intr_flag, st) = intr_save (sstatus s)
      in bindR (default_alloc_pages (fa s) n) (\<lambda>(f, page).
         Inr (s\<lparr>fa := f, sstatus := intr_restore intr_flag st\<rparr>, page)))"

partial_function (option) alloc_pages_loop :: "nat \<Rightarrow> mstate \<Rightarrow> (mstate \<times> nat option) res option" where
  "alloc_pages_loop n s =
     (case pmm_alloc n s of
        Inl e \<Rightarrow> Some (Inl e)
      | Inr r \<Rightarrow>
          if snd r \<noteq> None \<or> n > 1 \<or> \<not> swap_init_ok (fst r) then Some (Inr r)
          else (case swap_out (check_mm_struct (fst r)) n 0 (fst r) of
                  Inl e \<Rightarrow> Some (Inl e)
                | Inr q \<Rightarrow> alloc_pages_loop n (fst q)))"

declare alloc_pages_loop.simps [code]

definition alloc_pages :: "nat \<Rightarrow> mstate \<Rightarrow> (mstate \<times> nat option) res" where
  "alloc_pages n s = (case alloc_pages_loop n s of None \<Rightarrow> Inl Hang | Some r \<Rightarrow> r)"

definition alloc_page :: "mstate \<Rightarrow> (mstate \<times> nat option) res" where "alloc_page s = alloc_pages 1 s"

section \<open>Page tables\<close>

definition get_pte :: "u64 \<Rightarrow> u64 \<Rightarrow> bool \<Rightarrow> mstate \<Rightarrow> (mstate \<times> pte_ptr option) res" where
  "get_pte pd la create s = get_pte_with alloc_page pd la create s"

definition swap_in :: "addr \<Rightarrow> u64 \<Rightarrow> mstate \<Rightarrow> (mstate \<times> nat \<times> int) res" where
  "swap_in mm addr s =
     bindR (alloc_page s) (\<lambda>(s, result).
     case result of
       None \<Rightarrow> Inl (AssertFail ''result!=NULL'')
     | Some result \<Rightarrow>
         if mm = 0 then Inl (BadPtr ''mm'')
         else
           bindR (get_pte (pgdir (mms s mm)) addr False s) (\<lambda>(s, ptep).
           case ptep of
             None \<Rightarrow> Inl (BadPtr ''ptep'')
           | Some ptep \<Rightarrow>
               bindR (swapfs_read (rd s ptep) result s) (\<lambda>(s, r).
               bindR (if r \<noteq> 0 then assertR (r \<noteq> 0) ''r!=0'' else Inr ()) (\<lambda>_.
               Inr (s, result, 0)))))"

definition get_page :: "u64 \<Rightarrow> u64 \<Rightarrow> mstate \<Rightarrow> (mstate \<times> nat option \<times> pte_ptr option) res" where
  "get_page pd la s =
     bindR (get_pte pd la False s) (\<lambda>(s, ptep).
     case ptep of
       None \<Rightarrow> Inr (s, None, None)
     | Some p \<Rightarrow>
         if rd s p AND PTE_V \<noteq> 0
         then bindR (pte2page s (rd s p)) (\<lambda>page. Inr (s, Some page, ptep))
         else Inr (s, None, ptep))"

definition page_remove_pte :: "u64 \<Rightarrow> u64 \<Rightarrow> pte_ptr \<Rightarrow> mstate \<Rightarrow> mstate res" where
  "page_remove_pte pd la ptep s =
     (if rd s ptep AND PTE_V \<noteq> 0 then
        bindR (pte2page s (rd s ptep)) (\<lambda>page.
        let s = page_ref_dec page s in
        bindR (if page_ref s page = 0 then free_page page s else Inr s) (\<lambda>s.
        Inr (wr ptep 0 s)))
      else Inr s)"

definition page_remove :: "u64 \<Rightarrow> u64 \<Rightarrow> mstate \<Rightarrow> mstate res" where
  "page_remove pd la s =
     bindR (get_pte pd la False s) (\<lambda>(s, ptep).
     case ptep of None \<Rightarrow> Inr s | Some p \<Rightarrow> page_remove_pte pd la p s)"

definition page_insert :: "u64 \<Rightarrow> nat \<Rightarrow> u64 \<Rightarrow> u64 \<Rightarrow> mstate \<Rightarrow> (mstate \<times> int) res" where
  "page_insert pd page la perm s =
     bindR (get_pte pd la True s) (\<lambda>(s, ptep).
     case ptep of
       None \<Rightarrow> Inr (s, - E_NO_MEM)
     | Some ptep \<Rightarrow>
         let s = page_ref_inc page s in
         bindR (if rd s ptep AND PTE_V \<noteq> 0
                then bindR (pte2page s (rd s ptep)) (\<lambda>p.
                     if p = page then Inr (page_ref_dec page s)
                     else page_remove_pte pd la ptep s)
                else Inr s) (\<lambda>s.
         Inr (wr ptep (pte_create (of_nat (page2ppn page)) (PTE_V OR perm)) s, 0)))"

definition pgdir_alloc_page :: "u64 \<Rightarrow> u64 \<Rightarrow> u64 \<Rightarrow> mstate \<Rightarrow> (mstate \<times> nat option) res" where
  "pgdir_alloc_page pd la perm s =
     bindR (alloc_page s) (\<lambda>(s, page).
     case page of
       None \<Rightarrow> Inr (s, None)
     | Some page \<Rightarrow>
         bindR (page_insert pd page la perm s) (\<lambda>(s, r).
         if r \<noteq> 0 then bindR (free_page page s) (\<lambda>s. Inr (s, None))
         else if swap_init_ok s \<and> check_mm_struct s \<noteq> 0 then
           bindR (swap_map_swappable (check_mm_struct s) la page 0 s) (\<lambda>(s, _).
           let s = upd_page page (\<lambda>p. p\<lparr>pra_vaddr := la\<rparr>) s in
           bindR (assertR (page_ref s page = 1) ''page_ref(page) == 1'') (\<lambda>_.
           Inr (s, Some page)))
         else Inr (s, Some page)))"

section \<open>Address ranges\<close>

definition range_asserts :: "u64 \<Rightarrow> u64 \<Rightarrow> unit res" where
  "range_asserts start en =
     bindR (assertR (start mod PGSIZE = 0 \<and> en mod PGSIZE = 0) ''start % PGSIZE == 0 && end % PGSIZE == 0'') (\<lambda>_.
     assertR (USER_ACCESS start en) ''USER_ACCESS(start, end)'')"

partial_function (option) unmap_loop :: "u64 \<Rightarrow> u64 \<Rightarrow> u64 \<Rightarrow> mstate \<Rightarrow> mstate res option" where
  "unmap_loop pd start en s =
     (case bindR (get_pte pd start False s) (\<lambda>(s, ptep).
             case ptep of
               None \<Rightarrow> Inr (s, ROUNDDOWN (start + PTSIZE) PTSIZE)
             | Some p \<Rightarrow>
                 bindR (if rd s p \<noteq> 0 then page_remove_pte pd start p s else Inr s) (\<lambda>s.
                 Inr (s, start + PGSIZE))) of
        Inl e \<Rightarrow> Some (Inl e)
      | Inr r \<Rightarrow>
          if snd r \<noteq> 0 \<and> snd r < en then unmap_loop pd (snd r) en (fst r) else Some (Inr (fst r)))"

declare unmap_loop.simps [code]

definition unmap_range :: "u64 \<Rightarrow> u64 \<Rightarrow> u64 \<Rightarrow> mstate \<Rightarrow> mstate res" where
  "unmap_range pd start en s =
     bindR (range_asserts start en) (\<lambda>_.
     case unmap_loop pd start en s of None \<Rightarrow> Inl Hang | Some r \<Rightarrow> r)"

text \<open>\<open>exit_range\<close>: the inner loop over level 0 entries; it returns the state, \<open>free_pd0\<close>, \<open>d0start\<close>.\<close>

definition free_pt_check :: "mstate \<Rightarrow> nat \<Rightarrow> bool" where
  "free_pt_check s pt \<longleftrightarrow> list_all (\<lambda>i. rd s (pt, i) AND PTE_V = 0) [0..<NPTEENTRY]"

partial_function (option) exit_pd0_loop ::
  "nat \<Rightarrow> u64 \<Rightarrow> u64 \<Rightarrow> u64 \<Rightarrow> bool \<Rightarrow> mstate \<Rightarrow> (mstate \<times> bool \<times> u64) res option" where
  "exit_pd0_loop pd0 d1start en d0start free_pd0 s =
     (let pde0 = rd s (pd0, unat (PDX0 d0start)) in
      case (if pde0 AND PTE_V \<noteq> 0 then
              bindR (pde2page s pde0) (\<lambda>page.
              bindR (page2kva s page) (\<lambda>kva.
              bindR (kva_frame s kva) (\<lambda>pt.
              if free_pt_check s pt
              then bindR (free_page page s) (\<lambda>s. Inr (wr (pd0, unat (PDX0 d0start)) 0 s, free_pd0))
              else Inr (s, free_pd0))))
            else Inr (s, False)) of
        Inl e \<Rightarrow> Some (Inl e)
      | Inr r \<Rightarrow>
          (let d0 = d0start + PTSIZE in
           if d0 \<noteq> 0 \<and> d0 < d1start + PDSIZE \<and> d0 < en
           then exit_pd0_loop pd0 d1start en d0 (snd r) (fst r)
           else Some (Inr (fst r, snd r, d0))))"

declare exit_pd0_loop.simps [code]

definition exit_pd1_entry :: "nat \<Rightarrow> u64 \<Rightarrow> u64 \<Rightarrow> u64 \<Rightarrow> mstate \<Rightarrow> mstate res" where
  "exit_pd1_entry pd1 d1start d0start en s =
     (let pde1 = rd s (pd1, unat (PDX1 d1start)) in
      if pde1 AND PTE_V \<noteq> 0 then
        bindR (pde2page s pde1) (\<lambda>page.
        bindR (page2kva s page) (\<lambda>kva.
        bindR (kva_frame s kva) (\<lambda>pd0.
        bindR (case exit_pd0_loop pd0 d1start en d0start True s of None \<Rightarrow> Inl Hang | Some r \<Rightarrow> r)
          (\<lambda>(s, free_pd0, _).
        if free_pd0
        then bindR (free_page page s) (\<lambda>s. Inr (wr (pd1, unat (PDX1 d1start)) 0 s))
        else Inr s))))
      else Inr s)"

partial_function (option) exit_pd1_loop ::
  "nat \<Rightarrow> u64 \<Rightarrow> u64 \<Rightarrow> u64 \<Rightarrow> mstate \<Rightarrow> mstate res option" where
  "exit_pd1_loop pd1 d1start d0start en s =
     (case exit_pd1_entry pd1 d1start d0start en s of
        Inl e \<Rightarrow> Some (Inl e)
      | Inr s \<Rightarrow>
          (let d1 = d1start + PDSIZE in
           if d1 \<noteq> 0 \<and> d1 < en then exit_pd1_loop pd1 d1 d1 en s else Some (Inr s)))"

declare exit_pd1_loop.simps [code]

definition exit_range :: "u64 \<Rightarrow> u64 \<Rightarrow> u64 \<Rightarrow> mstate \<Rightarrow> mstate res" where
  "exit_range pd start en s =
     bindR (range_asserts start en) (\<lambda>_.
     bindR (kva_frame s pd) (\<lambda>pd1.
     case exit_pd1_loop pd1 (ROUNDDOWN start PDSIZE) (ROUNDDOWN start PTSIZE) en s of
       None \<Rightarrow> Inl Hang | Some r \<Rightarrow> r))"

text \<open>One iteration of \<open>copy_range\<close>: the next address, or the early return.\<close>

definition copy_one :: "u64 \<Rightarrow> u64 \<Rightarrow> u64 \<Rightarrow> mstate \<Rightarrow> (mstate \<times> u64 option) res" where
  "copy_one to from start s =
     bindR (get_pte from start False s) (\<lambda>(s, ptep).
     case ptep of
       None \<Rightarrow> Inr (s, Some (ROUNDDOWN (start + PTSIZE) PTSIZE))
     | Some p \<Rightarrow>
         if rd s p AND PTE_V \<noteq> 0 then
           bindR (get_pte to start True s) (\<lambda>(s, nptep).
           case nptep of
             None \<Rightarrow> Inr (s, None)
           | Some _ \<Rightarrow>
               let perm = rd s p AND PTE_USER in
               bindR (pte2page s (rd s p)) (\<lambda>page.
               bindR (alloc_page s) (\<lambda>(s, np).
               case np of
                 None \<Rightarrow> Inl (AssertFail ''npage != NULL'')
               | Some np \<Rightarrow>
                   bindR (bindR (page2kva s page) (kva_frame s)) (\<lambda>src.
                   bindR (bindR (page2kva s np) (kva_frame s)) (\<lambda>dst.
                   bindR (page_insert to np start perm (copy_frame dst src s)) (\<lambda>(s, ret).
                   bindR (assertR (ret = 0) ''ret == 0'') (\<lambda>_.
                   Inr (s, Some (start + PGSIZE)))))))))
         else Inr (s, Some (start + PGSIZE)))"

partial_function (option) copy_loop ::
  "u64 \<Rightarrow> u64 \<Rightarrow> u64 \<Rightarrow> u64 \<Rightarrow> mstate \<Rightarrow> (mstate \<times> int) res option" where
  "copy_loop to from start en s =
     (case copy_one to from start s of
        Inl e \<Rightarrow> Some (Inl e)
      | Inr r \<Rightarrow>
          (case snd r of
             None \<Rightarrow> Some (Inr (fst r, - E_NO_MEM))
           | Some next \<Rightarrow>
               if next \<noteq> 0 \<and> next < en then copy_loop to from next en (fst r)
               else Some (Inr (fst r, 0))))"

declare copy_loop.simps [code]

definition copy_range :: "u64 \<Rightarrow> u64 \<Rightarrow> u64 \<Rightarrow> u64 \<Rightarrow> mstate \<Rightarrow> (mstate \<times> int) res" where
  "copy_range to from start en s =
     bindR (range_asserts start en) (\<lambda>_.
     case copy_loop to from start en s of None \<Rightarrow> Inl Hang | Some r \<Rightarrow> r)"

section \<open>Boot\<close>

definition init_pmm_manager :: "mstate \<Rightarrow> mstate" where
  "init_pmm_manager s = s\<lparr>fa := default_init (fa s)\<rparr>"

definition init_memmap :: "nat \<Rightarrow> nat \<Rightarrow> mstate \<Rightarrow> mstate res" where
  "init_memmap base n s = bindR (default_init_memmap (fa s) base n) (\<lambda>f. Inr (s\<lparr>fa := f\<rparr>))"

definition sizeof_Page :: u64 where "sizeof_Page = 64"

text \<open>\<open>kend\<close> is the linker symbol \<open>end\<close>, the first address after the kernel image.\<close>

definition reserve_all :: "nat \<Rightarrow> mstate \<Rightarrow> mstate" where
  "reserve_all n s = s\<lparr>fa := (fa s)\<lparr>pages :=
     (\<lambda>i. if i < n then SetPageReserved (pages (fa s) i) else pages (fa s) i)\<rparr>\<rparr>"

definition page_init :: "u64 \<Rightarrow> mstate \<Rightarrow> mstate res" where
  "page_init kend s =
     (let maxpa = (if PHYSICAL_MEMORY_END > KERNTOP then KERNTOP else PHYSICAL_MEMORY_END);
          s = s\<lparr>npage := unat (maxpa div PGSIZE)\<rparr>;
          pages_kva = ROUNDUP kend PGSIZE;
          n = npage s - nbase;
          s = reserve_all n s
      in bindR (PADDR (pages_kva + sizeof_Page * of_nat n)) (\<lambda>freemem.
         let mem_begin = ROUNDUP freemem PGSIZE;
             mem_end = ROUNDDOWN PHYSICAL_MEMORY_END PGSIZE
         in if freemem < mem_end
            then bindR (pa2page s mem_begin) (\<lambda>p. init_memmap p (unat ((mem_end - mem_begin) div PGSIZE)) s)
            else Inr s))"

fun boot_map_loop :: "nat \<Rightarrow> u64 \<Rightarrow> u64 \<Rightarrow> u64 \<Rightarrow> u64 \<Rightarrow> mstate \<Rightarrow> mstate res" where
  "boot_map_loop 0 pd la pa perm s = Inr s"
| "boot_map_loop (Suc n) pd la pa perm s =
     bindR (get_pte pd la True s) (\<lambda>(s, ptep).
     case ptep of
       None \<Rightarrow> Inl (AssertFail ''ptep != NULL'')
     | Some p \<Rightarrow>
         boot_map_loop n pd (la + PGSIZE) (pa + PGSIZE) perm
           (wr p (pte_create (drop_bit PGSHIFT pa) (PTE_V OR perm)) s))"

definition boot_map_segment :: "u64 \<Rightarrow> u64 \<Rightarrow> u64 \<Rightarrow> u64 \<Rightarrow> u64 \<Rightarrow> mstate \<Rightarrow> mstate res" where
  "boot_map_segment pd la sz pa perm s =
     bindR (assertR (PGOFF la = PGOFF pa) ''PGOFF(la) == PGOFF(pa)'') (\<lambda>_.
     boot_map_loop (unat (ROUNDUP (sz + PGOFF la) PGSIZE div PGSIZE)) pd
       (ROUNDDOWN la PGSIZE) (ROUNDDOWN pa PGSIZE) perm s)"

definition boot_alloc_page :: "mstate \<Rightarrow> (mstate \<times> u64) res" where
  "boot_alloc_page s =
     bindR (alloc_page s) (\<lambda>(s, p).
     case p of
       None \<Rightarrow> Inl (Panic ''boot_alloc_page failed.'')
     | Some p \<Rightarrow> bindR (page2kva s p) (\<lambda>kva. Inr (s, kva)))"

section \<open>Printing page tables\<close>

definition perm2str :: "u64 \<Rightarrow> string" where
  "perm2str perm =
     [if perm AND PTE_U \<noteq> 0 then CHR ''u'' else CHR ''-'', CHR ''r'',
      if perm AND PTE_W \<noteq> 0 then CHR ''w'' else CHR ''-'']"

text \<open>
  The two scanning loops of \<open>get_pgtable_items\<close>.  The result is the permission (0 for "no item")
  with the range that would be stored through \<open>left_store\<close> and \<open>right_store\<close>.
\<close>

function skip_invalid :: "(nat \<Rightarrow> u64) \<Rightarrow> nat \<Rightarrow> nat \<Rightarrow> nat" where
  "skip_invalid table start right =
     (if start < right \<and> table start AND PTE_V = 0 then skip_invalid table (Suc start) right else start)"
  by pat_completeness auto
termination
  by (relation "measure (\<lambda>(t, start, right). right - start)") auto

function skip_same :: "(nat \<Rightarrow> u64) \<Rightarrow> u64 \<Rightarrow> nat \<Rightarrow> nat \<Rightarrow> nat" where
  "skip_same table perm start right =
     (if start < right \<and> table start AND PTE_USER = perm then skip_same table perm (Suc start) right else start)"
  by pat_completeness auto
termination
  by (relation "measure (\<lambda>(t, perm, start, right). right - start)") auto

declare skip_invalid.simps [simp del] skip_same.simps [simp del]

definition get_pgtable_items :: "nat \<Rightarrow> nat \<Rightarrow> (nat \<Rightarrow> u64) \<Rightarrow> u64 \<times> (nat \<times> nat) option" where
  "get_pgtable_items right start table =
     (if start \<ge> right then (0, None)
      else let start = skip_invalid table start right
           in if start < right
              then let perm = table start AND PTE_USER
                   in (perm, Some (start, skip_same table perm (Suc start) right))
              else (0, None))"

section \<open>Starting the swap manager\<close>

text \<open>\<open>swap_init\<close> without its self test \<open>check_swap\<close>.\<close>

definition swap_init_manager :: "mstate \<Rightarrow> (mstate \<times> int) res" where
  "swap_init_manager s =
     bindR (swapfs_init s) (\<lambda>s.
     if \<not> (7 \<le> max_swap_offset s \<and> max_swap_offset s < MAX_SWAP_OFFSET_LIMIT)
     then Inl (Panic ''bad max_swap_offset'')
     else if fifo_init = 0 then Inr (s\<lparr>swap_init_ok := True\<rparr>, fifo_init) else Inr (s, fifo_init))"

end
