(* ===== verification/Pagetable.thy ===== *)
theory Pagetable
  imports Pmm
begin

text \<open>
  What the page table operations of kern/mm/pmm.c do.  A three level table rooted at frame \<open>d\<close> is
  read as a map from user addresses to entries (\<open>leaf\<close>); \<open>get_pte\<close> with creation does not change
  that map, \<open>page_insert\<close> and \<open>page_remove\<close> change it at one page only.
\<close>

section \<open>Entries\<close>

lemma PTE_V_mask: "PTE_V = BIT_MASK 0"
  by (simp add: PTE_V_def BIT_MASK_0)

lemma and_PTE_V: "v AND PTE_V = 0 \<longleftrightarrow> \<not> bit v 0"
proof -
  have "v AND BIT_MASK 0 \<noteq> 0 \<longleftrightarrow> bit v 0" using and_BIT_MASK [of v 0] by (simp only: mod_0)
  then show ?thesis unfolding PTE_V_mask by blast
qed

definition tbl :: "u64 \<Rightarrow> nat" where "tbl v = unat (PPN (PTE_ADDR v))"

lemma low_mask: "(0x3FF :: u64) = mask 10" "(0x1FF :: u64) = mask 9"
  by (simp_all add: mask_eq_exp_minus_1)

lemma PTE_ADDR_bit: "bit (PTE_ADDR v) k \<longleftrightarrow> 12 \<le> k \<and> k < 64 \<and> bit v (k - 2)"
  unfolding PTE_ADDR_def low_mask PTXSHIFT_def PTE_PPN_SHIFT_def
  by (auto simp: bit_push_bit_iff bit_and_iff bit_not_iff bit_mask_iff dest: bit_imp_le_length)

lemma PPN_PTE_ADDR_bit: "bit (PPN (PTE_ADDR v)) k \<longleftrightarrow> k < 52 \<and> bit v (k + 10)"
  by (auto simp: PPN_def PTXSHIFT_def bit_drop_bit_eq PTE_ADDR_bit add.commute)

lemma of_nat_high_bit:
  assumes "n < 2 ^ m" and "m \<le> k" shows "\<not> bit (of_nat n :: u64) k"
proof -
  have "n < 2 ^ k" using assms by (meson less_le_trans one_le_numeral power_increasing)
  then have "\<not> bit n k" by (simp add: bit_iff_odd)
  then show ?thesis by (simp add: bit_of_nat_iff)
qed

lemma unat_of_nat_small: "n < 2 ^ 64 \<Longrightarrow> unat (of_nat n :: u64) = n"
  by (simp add: unsigned_of_nat take_bit_nat_eq_self)

lemma pte_type_bit: "bit (scast (ucast type :: s32) :: u64) k \<longleftrightarrow> k < 64 \<and> bit (type :: u64) (min 31 k)"
  by (auto simp: bit_simps min_def)

lemma pte_create_addr:
  assumes "\<forall>k\<ge>10. \<not> bit perm k" and "ppn < 2 ^ 44"
  shows "tbl (pte_create (of_nat ppn) perm) = ppn"
proof -
  have "PPN (PTE_ADDR (pte_create (of_nat ppn) perm)) = of_nat ppn"
  proof (rule bit_word_eqI)
    fix k assume "k < LENGTH(64)"
    then show "bit (PPN (PTE_ADDR (pte_create (of_nat ppn) perm))) k = bit (of_nat ppn :: u64) k"
      using assms(1) of_nat_high_bit [OF assms(2), of k]
      by (cases "k < 44") (auto simp: PPN_PTE_ADDR_bit pte_create_def bit_or_iff bit_push_bit_iff PTE_PPN_SHIFT_def
          PTE_V_mask BIT_MASK_bit pte_type_bit min_def)
  qed
  with assms(2) show ?thesis by (simp add: tbl_def unat_of_nat_small)
qed

lemma pte_create_valid: "bit (pte_create ppn perm) 0"
  unfolding pte_create_def PTE_V_mask bit_or_iff BIT_MASK_bit mod_0 by blast

lemma frame_of_pa:
  assumes "nbase \<le> unat (PPN pa)" and "unat (PPN pa) < npage s"
  shows "bindR (KADDR s pa) (kva_frame s) = Inr (unat (PPN pa))"
  using assms by (simp add: KADDR_def kva_frame_def)

lemma PPN_page2pa: "page2ppn p < 2 ^ 52 \<Longrightarrow> unat (PPN (page2pa p)) = page2ppn p"
proof -
  assume p: "page2ppn p < 2 ^ 52"
  have "PPN (page2pa p) = of_nat (page2ppn p)"
  proof (rule bit_word_eqI)
    fix k assume "k < LENGTH(64)"
    then show "bit (PPN (page2pa p)) k = bit (of_nat (page2ppn p) :: u64) k"
      using of_nat_high_bit [OF p, of k]
      by (cases "k < 52") (auto simp: PPN_def page2pa_def PGSHIFT_def PTXSHIFT_def bit_drop_bit_eq bit_push_bit_iff)
  qed
  with p show ?thesis by (simp add: unat_of_nat_small)
qed

lemma perm_UV_high: "10 \<le> k \<Longrightarrow> \<not> bit (PTE_U OR PTE_V) k"
proof -
  assume "10 \<le> k"
  moreover have "PTE_U OR PTE_V = (17 :: u64)" by (simp add: PTE_U_def PTE_V_def)
  moreover have "\<not> bit (of_nat 17 :: u64) k" if "10 \<le> k" by (rule of_nat_high_bit [OF _ that]) simp
  ultimately show ?thesis by simp
qed

section \<open>The tree of tables\<close>

text \<open>
  A table is named by the path of indices that leads to it from the root, last index first; \<open>node\<close>
  is its frame.  Paths of user addresses start with one of the two root entries below \<open>USERTOP\<close>: the
  other root entries of a process are shared with the kernel (copied from \<open>boot_pgdir\<close>) and are not
  tables of its own.
\<close>

fun node :: "(nat \<Rightarrow> nat \<Rightarrow> u64) \<Rightarrow> nat \<Rightarrow> nat list \<Rightarrow> nat option" where
  "node m d [] = Some d"
| "node m d (i # p) =
     (case node m d p of None \<Rightarrow> None | Some f \<Rightarrow> if bit (m f i) 0 then Some (tbl (m f i)) else None)"

definition tpaths :: "nat list set" where
  "tpaths = {[]} \<union> {[i] |i. i < 2} \<union> {[j, i] |j i. j < 512 \<and> i < 2}"

lemma tpaths_tl: "i # p \<in> tpaths \<Longrightarrow> p \<in> tpaths"
  by (auto simp: tpaths_def)

lemma tpaths_length: "p \<in> tpaths \<Longrightarrow> length p \<le> 2"
  by (auto simp: tpaths_def)

text \<open>\<open>F\<close> is the set of free pages (indices of \<open>pages\<close>, so frame \<open>i + nbase\<close>).\<close>

definition table_frame :: "nat \<Rightarrow> nat set \<Rightarrow> nat \<Rightarrow> bool" where
  "table_frame np F f \<longleftrightarrow> nbase \<le> f \<and> f < np \<and> f - nbase \<notin> F"

definition pt_wf :: "nat \<Rightarrow> (nat \<Rightarrow> nat \<Rightarrow> u64) \<Rightarrow> nat \<Rightarrow> nat set \<Rightarrow> bool" where
  "pt_wf np m d F \<longleftrightarrow>
     (\<forall>p\<in>tpaths. \<forall>f. node m d p = Some f \<longrightarrow> table_frame np F f) \<and>
     (\<forall>p\<in>tpaths. \<forall>q\<in>tpaths. node m d p \<noteq> None \<longrightarrow> node m d p = node m d q \<longrightarrow> p = q)"

definition upath :: "u64 \<Rightarrow> nat list" where "upath la = [unat (PDX0 la), unat (PDX1 la)]"

definition walk :: "(nat \<Rightarrow> nat \<Rightarrow> u64) \<Rightarrow> nat \<Rightarrow> u64 \<Rightarrow> pte_ptr option" where
  "walk m d la = map_option (\<lambda>f. (f, unat (PTX la))) (node m d (upath la))"

text \<open>The entry that translates \<open>la\<close>; 0 when a level is missing.\<close>

definition leaf :: "(nat \<Rightarrow> nat \<Rightarrow> u64) \<Rightarrow> nat \<Rightarrow> u64 \<Rightarrow> u64" where
  "leaf m d la = (case walk m d la of None \<Rightarrow> 0 | Some p \<Rightarrow> m (fst p) (snd p))"

lemma pt_wf_frame: "pt_wf np m d F \<Longrightarrow> p \<in> tpaths \<Longrightarrow> node m d p = Some f \<Longrightarrow> table_frame np F f"
  by (simp add: pt_wf_def)

lemma pt_wf_inj:
  "pt_wf np m d F \<Longrightarrow> p \<in> tpaths \<Longrightarrow> q \<in> tpaths \<Longrightarrow> node m d p = Some f \<Longrightarrow> node m d q = Some f \<Longrightarrow> p = q"
  unfolding pt_wf_def by (metis option.distinct(1))

lemma pt_wf_mono:
  "pt_wf np m d F \<Longrightarrow> F' \<subseteq> F \<Longrightarrow> pt_wf np m d F'"
  unfolding pt_wf_def table_frame_def by blast

text \<open>Two table paths, one frame: no write to a table disturbs another one.\<close>

lemma node_write_leaf:
  assumes wf: "pt_wf np m d F" and f: "node m d p = Some f" "p \<in> tpaths" "length p = 2"
    and q: "q \<in> tpaths"
  shows "node (m(f := g)) d q = node m d q"
  using q
proof (induction q)
  case (Cons i q)
  then have tl: "q \<in> tpaths" by (blast intro: tpaths_tl)
  show ?case
  proof (cases "node m d q")
    case (Some h)
    have "h \<noteq> f"
    proof
      assume "h = f"
      with pt_wf_inj [OF wf tl f(2) Some] f have "q = p" by simp
      with f(3) tpaths_length [OF Cons.prems] show False by simp
    qed
    with Some Cons.IH [OF tl] show ?thesis by simp
  qed (simp add: Cons.IH [OF tl] del: fun_upd_apply)
qed simp

lemma node_new_table:
  assumes wf: "pt_wf np m d F" and f: "node m d p = Some f" "i # p \<in> tpaths" "\<not> bit (m f i) 0"
    and new: "new \<in> F" and e: "bit e 0" "tbl e = new + nbase"
    and m': "m' = m(new + nbase := (\<lambda>_. 0), f := (m f)(i := e))"
    and q: "q \<in> tpaths"
  shows "node m' d q = (if q = i # p then Some (new + nbase) else node m d q)"
  using q
proof (induction q)
  case (Cons j q)
  then have tl: "q \<in> tpaths" by (blast intro: tpaths_tl)
  have pp: "p \<in> tpaths" using f(2) by (rule tpaths_tl)
  have "f \<noteq> new + nbase" using pt_wf_frame [OF wf pp f(1)] new by (auto simp: table_frame_def)
  then have mnew: "m' (new + nbase) = (\<lambda>_. 0)" and mf: "m' f = (m f)(i := e)" by (auto simp: m')
  show ?case
  proof (cases "q = i # p")
    case True
    moreover have "j # q \<noteq> i # p" using True by (auto dest: arg_cong [where f = length])
    ultimately show ?thesis using Cons.IH [OF tl] mnew f by simp
  next
    case False
    note IH = Cons.IH [OF tl]
    show ?thesis
    proof (cases "node m d q")
      case None
      then have "q \<noteq> p" using f by auto
      with None False IH show ?thesis by simp
    next
      case (Some h)
      have "h \<noteq> new + nbase" using pt_wf_frame [OF wf tl Some] new by (auto simp: table_frame_def)
      then have "m' h = (if q = p then (m f)(i := e) else m h)"
        using pt_wf_inj [OF wf tl pp] Some f(1) mf by (auto simp: m')
      with Some False IH e f show ?thesis by auto
    qed
  qed
qed simp

lemma pt_wf_new_table:
  assumes wf: "pt_wf np m d F" and f: "node m d p = Some f" "i # p \<in> tpaths" "\<not> bit (m f i) 0"
    and new: "new \<in> F" "new + nbase < np" and e: "bit e 0" "tbl e = new + nbase"
    and m': "m' = m(new + nbase := (\<lambda>_. 0), f := (m f)(i := e))"
  shows "pt_wf np m' d (F - {new})"
    and "upath la \<in> tpaths \<Longrightarrow> leaf m' d la = leaf m d la"
proof -
  note nd = node_new_table [OF wf f new(1) e m']
  have none: "node m d (i # p) = None" using f by simp
  have fresh: "node m d q \<noteq> Some (new + nbase)" if "q \<in> tpaths" for q
    using pt_wf_frame [OF wf that] new by (auto simp: table_frame_def)
  show "pt_wf np m' d (F - {new})"
    unfolding pt_wf_def
  proof (intro conjI ballI allI impI)
    fix q g assume q: "q \<in> tpaths" "node m' d q = Some g"
    then show "table_frame np (F - {new}) g"
      using nd [of q] pt_wf_frame [OF wf, of q g] new by (auto simp: table_frame_def split: if_splits)
  next
    fix q r assume *: "q \<in> tpaths" "r \<in> tpaths" "node m' d q \<noteq> None" "node m' d q = node m' d r"
    then show "q = r"
      using nd [of q] nd [of r] pt_wf_inj [OF wf, of q r] fresh [of q] fresh [of r]
      by (auto split: if_splits)
  qed
  assume la: "upath la \<in> tpaths"
  have pp: "p \<in> tpaths" using f(2) by (rule tpaths_tl)
  have nf: "f \<noteq> new + nbase" using fresh [OF pp] f(1) by auto
  show "leaf m' d la = leaf m d la"
  proof (cases "upath la = i # p")
    case True
    with nd [OF la] none nf show ?thesis by (simp add: leaf_def walk_def m')
  next
    case False
    have "m' g = m g" if "node m d (upath la) = Some g" for g
    proof -
      have "g \<noteq> f"
      proof
        assume "g = f"
        with pt_wf_inj [OF wf la pp that] f(1) have "upath la = p" by simp
        with tpaths_length [OF f(2)] show False by (auto simp: upath_def)
      qed
      with fresh [OF la] that show ?thesis by (auto simp: m')
    qed
    with nd [OF la] False show ?thesis by (auto simp: leaf_def walk_def split: option.splits)
  qed
qed

section \<open>Page allocation for page tables\<close>

definition minv :: "mstate \<Rightarrow> nat set \<Rightarrow> bool" where
  "minv s F \<longleftrightarrow> pmm_rep (npage s - nbase) (fa s) F \<and> nbase \<le> npage s \<and> npage s \<le> 0x88000"

lemma pmm_rep_cong:
  assumes "\<forall>i. flags (P i) = flags (pages f i) \<and> property (P i) = property (pages f i)"
  shows "pmm_rep N (f\<lparr>pages := P\<rparr>) F = pmm_rep N f F"
proof -
  have "PageProperty (P i) = PageProperty (pages f i)" "PageReserved (P i) = PageReserved (pages f i)"
    "psize (f\<lparr>pages := P\<rparr>) = psize f" for i
    using assms by (auto simp: PageProperty_bit PageReserved_bit)
  then show ?thesis by (simp add: pmm_rep_def fl_rep_def)
qed

lemma minv_upd_page:
  assumes "\<And>p. flags (f p) = flags p \<and> property (f p) = property p"
  shows "minv (upd_page i f s) F = minv s F"
proof -
  have "pmm_rep N ((fa s)\<lparr>pages := (pages (fa s))(i := f (pages (fa s) i))\<rparr>) F = pmm_rep N (fa s) F" for N
    using assms by (intro pmm_rep_cong) simp
  then show ?thesis by (simp add: minv_def upd_page_def)
qed

lemma minv_bound: "minv s F \<Longrightarrow> i \<in> F \<Longrightarrow> i + nbase < npage s"
  using dpmm.rep_bound unfolding minv_def by fastforce

lemma minv_owned: "minv s F \<Longrightarrow> i \<in> F \<Longrightarrow> page_owned (fa s) i"
  using dpmm.rep_owned unfolding minv_def by blast

lemma minv_finite: "minv s F \<Longrightarrow> finite F"
  using dpmm.rep_finite unfolding minv_def by blast

lemma minv_fields [simp]: "minv (s\<lparr>pmem := m\<rparr>) F = minv s F" "minv (wr p v s) F = minv s F"
  "minv (zero_frame f s) F = minv s F" "minv (copy_frame f g s) F = minv s F"
  by (simp_all add: minv_def wr_def zero_frame_def copy_frame_def)

lemma pmm_alloc_eq:
  "pmm_alloc n s = bindR (default_alloc_pages (fa s) n) (\<lambda>(f, page). Inr (s\<lparr>fa := f\<rparr>, page))"
  using intr_save_restore [of "sstatus s"]
  by (cases "intr_save (sstatus s)") (auto simp: pmm_alloc_def bindR_def split: sum.splits)

lemma alloc_page_some:
  assumes "minv s F" and "F \<noteq> {}"
  shows "\<exists>f p. alloc_page s = Inr (s\<lparr>fa := f\<rparr>, Some p) \<and> p \<in> F \<and> minv (s\<lparr>fa := f\<rparr>) (F - {p}) \<and>
     (\<forall>i. PageReserved (pages f i) = PageReserved (pages (fa s) i) \<and> ref (pages f i) = ref (pages (fa s) i))"
proof -
  from assms obtain ps where ps: "fl_rep (npage s - nbase) (fa s) ps" "F = spans (psize (fa s)) ps"
    by (auto simp: minv_def pmm_rep_def)
  obtain a where "a \<in> F" using assms by blast
  then have a: "{a..<a + 1} \<subseteq> spans (psize (fa s)) ps" using ps by auto
  obtain f p ps' where f: "default_alloc_pages (fa s) 1 = Inr (f, Some p)" "{p..<p + 1} \<subseteq> F"
    "fl_rep (npage s - nbase) f ps'" "spans (psize f) ps' = F - {p..<p + 1}"
    "\<forall>i. PageReserved (pages f i) = PageReserved (pages (fa s) i) \<and> ref (pages f i) = ref (pages (fa s) i)"
    using default_alloc_some [OF ps(1) zero_less_one a] unfolding ps(2) by blast
  have "{p..<p + 1} = {p}" by auto
  with f have p: "p \<in> F" "minv (s\<lparr>fa := f\<rparr>) (F - {p})" using assms(1) by (auto simp: minv_def pmm_rep_def)
  have "alloc_page s = Inr (s\<lparr>fa := f\<rparr>, Some p)"
    using f(1) by (simp add: alloc_page_def alloc_pages_def alloc_pages_loop.simps [of "Suc 0" s] pmm_alloc_eq)
  with p f(5) show ?thesis by blast
qed

lemma alloc_page_none:
  assumes "minv s {}" and "\<not> swap_init_ok s"
  shows "alloc_page s = Inr (s, None)"
proof -
  have "default_alloc_pages (fa s) 1 = Inr (fa s, None)"
    using assms(1) dpmm.alloc_none [of "npage s - nbase" "fa s" "{}" 1] by (simp add: minv_def)
  with assms(2) show ?thesis
    by (simp add: alloc_page_def alloc_pages_def alloc_pages_loop.simps [of "Suc 0" s] pmm_alloc_eq)
qed

definition tables :: "(nat \<Rightarrow> nat \<Rightarrow> u64) \<Rightarrow> nat \<Rightarrow> nat set" where
  "tables m d = {g. \<exists>q\<in>tpaths. node m d q = Some g}"

text \<open>
  How creating tables may change the state: only free pages are taken, every entry keeps its value,
  no table is dropped, frames that are neither free nor tables of this root keep their contents.
\<close>

definition pt_ext :: "nat \<Rightarrow> mstate \<Rightarrow> nat set \<Rightarrow> mstate \<Rightarrow> nat set \<Rightarrow> bool" where
  "pt_ext d s F s' F' \<longleftrightarrow>
     s' = s\<lparr>fa := fa s', pmem := pmem s'\<rparr> \<and> F' \<subseteq> F \<and> minv s' F' \<and> pt_wf (npage s) (pmem s') d F' \<and>
     (\<forall>la. upath la \<in> tpaths \<longrightarrow> leaf (pmem s') d la = leaf (pmem s) d la) \<and>
     (\<forall>q\<in>tpaths. \<forall>g. node (pmem s) d q = Some g \<longrightarrow> node (pmem s') d q = Some g) \<and>
     tables (pmem s') d \<subseteq> tables (pmem s) d \<union> (\<lambda>i. i + nbase) ` (F - F') \<and>
     (\<forall>g. g \<notin> (\<lambda>i. i + nbase) ` F \<longrightarrow> g \<notin> tables (pmem s) d \<longrightarrow> pmem s' g = pmem s g) \<and>
     (\<forall>i. i \<notin> F \<longrightarrow> ref (page_of s' i) = ref (page_of s i)) \<and>
     (\<forall>i. page_owned (fa s') i = page_owned (fa s) i)"

lemma pt_extD:
  assumes "pt_ext d s F s' F'"
  shows "s' = s\<lparr>fa := fa s', pmem := pmem s'\<rparr>" and "F' \<subseteq> F" and "minv s' F'"
    and "pt_wf (npage s) (pmem s') d F'"
    and "upath la \<in> tpaths \<Longrightarrow> leaf (pmem s') d la = leaf (pmem s) d la"
    and "q \<in> tpaths \<Longrightarrow> node (pmem s) d q = Some g \<Longrightarrow> node (pmem s') d q = Some g"
    and "tables (pmem s') d \<subseteq> tables (pmem s) d \<union> (\<lambda>i. i + nbase) ` (F - F')"
    and "g \<notin> (\<lambda>i. i + nbase) ` F \<Longrightarrow> g \<notin> tables (pmem s) d \<Longrightarrow> pmem s' g = pmem s g"
    and "i \<notin> F \<Longrightarrow> ref (page_of s' i) = ref (page_of s i)"
    and "page_owned (fa s') i = page_owned (fa s) i"
  using assms unfolding pt_ext_def by blast+

lemma pt_ext_npage: "pt_ext d s F s' F' \<Longrightarrow> npage s' = npage s"
  by (drule pt_extD(1), drule arg_cong [where f = npage]) simp

lemma pt_ext_refl: "minv s F \<Longrightarrow> pt_wf (npage s) (pmem s) d F \<Longrightarrow> pt_ext d s F s F"
  by (simp add: pt_ext_def)

lemma pt_ext_trans:
  assumes 1: "pt_ext d s F s1 F1" and 2: "pt_ext d s1 F1 s2 F2" shows "pt_ext d s F s2 F2"
  unfolding pt_ext_def
proof (intro conjI allI impI ballI)
  note d1 = pt_extD [OF 1] and d2 = pt_extD [OF 2]
  show "s2 = s\<lparr>fa := fa s2, pmem := pmem s2\<rparr>" by (subst d2(1), subst d1(1)) simp
  show "F2 \<subseteq> F" "minv s2 F2" "pt_wf (npage s) (pmem s2) d F2"
    using d1(2) d2(2-4) pt_ext_npage [OF 1] by auto
  show "leaf (pmem s2) d la = leaf (pmem s) d la" if "upath la \<in> tpaths" for la
    using d1(5) [OF that] d2(5) [OF that] by simp
  show "node (pmem s2) d q = Some g" if "q \<in> tpaths" "node (pmem s) d q = Some g" for q g
    using d1(6) d2(6) that by blast
  have "tables (pmem s2) d \<subseteq> tables (pmem s) d \<union> (\<lambda>i. i + nbase) ` (F - F1) \<union> (\<lambda>i. i + nbase) ` (F1 - F2)"
    using d1(7) d2(7) by fastforce
  with d1(2) d2(2) show "tables (pmem s2) d \<subseteq> tables (pmem s) d \<union> (\<lambda>i. i + nbase) ` (F - F2)" by fast
  show "pmem s2 g = pmem s g" if "g \<notin> (\<lambda>i. i + nbase) ` F" "g \<notin> tables (pmem s) d" for g
  proof -
    have "g \<notin> (\<lambda>i. i + nbase) ` F1" "g \<notin> tables (pmem s1) d" using that d1(2,7) by blast+
    with that show ?thesis using d1(8) d2(8) by simp
  qed
  show "ref (page_of s2 i) = ref (page_of s i)" if "i \<notin> F" for i
    using d1(2) d1(9) [OF that] d2(9) that by (metis subsetD)
  show "page_owned (fa s2) i = page_owned (fa s) i" for i using d1(10) d2(10) by blast
qed

text \<open>One level of \<open>get_pte\<close> with creation.\<close>

lemma ensure_table_ok:
  assumes inv: "minv s F" and wf: "pt_wf (npage s) (pmem s) d F"
    and f: "node (pmem s) d p = Some f" "i # p \<in> tpaths" and mem: "F = {} \<Longrightarrow> \<not> swap_init_ok s"
  shows "\<exists>s' F' ok. ensure_table alloc_page (f, i) True s = Inr (s', ok) \<and> pt_ext d s F s' F' \<and>
     card F \<le> card F' + 1 \<and> (if ok then node (pmem s') d (i # p) \<noteq> None else F = {} \<and> s' = s)"
proof (cases "bit (pmem s f i) 0")
  case True
  then show ?thesis using f pt_ext_refl [OF inv wf]
    by (intro exI [of _ s] exI [of _ F] exI [of _ True]) (simp add: ensure_table_def rd_def and_PTE_V)
next
  case False
  show ?thesis
  proof (cases "F = {}")
    case True
    then show ?thesis using False pt_ext_refl [OF inv wf] alloc_page_none [of s] inv mem
      by (intro exI [of _ s] exI [of _ F] exI [of _ False]) (simp add: ensure_table_def rd_def and_PTE_V)
  next
    case ne: False
    from alloc_page_some [OF inv ne] obtain a pg where a: "alloc_page s = Inr (s\<lparr>fa := a\<rparr>, Some pg)"
      "pg \<in> F" "minv (s\<lparr>fa := a\<rparr>) (F - {pg})"
      "\<forall>i. PageReserved (pages a i) = PageReserved (pages (fa s) i) \<and> ref (pages a i) = ref (pages (fa s) i)"
      by blast
    note bd = minv_bound [OF inv a(2)]
    have np: "npage s \<le> 0x88000" using inv by (simp add: minv_def)
    have ppn: "unat (PPN (page2pa pg)) = pg + nbase"
      using bd np PPN_page2pa [of pg] by (simp add: page2ppn_def)
    define e where "e = pte_create (of_nat (page2ppn pg)) (PTE_U OR PTE_V)"
    have e: "bit e 0" "tbl e = pg + nbase"
      using bd np pte_create_addr [of "PTE_U OR PTE_V" "page2ppn pg"]
      by (simp_all add: e_def pte_create_valid perm_UV_high page2ppn_def)
    define m' where "m' = (pmem s)(pg + nbase := (\<lambda>_. 0), f := (pmem s f)(i := e))"
    have "p \<in> tpaths" using f(2) by (rule tpaths_tl)
    then have nf: "f \<noteq> pg + nbase" using pt_wf_frame [OF wf _ f(1)] a(2) by (auto simp: table_frame_def)
    define s' where "s' = (upd_page pg (set_page_ref 1) (s\<lparr>fa := a\<rparr>))\<lparr>pmem := m'\<rparr>"
    have run: "ensure_table alloc_page (f, i) True s = Inr (s', True)"
      using False a(1) bd ppn nf
      by (simp add: ensure_table_def rd_def and_PTE_V KADDR_def kva_frame_def upd_page_def zero_frame_def
          wr_def e_def [symmetric] s'_def m'_def fun_upd_twist)
    have inv': "minv s' (F - {pg})"
      using a(3) minv_upd_page [of "set_page_ref 1" pg "s\<lparr>fa := a\<rparr>"] by (simp add: s'_def set_page_ref_def)
    have wf': "pt_wf (npage s) m' d (F - {pg})" "upath la \<in> tpaths \<Longrightarrow> leaf m' d la = leaf (pmem s) d la" for la
      using pt_wf_new_table [OF wf f False a(2) bd e m'_def] by auto
    note nd = node_new_table [OF wf f False a(2) e m'_def]
    have "pt_ext d s F s' (F - {pg})"
      unfolding pt_ext_def
    proof (intro conjI allI impI ballI)
      show "tables (pmem s') d \<subseteq> tables (pmem s) d \<union> (\<lambda>i. i + nbase) ` (F - (F - {pg}))"
        using nd a(2) by (auto simp: tables_def s'_def split: if_splits)
      show "pmem s' g = pmem s g" if "g \<notin> (\<lambda>i. i + nbase) ` F" "g \<notin> tables (pmem s) d" for g
        using that a(2) f(1) \<open>p \<in> tpaths\<close> by (auto simp: s'_def m'_def tables_def)
      show "node (pmem s') d q = Some g" if "q \<in> tpaths" "node (pmem s) d q = Some g" for q g
        using nd [OF that(1)] that(2) f False by (auto simp: s'_def)
      show "ref (page_of s' j) = ref (page_of s j)" if "j \<notin> F" for j
        using that a(2,4) by (auto simp: s'_def page_of_def upd_page_def)
      show "page_owned (fa s') j = page_owned (fa s) j" for j
        using a(4) by (auto simp: s'_def page_owned_def upd_page_def set_page_ref_def PageReserved_bit)
    qed (use inv' wf' in \<open>auto simp: s'_def upd_page_def\<close>)
    moreover have "card F \<le> card (F - {pg}) + 1"
      using card.remove [OF minv_finite [OF inv] a(2)] by linarith
    moreover have "node (pmem s') d (i # p) \<noteq> None" using nd [OF f(2)] by (simp add: s'_def)
    ultimately show ?thesis using run by (intro exI [of _ s'] exI [of _ "F - {pg}"] exI [of _ True]) simp
  qed
qed

section \<open>Walking\<close>

lemma kva_frame_tbl:
  assumes "table_frame (npage s) F (tbl v)"
  shows "bindR (KADDR s (PDE_ADDR v)) (\<lambda>kva. bindR (kva_frame s kva) g) = g (tbl v)"
  using assms frame_of_pa [of "PTE_ADDR v" s]
  unfolding PDE_ADDR_def table_frame_def tbl_def by (metis bindR_Inr bindR_assoc)

lemma get_pte_find:
  assumes "kva_frame s pd = Inr d" and wf: "pt_wf (npage s) (pmem s) d F" and la: "upath la \<in> tpaths"
    and c: "create \<Longrightarrow> walk (pmem s) d la \<noteq> None"
  shows "get_pte_with alloc pd la create s = Inr (s, walk (pmem s) d la)"
proof (cases "bit (pmem s d (unat (PDX1 la))) 0")
  case False
  with c have "\<not> create" by (auto simp: walk_def upath_def)
  with False assms(1) show ?thesis
    by (simp add: get_pte_with_def ensure_table_def rd_def and_PTE_V walk_def upath_def)
next
  case v1: True
  let ?f1 = "tbl (pmem s d (unat (PDX1 la)))"
  have la': "[unat (PDX1 la)] \<in> tpaths" using tpaths_tl la unfolding upath_def by blast
  have n1: "node (pmem s) d [unat (PDX1 la)] = Some ?f1" using v1 by simp
  note k1 = kva_frame_tbl [OF pt_wf_frame [OF wf la' n1]]
  show ?thesis
  proof (cases "bit (pmem s ?f1 (unat (PDX0 la))) 0")
    case False
    with c v1 have "\<not> create" by (auto simp: walk_def upath_def)
    with False v1 assms(1) show ?thesis
      by (simp add: k1 get_pte_with_def ensure_table_def rd_def and_PTE_V walk_def upath_def)
  next
    case True
    with n1 have "node (pmem s) d (upath la) = Some (tbl (pmem s ?f1 (unat (PDX0 la))))"
      by (simp add: upath_def)
    note k0 = kva_frame_tbl [OF pt_wf_frame [OF wf la this]]
    show ?thesis using True v1 assms(1)
      by (simp add: k1 k0 get_pte_with_def ensure_table_def rd_def and_PTE_V walk_def upath_def)
  qed
qed

lemma node_entry:
  "node m d p = Some f \<Longrightarrow> node m d (i # p) = Some g \<Longrightarrow> bit (m f i) 0 \<and> g = tbl (m f i)"
  by (simp split: if_splits)

lemma get_pte_create:
  assumes d: "kva_frame s pd = Inr d" and inv: "minv s F" and wf: "pt_wf (npage s) (pmem s) d F"
    and la: "upath la \<in> tpaths" and mem: "swap_init_ok s \<Longrightarrow> 2 \<le> card F"
  shows "\<exists>s' F' r. get_pte pd la True s = Inr (s', r) \<and> pt_ext d s F s' F' \<and> card F \<le> card F' + 2 \<and>
     (case r of None \<Rightarrow> card F < 2 | Some p \<Rightarrow> walk (pmem s') d la = Some p)"
proof -
  have la': "[unat (PDX1 la)] \<in> tpaths" using tpaths_tl la unfolding upath_def by blast
  have ne: "F = {} \<Longrightarrow> \<not> swap_init_ok s" using mem by auto
  obtain s1 F1 ok1 where 1: "ensure_table alloc_page (d, unat (PDX1 la)) True s = Inr (s1, ok1)"
    "pt_ext d s F s1 F1" "card F \<le> card F1 + 1"
    "if ok1 then node (pmem s1) d [unat (PDX1 la)] \<noteq> None else F = {} \<and> s1 = s"
    using ensure_table_ok [OF inv wf node.simps(1) la' ne] by blast
  show ?thesis
  proof (cases ok1)
    case False
    with 1 d show ?thesis by (intro exI [of _ s] exI [of _ F1] exI [of _ None]) (simp add: get_pte_def get_pte_with_def)
  next
    case True
    then obtain f1 where n1: "node (pmem s1) d [unat (PDX1 la)] = Some f1" using 1(4) by auto
    have np: "npage s1 = npage s" using pt_ext_npage [OF 1(2)] .
    note d1 = pt_extD [OF 1(2)]
    have e1: "f1 = tbl (rd s1 (d, unat (PDX1 la)))"
      using node_entry [OF _ n1, of d] by (simp add: rd_def)
    note k1 = kva_frame_tbl [OF pt_wf_frame [OF d1(4) [folded np] la' n1, unfolded e1]]
    have "F1 = {} \<Longrightarrow> \<not> swap_init_ok s1" using arg_cong [OF d1(1), of swap_init_ok] mem 1(3) by auto
    then obtain s2 F2 ok2 where 2: "ensure_table alloc_page (f1, unat (PDX0 la)) True s1 = Inr (s2, ok2)"
      "pt_ext d s1 F1 s2 F2" "card F1 \<le> card F2 + 1"
      "if ok2 then node (pmem s2) d (upath la) \<noteq> None else F1 = {} \<and> s2 = s1"
      using ensure_table_ok [OF d1(3) d1(4) [folded np] n1] la unfolding upath_def by blast
    note ext = pt_ext_trans [OF 1(2) 2(2)]
    have run: "get_pte pd la True s = bindR (Inr (s2, ok2)) (\<lambda>(s, ok).
       if \<not> ok then Inr (s, None)
       else
         bindR (KADDR s (PDE_ADDR (rd s (f1, unat (PDX0 la))))) (\<lambda>kva.
         bindR (kva_frame s kva) (\<lambda>pt.
         Inr (s, Some (pt, unat (PTX la))))))"
      using d 1(1) True 2(1) by (simp add: k1 get_pte_def get_pte_with_def e1)
    show ?thesis
    proof (cases ok2)
      case False
      with run ext 1(3) 2 show ?thesis
        by (intro exI [of _ s2] exI [of _ F2] exI [of _ None]) simp
    next
      case True
      then obtain f2 where n2: "node (pmem s2) d (upath la) = Some f2" using 2(4) by auto
      have np2: "npage s2 = npage s" using pt_ext_npage [OF ext] .
      have n1': "node (pmem s2) d [unat (PDX1 la)] = Some f1" using pt_extD(6) [OF 2(2) la' n1] .
      have e2: "f2 = tbl (rd s2 (f1, unat (PDX0 la)))"
        using node_entry [OF n1', of "unat (PDX0 la)"] n2 by (simp add: rd_def upath_def del: node.simps)
      note k2 = kva_frame_tbl [OF pt_wf_frame [OF pt_extD(4) [OF ext, folded np2] la n2, unfolded e2]]
      have "walk (pmem s2) d la = Some (f2, unat (PTX la))" by (simp add: walk_def n2)
      with run True ext 1(3) 2(3) show ?thesis
        by (intro exI [of _ s2] exI [of _ F2] exI [of _ "Some (f2, unat (PTX la))"]) (simp add: k2 e2)
    qed
  qed
qed

lemma and_1FF: "(w :: u64) AND 0x1FF = take_bit 9 w"
  unfolding low_mask by (rule take_bit_eq_mask [symmetric])

lemma unat_user: "la < USERTOP \<Longrightarrow> unat la < 2 ^ 31"
  by (simp add: USERTOP_def word_less_nat_alt)

lemma unat_index:
  "unat (PDX1 la) = unat la div 2 ^ 30 mod 512" "unat (PDX0 la) = unat la div 2 ^ 21 mod 512"
  "unat (PTX la) = unat la div 2 ^ 12 mod 512" "unat (PPN la) = unat la div 2 ^ 12"
  unfolding PDX1_def PDX0_def PTX_def PPN_def PDX1SHIFT_def PDX0SHIFT_def PTXSHIFT_def and_1FF
  by (simp_all add: unsigned_take_bit_eq unsigned_drop_bit_eq take_bit_eq_mod drop_bit_eq_div
      unat_div_distrib unat_mod_distrib)

lemma upath_user: "la < USERTOP \<Longrightarrow> upath la \<in> tpaths"
  using unat_user [of la] by (auto simp: upath_def tpaths_def unat_index)

lemma digits_inj:
  fixes a b :: nat
  assumes "a div 2 ^ 18 = b div 2 ^ 18" and "a div 2 ^ 9 mod 512 = b div 2 ^ 9 mod 512" and "a mod 512 = b mod 512"
  shows "a = b"
proof -
  have "a div 512 div 512 = b div 512 div 512" using assms(1) by (simp add: div_mult2_eq [symmetric])
  moreover have "a div 512 mod 512 = b div 512 mod 512" using assms(2) by simp
  ultimately have "a div 512 = b div 512" by (metis div_mult_mod_eq)
  with assms(3) show ?thesis by (metis div_mult_mod_eq)
qed

lemma same_page:
  assumes "la < USERTOP" and "la' < USERTOP"
  shows "upath la = upath la' \<and> unat (PTX la) = unat (PTX la') \<longleftrightarrow> PPN la = PPN la'"
proof -
  define a b where "a = unat la div 2 ^ 12" and "b = unat la' div 2 ^ 12"
  have ix: "unat la div 2 ^ 30 = a div 2 ^ 18" "unat la div 2 ^ 21 = a div 2 ^ 9"
    "unat la' div 2 ^ 30 = b div 2 ^ 18" "unat la' div 2 ^ 21 = b div 2 ^ 9"
    by (simp_all add: a_def b_def div_mult2_eq [symmetric])
  have "unat la div 2 ^ 30 mod 512 = unat la div 2 ^ 30" "unat la' div 2 ^ 30 mod 512 = unat la' div 2 ^ 30"
    using unat_user [OF assms(1)] unat_user [OF assms(2)] by simp_all
  then have "a div 2 ^ 18 mod 512 = a div 2 ^ 18" "b div 2 ^ 18 mod 512 = b div 2 ^ 18"
    unfolding ix by blast+
  then show ?thesis
    using digits_inj [of a b] unfolding upath_def unat_index word_unat_eq_iff ix
    by (auto simp: a_def b_def)
qed

section \<open>Writing an entry\<close>

lemma pt_wf_tables: "g \<in> tables m d \<Longrightarrow> pt_wf np m d F \<Longrightarrow> table_frame np F g"
  by (auto simp: tables_def dest: pt_wf_frame)

lemma pt_wf_add:
  "pt_wf np m d F \<Longrightarrow> i + nbase \<notin> tables m d \<Longrightarrow> pt_wf np m d (insert i F)"
  unfolding pt_wf_def table_frame_def tables_def by fastforce

lemma walk_user:
  assumes "walk m d la = Some (g, k)"
  shows "node m d (upath la) = Some g" and "k = unat (PTX la)" and "leaf m d la = m g k"
  using assms by (auto simp: walk_def leaf_def)

lemma leaf_write:
  assumes wf: "pt_wf np m d F" and w: "walk m d la = Some (g, k)" and la: "la < USERTOP" "la' < USERTOP"
  shows "leaf (m(g := (m g)(k := v))) d la' = (if PPN la' = PPN la then v else leaf m d la')"
proof -
  note n = walk_user(1) [OF w] and k = walk_user(2) [OF w]
  have p: "upath la \<in> tpaths" "upath la' \<in> tpaths" using la by (auto intro: upath_user)
  have nd: "node (m(g := h)) d (upath la') = node m d (upath la')" for h
    using node_write_leaf [OF wf n p(1) _ p(2)] by (simp add: upath_def)
  have "node m d (upath la') = Some g \<longleftrightarrow> upath la' = upath la"
    using pt_wf_inj [OF wf p(2,1)] n by auto
  with nd n k same_page [OF la(2,1)] show ?thesis
    by (auto simp: leaf_def walk_def split: option.splits)
qed

lemma pt_wf_cong:
  "(\<And>q. q \<in> tpaths \<Longrightarrow> node m' d q = node m d q) \<Longrightarrow> pt_wf np m' d F = pt_wf np m d F"
  unfolding pt_wf_def by (intro arg_cong2 [where f = "(\<and>)"] ball_cong refl) simp_all

lemma tables_write:
  assumes wf: "pt_wf np m d F" and w: "walk m d la = Some (g, k)" and la: "la < USERTOP"
  shows "tables (m(g := h)) d = tables m d" and "pt_wf np (m(g := h)) d F"
proof -
  have "node (m(g := h)) d q = node m d q" if "q \<in> tpaths" for q
    using node_write_leaf [OF wf walk_user(1) [OF w] upath_user [OF la] _ that] by (simp add: upath_def)
  then show "tables (m(g := h)) d = tables m d" "pt_wf np (m(g := h)) d F"
    using wf pt_wf_cong [of "m(g := h)" d m] by (simp_all add: tables_def)
qed

lemma walk_table: "walk m d la = Some (g, k) \<Longrightarrow> la < USERTOP \<Longrightarrow> g \<in> tables m d"
  using walk_user(1) upath_user unfolding tables_def by blast

section \<open>Freeing a page\<close>

lemma clear_pages_ref:
  "clear_pages P b n = Inr Q \<Longrightarrow> ref (Q i) = (if b \<le> i \<and> i < b + n then 0 else ref (P i))"
proof (induction n arbitrary: P b)
  case (Suc n)
  then show ?case by (auto simp: set_page_ref_def split: if_splits)
qed auto

lemma default_free_ref:
  assumes "default_free_pages s b n = Inr s'"
  shows "ref (pages s' i) = (if b \<le> i \<and> i < b + n then 0 else ref (pages s i))"
proof -
  from assms obtain P L where P: "clear_pages (pages s) b n = Inr P" and L: "insert_free (page_link s) b = Inr L"
    and n: "0 < n"
    by (auto simp: default_free_pages_def bindR_eq_Inr assertR_def split: if_splits)
  let ?P = "P(b := SetPageProperty ((P b)\<lparr>property := trunc32 (int n)\<rparr>))"
  obtain P1 L1 c where m1: "merge_prev ?P L b = (P1, L1, c)" using prod_cases3 by blast
  obtain P2 L2 where m2: "merge_next P1 L1 c = (P2, L2)" by fastforce
  have "ref (P1 i) = ref (P i)"
    using m1 by (auto simp: merge_prev_def Let_def page_simps split: fl_ptr.splits if_splits)
  moreover have "ref (P2 i) = ref (P1 i)"
    using m2 by (auto simp: merge_next_def Let_def page_simps split: fl_ptr.splits if_splits)
  moreover have "pages s' = P2"
    using assms P L n m1 m2 by (auto simp: default_free_pages_def)
  ultimately show ?thesis using clear_pages_ref [OF P, of i] by simp
qed

lemma free_pages_eq: "free_pages b n s = bindR (default_free_pages (fa s) b n) (\<lambda>f. Inr (s\<lparr>fa := f\<rparr>))"
  using intr_save_restore [of "sstatus s"]
  by (cases "intr_save (sstatus s)") (auto simp: free_pages_def bindR_def split: sum.splits)

text \<open>Freeing one page, on every list: the two cases of \<open>default_free_total\<close>.\<close>

lemma free_page_total:
  assumes inv: "minv s F" and p: "p \<notin> F" "p + nbase < npage s" "page_owned (fa s) p"
  shows "\<exists>f. free_page p s = Inr (s\<lparr>fa := f\<rparr>) \<and>
    (if insertable F p then minv (s\<lparr>fa := f\<rparr>) (insert p F) else \<forall>F'. \<not> minv (s\<lparr>fa := f\<rparr>) F') \<and>
    (\<forall>i. page_owned f i = page_owned (fa s) i \<and> ref (pages f i) = (if i = p then 0 else ref (pages (fa s) i)))"
proof -
  have one: "{p..<p + 1} = {p}" by auto
  have rep: "pmm_rep (npage s - nbase) (fa s) F" using inv by (simp add: minv_def)
  have "\<exists>f. default_free_pages (fa s) p 1 = Inr f \<and> (\<forall>i. page_owned f i = page_owned (fa s) i) \<and>
      (if insertable F p then pmm_rep (npage s - nbase) f (F \<union> {p..<p + 1})
       else list_prev (page_link f) (PageLink p) = PageLink p \<and> (\<forall>F'. \<not> pmm_rep (npage s - nbase) f F'))"
    using p by (intro default_free_total [OF rep]) auto
  then obtain f where f: "default_free_pages (fa s) p 1 = Inr f" "\<forall>i. page_owned f i = page_owned (fa s) i"
      "if insertable F p then pmm_rep (npage s - nbase) f (insert p F)
       else \<forall>F'. \<not> pmm_rep (npage s - nbase) f F'" unfolding one by (auto split: if_splits)
  with inv default_free_ref [OF f(1)] show ?thesis
    by (intro exI [of _ f]) (auto simp: free_page_def free_pages_eq minv_def)
qed

lemma free_page_ok:
  assumes inv: "minv s F" and p: "p \<notin> F" "p + nbase < npage s" "page_owned (fa s) p" "insertable F p"
  shows "\<exists>f. free_page p s = Inr (s\<lparr>fa := f\<rparr>) \<and> minv (s\<lparr>fa := f\<rparr>) (insert p F) \<and>
    (\<forall>i. page_owned f i = page_owned (fa s) i \<and> ref (pages f i) = (if i = p then 0 else ref (pages (fa s) i)))"
  using free_page_total [OF assms(1-4)] p(4) by simp

lemma pte2page_ok:
  assumes "bit v 0" and "nbase \<le> tbl v" and "tbl v < npage s"
  shows "pte2page s v = Inr (tbl v - nbase)"
  using assms by (simp add: pte2page_def and_PTE_V pa2page_def tbl_def)

section \<open>Removing and inserting mappings\<close>

text \<open>A valid entry maps a page that may be given up: it exists, is not free and is no page table.\<close>

definition user_page :: "mstate \<Rightarrow> nat \<Rightarrow> nat set \<Rightarrow> nat \<Rightarrow> bool" where
  "user_page s d F i \<longleftrightarrow>
     i \<notin> F \<and> i + nbase < npage s \<and> page_owned (fa s) i \<and> i + nbase \<notin> tables (pmem s) d"

abbreviation pg_of :: "u64 \<Rightarrow> nat" where "pg_of v \<equiv> tbl v - nbase"

abbreviation refs :: "mstate \<Rightarrow> nat \<Rightarrow> s32" where "refs s i \<equiv> ref (pages (fa s) i)"

definition drop_free :: "mstate \<Rightarrow> nat set \<Rightarrow> nat \<Rightarrow> nat set" where
  "drop_free s F i = (if refs s i = 1 then insert i F else F)"

lemma minv_ref: "minv (page_ref_dec i s) F = minv s F" "minv (page_ref_inc i s) F = minv s F"
  unfolding page_ref_dec_def page_ref_inc_def by (rule minv_upd_page, simp)+

text \<open>
  The allocator after a reference to page \<open>i\<close> was given up: unchanged unless it was the last one;
  with page \<open>i\<close> free again if the free list could take it; broken otherwise.
\<close>

definition after_drop :: "mstate \<Rightarrow> nat set \<Rightarrow> nat \<Rightarrow> mstate \<Rightarrow> bool" where
  "after_drop s F i s' \<longleftrightarrow>
     (if refs s i \<noteq> 1 then minv s' F
      else if insertable F i then minv s' (insert i F)
      else \<forall>F'. \<not> minv s' F')"

lemma after_drop_ok: "after_drop s F i s' \<Longrightarrow> (refs s i = 1 \<Longrightarrow> insertable F i) \<Longrightarrow> minv s' (drop_free s F i)"
  by (auto simp: after_drop_def drop_free_def split: if_splits)

lemma after_drop_cong:
  "refs t i = refs s i \<Longrightarrow> fa t' = fa s' \<Longrightarrow> npage t' = npage s' \<Longrightarrow> after_drop t F i t' = after_drop s F i s'"
  by (simp add: after_drop_def minv_def)

lemma page_remove_pte_total:
  assumes inv: "minv s F" and v: "rd s ptep = v" "bit v 0" "nbase \<le> tbl v"
    and u: "user_page s d F (pg_of v)"
  shows "\<exists>f. page_remove_pte pd la ptep s = Inr (wr ptep 0 (s\<lparr>fa := f\<rparr>)) \<and>
    after_drop s F (pg_of v) (s\<lparr>fa := f\<rparr>) \<and>
    (\<forall>i. page_owned f i = page_owned (fa s) i \<and>
      ref (pages f i) = (if i = pg_of v then refs s i - 1 else refs s i))"
proof -
  let ?p = "pg_of v" and ?s = "page_ref_dec (pg_of v) s"
  have pte: "pte2page s v = Inr ?p" using v u by (intro pte2page_ok) (auto simp: user_page_def)
  have np: "npage ?s = npage s" by (simp add: page_ref_dec_def upd_page_def)
  have st: "?s = s\<lparr>fa := fa ?s\<rparr>" and stf: "?s\<lparr>fa := f\<rparr> = s\<lparr>fa := f\<rparr>" for f
    by (simp_all add: page_ref_dec_def upd_page_def)
  have own: "page_owned (fa ?s) i = page_owned (fa s) i" for i
    by (simp add: page_ref_dec_def upd_page_def page_owned_def PageReserved_bit)
  have rf: "refs ?s i = (if i = ?p then refs s i - 1 else refs s i)" for i
    by (simp add: page_ref_dec_def upd_page_def)
  have zero: "page_ref ?s ?p = 0 \<longleftrightarrow> refs s ?p = 1" using rf [of ?p] by (simp add: page_ref_def page_of_def)
  show ?thesis
  proof (cases "refs s ?p = 1")
    case True
    have "minv ?s F" "?p \<notin> F" "?p + nbase < npage ?s" "page_owned (fa ?s) ?p"
      using inv u own np by (auto simp: minv_ref user_page_def)
    from free_page_total [OF this] obtain f where f: "free_page ?p ?s = Inr (s\<lparr>fa := f\<rparr>)"
      "if insertable F ?p then minv (s\<lparr>fa := f\<rparr>) (insert ?p F) else \<forall>F'. \<not> minv (s\<lparr>fa := f\<rparr>) F'"
      "\<forall>i. page_owned f i = page_owned (fa s) i \<and> ref (pages f i) = (if i = ?p then 0 else refs ?s i)"
      unfolding stf own by blast
    from f(3) have "\<forall>i. page_owned f i = page_owned (fa s) i \<and> ref (pages f i) = (if i = ?p then 0 else refs s i)"
      by (simp add: rf)
    moreover from f(2) have "after_drop s F ?p (s\<lparr>fa := f\<rparr>)" using True by (simp add: after_drop_def)
    ultimately show ?thesis using True zero v pte f(1)
      by (intro exI [of _ f]) (auto simp: page_remove_pte_def and_PTE_V Let_def)
  next
    case False
    have "minv (s\<lparr>fa := fa ?s\<rparr>) F" using inv minv_ref(1) [of ?p s F] unfolding st [symmetric] by simp
    moreover have "page_remove_pte pd la ptep s = Inr (wr ptep 0 ?s)"
      using False zero v pte by (simp add: page_remove_pte_def and_PTE_V Let_def)
    ultimately show ?thesis
      using False own rf st by (intro exI [of _ "fa ?s"]) (simp add: after_drop_def)
  qed
qed

lemma page_remove_pte_ok:
  assumes "minv s F" and "rd s ptep = v" and "bit v 0" and "nbase \<le> tbl v"
    and "user_page s d F (pg_of v)" and "refs s (pg_of v) = 1 \<Longrightarrow> insertable F (pg_of v)"
  shows "\<exists>f. page_remove_pte pd la ptep s = Inr (wr ptep 0 (s\<lparr>fa := f\<rparr>)) \<and>
    minv (s\<lparr>fa := f\<rparr>) (drop_free s F (pg_of v)) \<and>
    (\<forall>i. page_owned f i = page_owned (fa s) i \<and>
      ref (pages f i) = (if i = pg_of v then refs s i - 1 else refs s i))"
  using page_remove_pte_total [OF assms(1-5), of pd la] after_drop_ok assms(6) by blast

lemma leaf_valid_walk: "bit (leaf m d la) 0 \<Longrightarrow> \<exists>g k. walk m d la = Some (g, k) \<and> m g k = leaf m d la"
  by (cases "walk m d la") (auto simp: leaf_def)

text \<open>A valid entry whose page can be given up.\<close>

definition removable :: "mstate \<Rightarrow> nat \<Rightarrow> nat set \<Rightarrow> u64 \<Rightarrow> bool" where
  "removable s d F v \<longleftrightarrow> bit v 0 \<and> nbase \<le> tbl v \<and> user_page s d F (pg_of v)"

lemma removableD:
  assumes "removable s d F v"
  shows "bit v 0" and "nbase \<le> tbl v" and "user_page s d F (pg_of v)" and "pg_of v + nbase < npage s"
  using assms by (auto simp: removable_def user_page_def)

lemma removable_pt_wf: "pt_wf n m d F \<Longrightarrow> m = pmem s \<Longrightarrow> removable s d F v \<Longrightarrow> pt_wf n m d (drop_free s F (pg_of v))"
  by (auto simp: drop_free_def removable_def user_page_def intro: pt_wf_add)

lemma page_remove_total:
  assumes d: "kva_frame s pd = Inr d" and inv: "minv s F" and wf: "pt_wf (npage s) (pmem s) d F"
    and la: "la < USERTOP" and v: "v = leaf (pmem s) d la" and rm: "removable s d F v"
  shows "\<exists>s'. page_remove pd la s = Inr s' \<and> after_drop s F (pg_of v) s' \<and>
    pt_wf (npage s') (pmem s') d (drop_free s F (pg_of v)) \<and>
    (\<forall>la'. la' < USERTOP \<longrightarrow> leaf (pmem s') d la' = (if PPN la' = PPN la then 0 else leaf (pmem s) d la')) \<and>
    (\<forall>i. refs s' i = (if i = pg_of v then refs s i - 1 else refs s i))"
proof -
  from leaf_valid_walk v removableD(1) [OF rm] obtain g k where w: "walk (pmem s) d la = Some (g, k)" "pmem s g k = v"
    by metis
  have get: "get_pte pd la False s = Inr (s, Some (g, k))"
    using get_pte_find [OF d wf upath_user [OF la], of False] w(1) by (simp add: get_pte_def)
  have "rd s (g, k) = v" using w by (simp add: rd_def)
  from page_remove_pte_total [OF inv this removableD(1,2,3) [OF rm]] obtain f where
    f: "page_remove_pte pd la (g, k) s = Inr (wr (g, k) 0 (s\<lparr>fa := f\<rparr>))"
      "after_drop s F (pg_of v) (s\<lparr>fa := f\<rparr>)"
      "\<forall>i. ref (pages f i) = (if i = pg_of v then refs s i - 1 else refs s i)" by blast
  have "after_drop s F (pg_of v) (wr (g, k) 0 (s\<lparr>fa := f\<rparr>))"
    using f(2) after_drop_cong [of s "pg_of v" s "wr (g, k) 0 (s\<lparr>fa := f\<rparr>)" "s\<lparr>fa := f\<rparr>" F]
    by (simp add: wr_def)
  then show ?thesis
    using get f leaf_write [OF wf w(1) la, of _ 0] tables_write(2) [OF removable_pt_wf [OF wf refl rm] w(1) la]
    by (intro exI [of _ "wr (g, k) 0 (s\<lparr>fa := f\<rparr>)"]) (simp add: page_remove_def wr_def)
qed

text \<open>The value \<open>page_insert\<close> stores.\<close>

definition new_pte :: "nat \<Rightarrow> u64 \<Rightarrow> u64" where
  "new_pte page perm = pte_create (of_nat (page2ppn page)) (PTE_V OR perm)"

definition maps_page :: "mstate \<Rightarrow> mstate \<Rightarrow> nat \<Rightarrow> u64 \<Rightarrow> nat \<Rightarrow> u64 \<Rightarrow> bool" where
  "maps_page s s' d la page perm \<longleftrightarrow>
     (\<forall>la'. la' < USERTOP \<longrightarrow>
        leaf (pmem s') d la' = (if PPN la' = PPN la then new_pte page perm else leaf (pmem s) d la'))"

lemma page_insert_empty:
  assumes d: "kva_frame s pd = Inr d" and inv: "minv s F" and wf: "pt_wf (npage s) (pmem s) d F"
    and la: "la < USERTOP" and mem: "2 \<le> card F \<or> walk (pmem s) d la \<noteq> None" and pg: "page \<notin> F"
    and v: "\<not> bit (leaf (pmem s) d la) 0"
  shows "\<exists>s' F'. page_insert pd page la perm s = Inr (s', 0) \<and> F' \<subseteq> F \<and> card F \<le> card F' + 2 \<and> minv s' F' \<and>
    pt_wf (npage s') (pmem s') d F' \<and> maps_page s s' d la page perm \<and>
    s' = s\<lparr>fa := fa s', pmem := pmem s'\<rparr> \<and> (\<forall>i. page_owned (fa s') i = page_owned (fa s) i) \<and>
    (\<forall>i. i \<notin> F \<longrightarrow> refs s' i = (if i = page then refs s i + 1 else refs s i)) \<and>
    tables (pmem s') d \<subseteq> tables (pmem s) d \<union> (\<lambda>i. i + nbase) ` (F - F') \<and>
    (\<forall>g. g \<notin> (\<lambda>i. i + nbase) ` F \<longrightarrow> g \<notin> tables (pmem s) d \<longrightarrow> pmem s' g = pmem s g) \<and>
    (walk (pmem s) d la \<noteq> None \<longrightarrow> F' = F)"
proof -
  note up = upath_user [OF la]
  have "\<exists>s1 F1 r. get_pte pd la True s = Inr (s1, r) \<and> pt_ext d s F s1 F1 \<and> card F \<le> card F1 + 2 \<and>
      r \<noteq> None \<and> walk (pmem s1) d la = r \<and> (walk (pmem s) d la \<noteq> None \<longrightarrow> F1 = F)"
  proof (cases "walk (pmem s) d la = None")
    case True
    with mem have m: "2 \<le> card F" by simp
    with get_pte_create [OF d inv wf up] True show ?thesis by (fastforce split: option.splits)
  next
    case False
    then have "get_pte pd la True s = Inr (s, walk (pmem s) d la)" using get_pte_find [OF d wf up, of True] by (simp add: get_pte_def)
    with False show ?thesis using pt_ext_refl [OF inv wf] by (intro exI [of _ s] exI [of _ F] exI [of _ "walk (pmem s) d la"]) simp
  qed
  then obtain s1 F1 r g k where 1: "get_pte pd la True s = Inr (s1, r)" "pt_ext d s F s1 F1" "card F \<le> card F1 + 2"
    and r: "r = Some (g, k)" and w: "walk (pmem s1) d la = Some (g, k)" and same: "walk (pmem s) d la \<noteq> None \<longrightarrow> F1 = F"
    by (metis not_None_eq prod.collapse)
  note e = pt_extD [OF 1(2)] and np = pt_ext_npage [OF 1(2)]
  have nv: "\<not> bit (pmem s1 g k) 0" using e(5) [OF up] v walk_user(3) [OF w] by simp
  define s' where "s' = wr (g, k) (new_pte page perm) (page_ref_inc page s1)"
  have pm: "pmem s' = (pmem s1)(g := (pmem s1 g)(k := new_pte page perm))"
    by (simp add: s'_def wr_def page_ref_inc_def upd_page_def)
  have st: "s' = s1\<lparr>fa := fa s', pmem := pmem s'\<rparr>" by (simp add: s'_def wr_def page_ref_inc_def upd_page_def)
  have run: "page_insert pd page la perm s = Inr (s', 0)"
    using 1(1) r nv by (simp add: page_insert_def Let_def rd_def and_PTE_V s'_def new_pte_def page_ref_inc_def upd_page_def)
  have inv': "minv s' F1" using e(3) by (simp add: s'_def minv_ref)
  have wf': "pt_wf (npage s') (pmem s') d F1" "tables (pmem s') d = tables (pmem s1) d"
    using tables_write [OF e(4) w la] arg_cong [OF st, of npage] np by (simp_all add: pm)
  have maps: "maps_page s s' d la page perm"
    unfolding maps_page_def
  proof (intro allI impI)
    fix la' assume la': "la' < USERTOP"
    show "leaf (pmem s') d la' = (if PPN la' = PPN la then new_pte page perm else leaf (pmem s) d la')"
      using leaf_write [OF e(4) w la la'] e(5) [OF upath_user [OF la']] by (simp add: pm)
  qed
  have fa: "page_owned (fa s') i = page_owned (fa s) i"
    "refs s' i = (if i = page then refs s1 i + 1 else refs s1 i)" for i
    using e(10) by (simp_all add: s'_def wr_def page_ref_inc_def upd_page_def page_owned_def PageReserved_bit)
  have rf: "refs s' i = (if i = page then refs s i + 1 else refs s i)" if "i \<notin> F" for i
    using fa(2) [of i] e(9) [OF that] by (cases "i = page") (simp_all add: page_of_def)
  have mem': "pmem s' h = pmem s h" if "h \<notin> (\<lambda>i. i + nbase) ` F" "h \<notin> tables (pmem s) d" for h
  proof -
    have "h \<noteq> g" using walk_table [OF w la] that e(2,7) by blast
    with e(8) [OF that] show ?thesis by (simp add: pm)
  qed
  have st': "s' = s\<lparr>fa := fa s', pmem := pmem s'\<rparr>" by (subst st, subst e(1)) simp
  show ?thesis
    using run e(2) 1(3) inv' wf' maps st' fa(1) rf e(7) mem' same by (intro exI [of _ s'] exI [of _ F1]) blast
qed

lemma page_insert_same:
  assumes d: "kva_frame s pd = Inr d" and wf: "pt_wf (npage s) (pmem s) d F" and la: "la < USERTOP"
    and v: "v = leaf (pmem s) d la" "bit v 0" "tbl v = page + nbase" "page + nbase < npage s"
  shows "\<exists>s'. page_insert pd page la perm s = Inr (s', 0) \<and> s' = s\<lparr>pmem := pmem s'\<rparr> \<and>
    pt_wf (npage s') (pmem s') d F \<and> maps_page s s' d la page perm"
proof -
  from leaf_valid_walk v(1,2) obtain g k where w: "walk (pmem s) d la = Some (g, k)" "pmem s g k = v" by metis
  have get: "get_pte pd la True s = Inr (s, Some (g, k))"
    using get_pte_find [OF d wf upath_user [OF la], of True] w(1) by (simp add: get_pte_def)
  have pte: "pte2page t v = Inr page" if "npage t = npage s" for t
    using pte2page_ok [of v t] v that by simp
  have undo: "page_ref_dec page (page_ref_inc page s) = s"
    by (simp add: page_ref_dec_def page_ref_inc_def upd_page_def)
  have "page_insert pd page la perm s = Inr (wr (g, k) (new_pte page perm) s, 0)"
    using get w v(2) pte [of "page_ref_inc page s"] undo
    by (simp add: page_insert_def Let_def rd_def and_PTE_V new_pte_def page_ref_inc_def upd_page_def)
  then show ?thesis
    using tables_write(2) [OF wf w(1) la] leaf_write [OF wf w(1) la]
    by (intro exI [of _ "wr (g, k) (new_pte page perm) s"]) (simp add: wr_def maps_page_def)
qed

lemma page_insert_replace:
  assumes d: "kva_frame s pd = Inr d" and inv: "minv s F" and wf: "pt_wf (npage s) (pmem s) d F"
    and la: "la < USERTOP" and v: "v = leaf (pmem s) d la" and rm: "removable s d F v"
    and pg: "pg_of v \<noteq> page"
  shows "\<exists>s'. page_insert pd page la perm s = Inr (s', 0) \<and> after_drop s F (pg_of v) s' \<and>
    pt_wf (npage s') (pmem s') d (drop_free s F (pg_of v)) \<and> maps_page s s' d la page perm \<and>
    s' = s\<lparr>fa := fa s', pmem := pmem s'\<rparr> \<and>
    (\<forall>i. refs s' i = (if i = page then refs s i + 1 else if i = pg_of v then refs s i - 1 else refs s i))"
proof -
  from leaf_valid_walk v removableD(1) [OF rm] obtain g k where w: "walk (pmem s) d la = Some (g, k)" "pmem s g k = v" by metis
  have get: "get_pte pd la True s = Inr (s, Some (g, k))"
    using get_pte_find [OF d wf upath_user [OF la], of True] w(1) by (simp add: get_pte_def)
  let ?s = "page_ref_inc page s"
  have st: "npage ?s = npage s" "pmem ?s = pmem s" "?s\<lparr>fa := f\<rparr> = s\<lparr>fa := f\<rparr>" for f
    by (simp_all add: page_ref_inc_def upd_page_def)
  have rf: "refs ?s i = (if i = page then refs s i + 1 else refs s i)" for i
    by (simp add: page_ref_inc_def upd_page_def)
  have own: "page_owned (fa ?s) i = page_owned (fa s) i" for i
    by (simp add: page_ref_inc_def upd_page_def page_owned_def PageReserved_bit)
  have pte: "pte2page ?s v = Inr (pg_of v)"
    using pte2page_ok [of v ?s] rm by (auto simp: removable_def user_page_def st)
  have rd: "rd ?s (g, k) = v" using w by (simp add: rd_def st)
  have u: "user_page ?s d F (pg_of v)" using rm unfolding removable_def user_page_def st own by blast
  obtain f where f: "page_remove_pte pd la (g, k) ?s = Inr (wr (g, k) 0 (s\<lparr>fa := f\<rparr>))"
      "after_drop ?s F (pg_of v) (s\<lparr>fa := f\<rparr>)"
      "\<forall>i. ref (pages f i) = (if i = pg_of v then refs ?s i - 1 else refs ?s i)"
    using page_remove_pte_total [OF _ rd removableD(1,2) [OF rm] u, of pd la] inv unfolding st
    by (auto simp: minv_ref)
  define s' where "s' = wr (g, k) (new_pte page perm) (s\<lparr>fa := f\<rparr>)"
  have run: "page_insert pd page la perm s = Inr (s', 0)"
    using get f(1) rd pte removableD(1) [OF rm] pg
    by (simp add: page_insert_def Let_def and_PTE_V new_pte_def s'_def) (simp add: wr_def)
  have pm: "pmem s' = (pmem s)(g := (pmem s g)(k := new_pte page perm))" by (simp add: s'_def wr_def)
  note wf' = removable_pt_wf [OF wf refl rm]
  have "pt_wf (npage s') (pmem s') d (drop_free s F (pg_of v))"
    unfolding pm using tables_write(2) [OF wf' w(1) la] by (simp add: s'_def wr_def)
  moreover have "maps_page s s' d la page perm" unfolding maps_page_def pm using leaf_write [OF wf w(1) la] by simp
  moreover have "after_drop s F (pg_of v) s'"
    using f(2) pg after_drop_cong [of ?s "pg_of v" s "s\<lparr>fa := f\<rparr>" s' F] by (simp add: s'_def rf wr_def)
  moreover have "refs s' i = (if i = page then refs s i + 1 else if i = pg_of v then refs s i - 1 else refs s i)" for i
    using f(3) pg by (simp add: s'_def wr_def rf)
  moreover have "s' = s\<lparr>fa := fa s', pmem := pmem s'\<rparr>" by (simp add: s'_def wr_def)
  ultimately show ?thesis using run by blast
qed

section \<open>A small machine\<close>

text \<open>Eight pages of memory: 3 to 7 free, page 0 an empty root table, pages 1 and 2 in use.\<close>

definition mem8_state :: "free_state \<Rightarrow> mstate" where
  "mem8_state f =
    \<lparr>fa = f, npage = nbase + 8, pmem = (\<lambda>_ _. 0), sstatus = 0, satp = 0, swap_init_ok = False,
     max_swap_offset = 7, check_mm_struct = 0,
     mms = (\<lambda>_. \<lparr>mmap_cache = 0, pgdir = 0, map_count = 0, sm_priv = None, mm_count = 0, mm_lock = 0\<rparr>),
     vmas = (\<lambda>_. \<lparr>vm_mm = 0, vm_start = 0, vm_end = 0, vm_flags = 0\<rparr>), mmap_link = links0, pra_link = links0,
     ide = (\<lambda>_. 0),
     slob = \<lparr>units = (\<lambda>_. 0), snext = (\<lambda>_. 0), slobfree = 0, bigblocks = 0,
             bbs = (\<lambda>_. \<lparr>bb_order = 0, bb_pages = 0, bb_next = 0\<rparr>)\<rparr>,
     pgfault_num = 0\<rparr>"

definition mem8_root :: u64 where "mem8_root = push_bit 12 (of_nat nbase) + va_pa_offset"

lemma mem8_root_frame: "kva_frame (mem8_state f) mem8_root = Inr nbase"
  by (simp add: kva_frame_def mem8_root_def mem8_state_def PPN_def PTXSHIFT_def nbase_def)

lemma node_zero: "node (\<lambda>_ _. 0) d q = (if q = [] then Some d else None)"
  by (induction q) (auto split: option.splits)

lemma mem8_ok: "\<exists>f. minv (mem8_state f) {3..<8} \<and> pt_wf (nbase + 8) (\<lambda>_ _. 0) nbase {3..<8} \<and> (\<forall>i<8. page_owned f i)"
proof -
  obtain f where f: "pmm_rep 8 f {3..<8}" "\<forall>i<8. page_owned f i" using mem8_alloc by blast
  have "minv (mem8_state f) {3..<8}" using f by (simp add: minv_def mem8_state_def) (simp add: nbase_def)
  moreover have "pt_wf (nbase + 8) (\<lambda>_ _. 0) nbase {3..<8}"
    by (simp add: pt_wf_def node_zero table_frame_def)
  ultimately show ?thesis using f by blast
qed

lemma mem8_user: "(0x200000 :: u64) < USERTOP"
  by (simp add: USERTOP_def)

lemma mem8_fields: "npage (mem8_state f) = nbase + 8" "pmem (mem8_state f) = (\<lambda>_ _. 0)" "fa (mem8_state f) = f"
  by (simp_all add: mem8_state_def)

lemma mem8_leaf: "leaf (\<lambda>_ _. 0) d la = 0"
  by (simp add: leaf_def walk_def node_zero upath_def)

section \<open>Properties of the page tables\<close>

text \<open>\<open>get_pte\<close> without creation returns the address of the entry that the three levels
  select, or NULL when a level is missing, and changes nothing.\<close>

theorem get_pte_lookup:
  assumes "kva_frame s pd = Inr d" and "pt_wf (npage s) (pmem s) d F" and "la < USERTOP"
  shows "get_pte pd la False s = Inr (s, walk (pmem s) d la)"
  using get_pte_find [OF assms(1,2) upath_user [OF assms(3)], of False] by (simp add: get_pte_def)

theorem get_pte_lookup_witness:
  "\<exists>s. get_pte mem8_root 0x200000 False s = Inr (s, None)"
proof -
  obtain f where "minv (mem8_state f) {3..<8}" and f: "pt_wf (nbase + 8) (\<lambda>_ _. 0) nbase {3..<8}" using mem8_ok by blast
  show ?thesis
    using get_pte_lookup [OF mem8_root_frame [of f] _ mem8_user] f
    by (auto simp: mem8_fields walk_def node_zero upath_def)
qed

text \<open>C18: \<open>get_pte\<close> with creation and two free pages returns the entry for the address, taking at
  most two pages for tables, leaving every translation as it was and every other frame untouched;
  without swapping it returns NULL only when fewer than two pages are free.\<close>

theorem get_pte_creates:
  assumes "kva_frame s pd = Inr d" and "minv s F" and "pt_wf (npage s) (pmem s) d F" and "la < USERTOP"
    and "swap_init_ok s \<longrightarrow> 2 \<le> card F"
  shows "\<exists>s' F' r. get_pte pd la True s = Inr (s', r) \<and> F' \<subseteq> F \<and> card F \<le> card F' + 2 \<and> minv s' F' \<and>
     pt_wf (npage s') (pmem s') d F' \<and>
     (\<forall>la'. la' < USERTOP \<longrightarrow> leaf (pmem s') d la' = leaf (pmem s) d la') \<and>
     (\<forall>g. g \<notin> (\<lambda>i. i + nbase) ` F \<longrightarrow> g \<notin> tables (pmem s) d \<longrightarrow> pmem s' g = pmem s g) \<and>
     (case r of None \<Rightarrow> card F < 2 | Some p \<Rightarrow> walk (pmem s') d la = Some p)"
proof -
  obtain s' F' r where 1: "get_pte pd la True s = Inr (s', r)" "pt_ext d s F s' F'" "card F \<le> card F' + 2"
    "case r of None \<Rightarrow> card F < 2 | Some p \<Rightarrow> walk (pmem s') d la = Some p"
    using get_pte_create [OF assms(1-3) upath_user [OF assms(4)]] assms(5) by blast
  note e = pt_extD [OF 1(2)]
  have "pt_wf (npage s') (pmem s') d F'" using e(4) pt_ext_npage [OF 1(2)] by simp
  with 1 e(2,3,5,8) upath_user show ?thesis by (intro exI [of _ s'] exI [of _ F'] exI [of _ r]) auto
qed

theorem get_pte_creates_witness:
  "\<exists>s s' p. get_pte mem8_root 0x200000 True s = Inr (s', Some p) \<and> walk (pmem s') nbase 0x200000 = Some p"
proof -
  obtain f where f: "minv (mem8_state f) {3..<8}" "pt_wf (nbase + 8) (\<lambda>_ _. 0) nbase {3..<8}" using mem8_ok by blast
  have wf: "pt_wf (npage (mem8_state f)) (pmem (mem8_state f)) nbase {3..<8}" using f by (simp add: mem8_fields)
  from get_pte_creates [OF mem8_root_frame f(1) wf mem8_user] obtain s' r where
    "get_pte mem8_root 0x200000 True (mem8_state f) = Inr (s', r)"
    "case r of None \<Rightarrow> card {3..<8::nat} < 2 | Some p \<Rightarrow> walk (pmem s') nbase 0x200000 = Some p"
    by auto
  then show ?thesis by (cases r) auto
qed

text \<open>C11: \<open>page_insert\<close> at an address without valid entry succeeds when two pages are free: exactly the
  page of that address is now mapped, to the given page with the given permissions, every other
  translation is unchanged, and only that page gains a reference.\<close>

theorem page_insert_new:
  assumes "kva_frame s pd = Inr d" and "minv s F" and "pt_wf (npage s) (pmem s) d F" and "la < USERTOP"
    and "2 \<le> card F" and "page \<notin> F" and "\<not> bit (leaf (pmem s) d la) 0"
  shows "\<exists>s' F'. page_insert pd page la perm s = Inr (s', 0) \<and> F' \<subseteq> F \<and> minv s' F' \<and>
    pt_wf (npage s') (pmem s') d F' \<and>
    (\<forall>la'. la' < USERTOP \<longrightarrow>
       leaf (pmem s') d la' = (if PPN la' = PPN la then new_pte page perm else leaf (pmem s) d la')) \<and>
    (\<forall>i. i \<notin> F \<longrightarrow> refs s' i = (if i = page then refs s i + 1 else refs s i))"
  using page_insert_empty [OF assms(1-4) disjI1 [OF assms(5)] assms(6,7)] unfolding maps_page_def by blast

lemma mem8_insert:
  assumes f: "minv (mem8_state f) {3..<8}" "pt_wf (nbase + 8) (\<lambda>_ _. 0) nbase {3..<8}" and la: "la < USERTOP"
  shows "\<exists>s' F'. page_insert mem8_root 2 la (PTE_U OR PTE_V) (mem8_state f) = Inr (s', 0) \<and> F' \<subseteq> {3..<8} \<and> F' \<noteq> {} \<and>
    minv s' F' \<and> pt_wf (npage s') (pmem s') nbase F' \<and> npage s' = nbase + 8 \<and>
    leaf (pmem s') nbase la = new_pte 2 (PTE_U OR PTE_V) \<and>
    (\<forall>i. page_owned (fa s') i = page_owned f i) \<and> tables (pmem s') nbase \<subseteq> {nbase} \<union> {nbase + 3..<nbase + 8}"
proof -
  have wf: "pt_wf (npage (mem8_state f)) (pmem (mem8_state f)) nbase {3..<8}" using f by (simp add: mem8_fields)
  have "\<not> bit (leaf (pmem (mem8_state f)) nbase la) 0" by (simp add: mem8_fields mem8_leaf)
  from page_insert_empty [OF mem8_root_frame f(1) wf la _ _ this, of 2 "PTE_U OR PTE_V"]
  obtain s' F' where s': "page_insert mem8_root 2 la (PTE_U OR PTE_V) (mem8_state f) = Inr (s', 0)"
    "F' \<subseteq> {3..<8}" "5 \<le> card F' + 2" "minv s' F'" "pt_wf (npage s') (pmem s') nbase F'"
    "maps_page (mem8_state f) s' nbase la 2 (PTE_U OR PTE_V)"
    "s' = (mem8_state f)\<lparr>fa := fa s', pmem := pmem s'\<rparr>" "\<forall>i. page_owned (fa s') i = page_owned f i"
    "tables (pmem s') nbase \<subseteq> tables (\<lambda>_ _. 0) nbase \<union> (\<lambda>i. i + nbase) ` ({3..<8} - F')"
    by (auto simp: mem8_fields)
  have "tables (\<lambda>_ _. 0) nbase = {nbase}" by (auto simp: tables_def node_zero tpaths_def)
  moreover have "F' \<noteq> {}" using s'(3) by auto
  moreover have "npage s' = nbase + 8" using arg_cong [OF s'(7), of npage] by (simp add: mem8_fields)
  moreover have "leaf (pmem s') nbase la = new_pte 2 (PTE_U OR PTE_V)"
    using s'(6) la by (simp add: maps_page_def)
  ultimately show ?thesis using s' by (intro exI [of _ s'] exI [of _ F']) auto
qed

lemma new_pte_laws:
  assumes "\<And>k. 10 \<le> k \<Longrightarrow> \<not> bit perm k" and "page + nbase < 2 ^ 44"
  shows "bit (new_pte page perm) 0" and "tbl (new_pte page perm) = page + nbase"
  using pte_create_addr [of "PTE_V OR perm" "page2ppn page"] assms
  by (auto simp: new_pte_def pte_create_valid page2ppn_def bit_or_iff PTE_V_mask BIT_MASK_bit)

lemma mem8_mapped:
  assumes la: "la < USERTOP"
  shows "\<exists>s F. kva_frame s mem8_root = Inr nbase \<and> minv s F \<and> pt_wf (npage s) (pmem s) nbase F \<and>
     leaf (pmem s) nbase la = new_pte 2 (PTE_U OR PTE_V) \<and> bit (new_pte 2 (PTE_U OR PTE_V)) 0 \<and>
     removable s nbase F (new_pte 2 (PTE_U OR PTE_V)) \<and> insertable F 2"
proof -
  obtain f where f: "minv (mem8_state f) {3..<8}" "pt_wf (nbase + 8) (\<lambda>_ _. 0) nbase {3..<8}" "\<forall>i<8. page_owned f i"
    using mem8_ok by blast
  from mem8_insert [OF f(1,2) la] obtain s F where s: "F \<subseteq> {3..<8}" "F \<noteq> {}" "minv s F" "pt_wf (npage s) (pmem s) nbase F"
    "npage s = nbase + 8" "leaf (pmem s) nbase la = new_pte 2 (PTE_U OR PTE_V)"
    "\<forall>i. page_owned (fa s) i = page_owned f i" "tables (pmem s) nbase \<subseteq> {nbase} \<union> {nbase + 3..<nbase + 8}"
    by blast
  have n: "bit (new_pte 2 (PTE_U OR PTE_V)) 0" "tbl (new_pte 2 (PTE_U OR PTE_V)) = 2 + nbase"
    by (rule new_pte_laws; simp add: perm_UV_high nbase_def)+
  have "kva_frame s mem8_root = Inr nbase"
    using mem8_root_frame [of f] s(5) by (simp add: kva_frame_def mem8_fields)
  moreover have ins: "insertable F 2" using s(1,2) by (force simp: insertable_def)
  moreover have "removable s nbase F (new_pte 2 (PTE_U OR PTE_V))"
    using s f(3) n by (auto simp: removable_def user_page_def)
  ultimately show ?thesis using s n ins by blast
qed

theorem page_insert_new_witness:
  "\<exists>s s'. page_insert mem8_root 2 0x200000 (PTE_U OR PTE_V) s = Inr (s', 0) \<and>
     leaf (pmem s') nbase 0x200000 = new_pte 2 (PTE_U OR PTE_V)"
proof -
  obtain f where f: "minv (mem8_state f) {3..<8}" "pt_wf (nbase + 8) (\<lambda>_ _. 0) nbase {3..<8}" using mem8_ok by blast
  have wf: "pt_wf (npage (mem8_state f)) (pmem (mem8_state f)) nbase {3..<8}" using f by (simp add: mem8_fields)
  have "\<not> bit (leaf (pmem (mem8_state f)) nbase 0x200000) 0" by (simp add: mem8_fields mem8_leaf)
  from page_insert_new [OF mem8_root_frame f(1) wf mem8_user _ _ this, of 2 "PTE_U OR PTE_V"]
  obtain s' where "page_insert mem8_root 2 0x200000 (PTE_U OR PTE_V) (mem8_state f) = Inr (s', 0)"
    "\<forall>la'. la' < USERTOP \<longrightarrow> leaf (pmem s') nbase la' =
       (if PPN la' = PPN 0x200000 then new_pte 2 (PTE_U OR PTE_V) else leaf (pmem (mem8_state f)) nbase la')"
    by auto
  then show ?thesis using mem8_user by (intro exI [of _ "mem8_state f"] exI [of _ s']) simp
qed

text \<open>C28: \<open>page_insert\<close> at an address that is mapped already replaces the mapping, whatever pages
  are free.  The page mapped before loses a reference, the new page gains one and no other
  translation changes; mapping the same page again only changes the permissions.  If the old page
  loses its last reference it is freed: it joins the free pages when one of them lies above it or
  none is free (\<open>insertable\<close>), and otherwise the free list is broken (no set of free pages is
  represented any more), the effect of \<open>default_free_pages\<close> above all free pages.\<close>

theorem page_insert_mapped:
  assumes "kva_frame s pd = Inr d" and "minv s F" and "pt_wf (npage s) (pmem s) d F" and "la < USERTOP"
    and "v = leaf (pmem s) d la" and "bit v 0" and "nbase \<le> tbl v" and "user_page s d F (pg_of v)"
  shows "\<exists>s'. page_insert pd page la perm s = Inr (s', 0) \<and>
    (if pg_of v = page \<or> refs s (pg_of v) \<noteq> 1 then minv s' F \<and> pt_wf (npage s') (pmem s') d F
     else if insertable F (pg_of v)
     then minv s' (insert (pg_of v) F) \<and> pt_wf (npage s') (pmem s') d (insert (pg_of v) F)
     else \<forall>F'. \<not> minv s' F') \<and>
    (\<forall>la'. la' < USERTOP \<longrightarrow>
       leaf (pmem s') d la' = (if PPN la' = PPN la then new_pte page perm else leaf (pmem s) d la')) \<and>
    (\<forall>i. refs s' i = refs s i + (if i = page then 1 else 0) - (if i = pg_of v then 1 else 0))"
proof (cases "pg_of v = page")
  case True
  have "tbl v = page + nbase" "page + nbase < npage s" using True assms(7,8) by (auto simp: user_page_def)
  from page_insert_same [OF assms(1,3,4,5,6) this] obtain s' where s': "page_insert pd page la perm s = Inr (s', 0)"
    "s' = s\<lparr>pmem := pmem s'\<rparr>" "pt_wf (npage s') (pmem s') d F" "maps_page s s' d la page perm" by blast
  have "minv s' F" by (subst s'(2)) (simp add: assms(2))
  moreover have "refs s' i = refs s i" for i using arg_cong [OF s'(2), of fa] by simp
  ultimately show ?thesis using s' True unfolding maps_page_def by (intro exI [of _ s']) simp
next
  case False
  have rm: "removable s d F v" using assms(6-8) by (simp add: removable_def)
  from page_insert_replace [OF assms(1-5) rm False, of perm] obtain s' where
    "page_insert pd page la perm s = Inr (s', 0)" "after_drop s F (pg_of v) s'"
    "pt_wf (npage s') (pmem s') d (drop_free s F (pg_of v))" "maps_page s s' d la page perm"
    "\<forall>i. refs s' i = (if i = page then refs s i + 1 else if i = pg_of v then refs s i - 1 else refs s i)" by blast
  with False show ?thesis unfolding maps_page_def drop_free_def after_drop_def
    by (intro exI [of _ s']) (auto split: if_splits)
qed

theorem page_insert_mapped_witness:
  "\<exists>s s'. page_insert mem8_root 0 0x200000 PTE_U s = Inr (s', 0) \<and>
     leaf (pmem s) nbase 0x200000 = new_pte 2 (PTE_U OR PTE_V) \<and>
     leaf (pmem s') nbase 0x200000 = new_pte 0 PTE_U"
proof -
  obtain s F where s: "kva_frame s mem8_root = Inr nbase" "minv s F" "pt_wf (npage s) (pmem s) nbase F"
    "leaf (pmem s) nbase 0x200000 = new_pte 2 (PTE_U OR PTE_V)"
    "removable s nbase F (new_pte 2 (PTE_U OR PTE_V))" using mem8_mapped [OF mem8_user] by blast
  from page_insert_mapped [OF s(1-3) mem8_user s(4) [symmetric] removableD(1-3) [OF s(5)], of 0 PTE_U] obtain s' where
    "page_insert mem8_root 0 0x200000 PTE_U s = Inr (s', 0)"
    "\<forall>la'. la' < USERTOP \<longrightarrow> leaf (pmem s') nbase la' =
       (if PPN la' = PPN 0x200000 then new_pte 0 PTE_U else leaf (pmem s) nbase la')"
    by blast
  with s(4) mem8_user show ?thesis by (intro exI [of _ s] exI [of _ s']) simp
qed

text \<open>C29: \<open>page_remove\<close> at a mapped address takes away exactly that mapping and one reference of the
  page, whatever pages are free.  When the last reference goes the page is given back
  to the allocator: it joins the free pages when one of them lies above it or none is free
  (\<open>insertable\<close>), and otherwise the free list is broken and represents no set of free pages.\<close>

theorem page_remove_correct:
  assumes "kva_frame s pd = Inr d" and "minv s F" and "pt_wf (npage s) (pmem s) d F" and "la < USERTOP"
    and "v = leaf (pmem s) d la" and "bit v 0" and "nbase \<le> tbl v" and "user_page s d F (pg_of v)"
  shows "\<exists>s'. page_remove pd la s = Inr s' \<and>
    (if refs s (pg_of v) \<noteq> 1 then minv s' F \<and> pt_wf (npage s') (pmem s') d F
     else if insertable F (pg_of v)
     then minv s' (insert (pg_of v) F) \<and> pt_wf (npage s') (pmem s') d (insert (pg_of v) F)
     else \<forall>F'. \<not> minv s' F') \<and>
    (\<forall>la'. la' < USERTOP \<longrightarrow> leaf (pmem s') d la' = (if PPN la' = PPN la then 0 else leaf (pmem s) d la')) \<and>
    (\<forall>i. refs s' i = (if i = pg_of v then refs s i - 1 else refs s i))"
proof -
  have rm: "removable s d F v" using assms(6-8) by (simp add: removable_def)
  from page_remove_total [OF assms(1-5) rm] show ?thesis unfolding drop_free_def after_drop_def
    by (auto split: if_splits)
qed

theorem page_remove_correct_witness:
  "\<exists>s s'. page_remove mem8_root 0x200000 s = Inr s' \<and>
     leaf (pmem s) nbase 0x200000 = new_pte 2 (PTE_U OR PTE_V) \<and> leaf (pmem s') nbase 0x200000 = 0"
proof -
  obtain s F where s: "kva_frame s mem8_root = Inr nbase" "minv s F" "pt_wf (npage s) (pmem s) nbase F"
    "leaf (pmem s) nbase 0x200000 = new_pte 2 (PTE_U OR PTE_V)"
    "removable s nbase F (new_pte 2 (PTE_U OR PTE_V))" using mem8_mapped [OF mem8_user] by blast
  from page_remove_correct [OF s(1-3) mem8_user s(4) [symmetric] removableD(1-3) [OF s(5)]] obtain s' where
    "page_remove mem8_root 0x200000 s = Inr s'"
    "\<forall>la'. la' < USERTOP \<longrightarrow> leaf (pmem s') nbase la' = (if PPN la' = PPN 0x200000 then 0 else leaf (pmem s) nbase la')"
    by blast
  with s(4) mem8_user show ?thesis by (intro exI [of _ s] exI [of _ s']) simp
qed

end
