(* ===== verification/Slob.thy ===== *)
theory Slob
  imports Pagetable
begin

text \<open>
  kern/mm/kmalloc.c: the SLOB allocator and \<open>kmalloc\<close>/\<open>kfree\<close> on top of it.  A pointer into the heap
  is a number (0 is NULL); the two fields of a \<open>slob_block\<close> header are the functions \<open>units\<close> and
  \<open>snext\<close> of the address, a \<open>bigblock\<close> is a record at its address.  The bytes of a page handed to the
  heap are these headers and the objects of the other components, and are not kept in \<open>pmem\<close>.
\<close>

section \<open>Small helpers\<close>

definition local_intr_save :: "mstate \<Rightarrow> bool \<times> mstate" where
  "local_intr_save s = (let (flag, st) = intr_save (sstatus s) in (flag, s\<lparr>sstatus := st\<rparr>))"

definition local_intr_restore :: "bool \<Rightarrow> mstate \<Rightarrow> mstate" where
  "local_intr_restore flag s = s\<lparr>sstatus := intr_restore flag (sstatus s)\<rparr>"

definition SLOB_UNIT :: nat where "SLOB_UNIT = 16"
definition SLOB_UNITS :: "nat \<Rightarrow> int" where "SLOB_UNITS sz = int ((sz + SLOB_UNIT - 1) div SLOB_UNIT)"
definition PAGE_SIZE :: nat where "PAGE_SIZE = 4096"
definition sizeof_bigblock :: nat where "sizeof_bigblock = 24"

definition ALIGN :: "addr \<Rightarrow> nat \<Rightarrow> addr" where
  "ALIGN a sz = unat ((of_nat a + of_nat sz - 1 :: u64) AND NOT (of_nat sz - 1))"

abbreviation slob_units :: "mstate \<Rightarrow> addr \<Rightarrow> int" where "slob_units s \<equiv> units (slob s)"
abbreviation slob_next :: "mstate \<Rightarrow> addr \<Rightarrow> addr" where "slob_next s \<equiv> snext (slob s)"

definition set_units :: "addr \<Rightarrow> int \<Rightarrow> mstate \<Rightarrow> mstate" where
  "set_units a v s = s\<lparr>slob := (slob s)\<lparr>units := (units (slob s))(a := v)\<rparr>\<rparr>"

definition set_snext :: "addr \<Rightarrow> addr \<Rightarrow> mstate \<Rightarrow> mstate" where
  "set_snext a v s = s\<lparr>slob := (slob s)\<lparr>snext := (snext (slob s))(a := v)\<rparr>\<rparr>"

definition set_slobfree :: "addr \<Rightarrow> mstate \<Rightarrow> mstate" where
  "set_slobfree a s = s\<lparr>slob := (slob s)\<lparr>slobfree := a\<rparr>\<rparr>"

text \<open>\<open>b + n\<close> on a \<open>slob_t *\<close>.\<close>

definition unit_add :: "addr \<Rightarrow> int \<Rightarrow> addr" where "unit_add b n = nat (int b + int SLOB_UNIT * n)"

text \<open>The initial values of \<open>arena\<close>, \<open>slobfree\<close> and \<open>bigblocks\<close>; \<open>arena\<close> is the address of the variable.\<close>

definition slob_start :: "addr \<Rightarrow> slob_state \<Rightarrow> slob_state" where
  "slob_start arena h = h\<lparr>units := (units h)(arena := 1), snext := (snext h)(arena := arena),
     slobfree := arena, bigblocks := 0\<rparr>"

section \<open>Pages for the heap\<close>

definition slob_get_free_pages :: "nat \<Rightarrow> mstate \<Rightarrow> (mstate \<times> addr) res" where
  "slob_get_free_pages order s =
     bindR (alloc_pages (2 ^ order) s) (\<lambda>(s, page).
     case page of
       None \<Rightarrow> Inr (s, 0)
     | Some page \<Rightarrow> bindR (page2kva s page) (\<lambda>kva. Inr (s, unat kva)))"

definition slob_free_pages :: "addr \<Rightarrow> nat \<Rightarrow> mstate \<Rightarrow> mstate res" where
  "slob_free_pages kva order s =
     bindR (kva2page s (of_nat kva)) (\<lambda>page. free_pages page (2 ^ order) s)"

section \<open>Freeing a block\<close>

text \<open>The loop that looks for the reinsertion point of \<open>b\<close>.\<close>

partial_function (option) slob_find :: "(addr \<Rightarrow> addr) \<Rightarrow> addr \<Rightarrow> addr \<Rightarrow> addr option" where
  "slob_find nxt b cur =
     (if b > cur \<and> b < nxt cur then Some cur
      else if cur \<ge> nxt cur \<and> (b > cur \<or> b < nxt cur) then Some cur
      else slob_find nxt b (nxt cur))"

declare slob_find.simps [code]

definition slob_link :: "addr \<Rightarrow> addr \<Rightarrow> mstate \<Rightarrow> mstate" where
  "slob_link b cur s =
     (let s = (if unit_add b (slob_units s b) = slob_next s cur
               then let n = slob_next s cur;
                        s = set_units b (slob_units s b + slob_units s n) s
                    in set_snext b (slob_next s n) s
               else set_snext b (slob_next s cur) s);
          s = (if unit_add cur (slob_units s cur) = b
               then let s = set_units cur (slob_units s cur + slob_units s b) s
                    in set_snext cur (slob_next s b) s
               else set_snext cur b s)
      in set_slobfree cur s)"

definition slob_free :: "addr \<Rightarrow> nat \<Rightarrow> mstate \<Rightarrow> mstate res" where
  "slob_free block sz s =
     (if block = 0 then Inr s
      else let s = (if sz \<noteq> 0 then set_units block (SLOB_UNITS sz) s else s);
               (fl, s) = local_intr_save s
           in bindR (returned (slob_find (slob_next s) block (slobfree (slob s)))) (\<lambda>cur.
              Inr (local_intr_restore fl (slob_link block cur s))))"

section \<open>Allocating a block\<close>

text \<open>The body of the loop of \<open>slob_alloc\<close> once a block with room is found.\<close>

definition slob_take :: "int \<Rightarrow> int \<Rightarrow> addr \<Rightarrow> addr \<Rightarrow> addr \<Rightarrow> mstate \<Rightarrow> mstate \<times> addr" where
  "slob_take n delta aligned prev cur s =
     (let (prev, cur, s) =
        (if delta \<noteq> 0 then
           let s = set_units aligned (slob_units s cur - delta) s;
               s = set_snext aligned (slob_next s cur) s;
               s = set_snext cur aligned s;
               s = set_units cur delta s
           in (cur, aligned, s)
         else (prev, cur, s));
        s = (if slob_units s cur = n then set_snext prev (slob_next s cur) s
             else let rest = unit_add cur n;
                      s = set_snext prev rest s;
                      s = set_units rest (slob_units s cur - n) s;
                      s = set_snext rest (slob_next s cur) s
                  in set_units cur n s)
      in (set_slobfree prev s, cur))"

definition slob_aligned :: "nat \<Rightarrow> addr \<Rightarrow> addr" where
  "slob_aligned align cur = (if align \<noteq> 0 then ALIGN cur align else 0)"

definition slob_delta :: "nat \<Rightarrow> addr \<Rightarrow> int" where
  "slob_delta align cur = (if align \<noteq> 0 then (int (slob_aligned align cur) - int cur) div int SLOB_UNIT else 0)"

partial_function (option) slob_alloc_loop ::
  "nat \<Rightarrow> nat \<Rightarrow> int \<Rightarrow> bool \<Rightarrow> addr \<Rightarrow> addr \<Rightarrow> mstate \<Rightarrow> (mstate \<times> addr) res option" where
  "slob_alloc_loop sz align n fl prev cur s =
     (if slob_units s cur \<ge> n + slob_delta align cur then
           (let r = slob_take n (slob_delta align cur) (slob_aligned align cur) prev cur s
            in Some (Inr (local_intr_restore fl (fst r), snd r)))
         else if cur = slobfree (slob s) then
           (let s = local_intr_restore fl s
            in if sz = PAGE_SIZE then Some (Inr (s, 0))
               else (case slob_get_free_pages 0 s of
                  Inl e \<Rightarrow> Some (Inl e)
                | Inr r \<Rightarrow>
                    if snd r = 0 then Some (Inr (fst r, 0))
                    else (case slob_free (snd r) PAGE_SIZE (fst r) of
                       Inl e \<Rightarrow> Some (Inl e)
                     | Inr s \<Rightarrow>
                         (let p = local_intr_save s;
                              cur = slobfree (slob (snd p))
                          in slob_alloc_loop sz align n (fst p) cur (slob_next (snd p) cur) (snd p)))))
         else slob_alloc_loop sz align n fl cur (slob_next s cur) s)"

declare slob_alloc_loop.simps [code]

definition slob_alloc :: "nat \<Rightarrow> nat \<Rightarrow> mstate \<Rightarrow> (mstate \<times> addr) res" where
  "slob_alloc sz align s =
     bindR (assertR (sz + SLOB_UNIT < PAGE_SIZE) ''(size + SLOB_UNIT) < PAGE_SIZE'') (\<lambda>_.
     let n = SLOB_UNITS sz;
         (fl, s) = local_intr_save s;
         prev = slobfree (slob s)
     in case slob_alloc_loop sz align n fl prev (slob_next s prev) s of
          None \<Rightarrow> Inl Hang | Some r \<Rightarrow> r)"

section \<open>kmalloc and kfree\<close>

text \<open>\<open>find_order\<close> takes an \<open>int\<close>: the caller's \<open>size_t\<close> is truncated.\<close>

function find_order :: "int \<Rightarrow> nat" where
  "find_order sz = (if sz > 4096 then Suc (find_order (sz div 2)) else 0)"
  by pat_completeness auto
termination
  by (relation "measure nat") auto

declare find_order.simps [simp del]

definition upd_bb :: "addr \<Rightarrow> (bigblock \<Rightarrow> bigblock) \<Rightarrow> mstate \<Rightarrow> mstate" where
  "upd_bb a f s = s\<lparr>slob := (slob s)\<lparr>bbs := (bbs (slob s))(a := f (bbs (slob s) a))\<rparr>\<rparr>"

definition kmalloc :: "nat \<Rightarrow> mstate \<Rightarrow> (mstate \<times> addr) res" where
  "kmalloc sz s =
     (if sz < PAGE_SIZE - SLOB_UNIT then
        bindR (slob_alloc (sz + SLOB_UNIT) 0 s) (\<lambda>(s, m).
        Inr (s, if m \<noteq> 0 then unit_add m 1 else 0))
      else
        bindR (slob_alloc sizeof_bigblock 0 s) (\<lambda>(s, bb).
        if bb = 0 then Inr (s, 0)
        else
          let order = find_order (sint (of_nat sz :: s32));
              s = upd_bb bb (\<lambda>b. b\<lparr>bb_order := order\<rparr>) s in
          bindR (slob_get_free_pages order s) (\<lambda>(s, pg).
          let s = upd_bb bb (\<lambda>b. b\<lparr>bb_pages := pg\<rparr>) s in
          if pg \<noteq> 0 then
            let (fl, s) = local_intr_save s;
                s = upd_bb bb (\<lambda>b. b\<lparr>bb_next := bigblocks (slob s)\<rparr>) s;
                s = s\<lparr>slob := (slob s)\<lparr>bigblocks := bb\<rparr>\<rparr>
            in Inr (local_intr_restore fl s, pg)
          else bindR (slob_free bb sizeof_bigblock s) (\<lambda>s. Inr (s, 0)))))"

text \<open>
  The scan of \<open>kfree\<close> over \<open>bigblocks\<close>: \<open>lst\<close> (\<open>last\<close> in the source) is the block whose \<open>next\<close> field points to \<open>bb\<close>, or 0 for
  the variable \<open>bigblocks\<close> itself.
\<close>

partial_function (option) bb_scan :: "(addr \<Rightarrow> bigblock) \<Rightarrow> addr \<Rightarrow> addr \<Rightarrow> addr \<Rightarrow> (addr \<times> addr) option option" where
  "bb_scan B block lst bb =
     (if bb = 0 then Some None
      else if bb_pages (B bb) = block then Some (Some (lst, bb))
      else bb_scan B block bb (bb_next (B bb)))"

declare bb_scan.simps [code]

definition kfree :: "addr \<Rightarrow> mstate \<Rightarrow> mstate res" where
  "kfree block s =
     (if block = 0 then Inr s
      else if block mod PAGE_SIZE = 0 then
        let (fl, s) = local_intr_save s in
        bindR (returned (bb_scan (bbs (slob s)) block 0 (bigblocks (slob s)))) (\<lambda>r.
        case r of
          Some (lst, bb) \<Rightarrow>
            let nxt = bb_next (bbs (slob s) bb);
                s = (if lst = 0 then s\<lparr>slob := (slob s)\<lparr>bigblocks := nxt\<rparr>\<rparr>
                     else upd_bb lst (\<lambda>b. b\<lparr>bb_next := nxt\<rparr>) s);
                s = local_intr_restore fl s
            in bindR (slob_free_pages block (bb_order (bbs (slob s) bb)) s) (\<lambda>s.
               slob_free bb sizeof_bigblock s)
        | None \<Rightarrow> slob_free (unit_add block (- 1)) 0 (local_intr_restore fl s))
      else slob_free (unit_add block (- 1)) 0 s)"

definition ksize :: "addr \<Rightarrow> mstate \<Rightarrow> int res" where
  "ksize block s =
     (if block = 0 then Inr 0
      else if block mod PAGE_SIZE = 0 then
        bindR (returned (bb_scan (bbs (slob s)) block 0 (bigblocks (slob s)))) (\<lambda>r.
        case r of
          Some (lst, bb) \<Rightarrow> Inr (int PAGE_SIZE * 2 ^ bb_order (bbs (slob s) bb))
        | None \<Rightarrow> Inr (slob_units s (unit_add block (- 1)) * int SLOB_UNIT))
      else Inr (slob_units s (unit_add block (- 1)) * int SLOB_UNIT))"

definition slob_allocated :: nat where "slob_allocated = 0"
definition kallocated :: nat where "kallocated = slob_allocated"

end
