(* ===== verification/Kstring.thy ===== *)
theory Kstring
  imports Kern_Prelude
begin

text \<open>
  libs/string.c, libs/hash.c and libs/rand.c.  Memory is a function from 64-bit addresses to bytes,
  pointer arithmetic wraps at 64 bits, and \<open>char\<close> is unsigned as in the RISC-V ABI.  A loop that stops
  at a NUL byte may run forever and returns an option; a loop that counts a \<open>size_t\<close> down is
  recursion on a natural number.
\<close>

type_synonym bmem = "u64 \<Rightarrow> u8"

section \<open>String functions\<close>

partial_function (option) strlen_loop :: "bmem \<Rightarrow> u64 \<Rightarrow> u64 \<Rightarrow> u64 option" where
  "strlen_loop m s cnt = (if m s \<noteq> 0 then strlen_loop m (s + 1) (cnt + 1) else Some cnt)"

declare strlen_loop.simps [code]

definition strlen :: "bmem \<Rightarrow> u64 \<Rightarrow> u64 option" where "strlen m s = strlen_loop m s 0"

fun strnlen_loop :: "bmem \<Rightarrow> u64 \<Rightarrow> nat \<Rightarrow> nat \<Rightarrow> nat" where
  "strnlen_loop m s 0 cnt = cnt"
| "strnlen_loop m s (Suc k) cnt = (if m s \<noteq> 0 then strnlen_loop m (s + 1) k (cnt + 1) else cnt)"

definition strnlen :: "bmem \<Rightarrow> u64 \<Rightarrow> nat \<Rightarrow> nat" where "strnlen m s len = strnlen_loop m s len 0"

partial_function (option) strcpy_loop :: "bmem \<Rightarrow> u64 \<Rightarrow> u64 \<Rightarrow> bmem option" where
  "strcpy_loop m p src =
     (let c = m src; m = m(p := c) in if c \<noteq> 0 then strcpy_loop m (p + 1) (src + 1) else Some m)"

declare strcpy_loop.simps [code]

definition strcpy :: "bmem \<Rightarrow> u64 \<Rightarrow> u64 \<Rightarrow> (bmem \<times> u64) option" where
  "strcpy m dst src = map_option (\<lambda>m. (m, dst)) (strcpy_loop m dst src)"

fun strncpy_loop :: "bmem \<Rightarrow> u64 \<Rightarrow> u64 \<Rightarrow> nat \<Rightarrow> bmem" where
  "strncpy_loop m p src 0 = m"
| "strncpy_loop m p src (Suc len) =
     (let c = m src; m = m(p := c) in strncpy_loop m (p + 1) (if c \<noteq> 0 then src + 1 else src) len)"

definition strncpy :: "bmem \<Rightarrow> u64 \<Rightarrow> u64 \<Rightarrow> nat \<Rightarrow> bmem \<times> u64" where
  "strncpy m dst src len = (strncpy_loop m dst src len, dst)"

definition byte_diff :: "u8 \<Rightarrow> u8 \<Rightarrow> int" where "byte_diff a b = uint a - uint b"

partial_function (option) strcmp :: "bmem \<Rightarrow> u64 \<Rightarrow> u64 \<Rightarrow> int option" where
  "strcmp m s1 s2 =
     (if m s1 \<noteq> 0 \<and> m s1 = m s2 then strcmp m (s1 + 1) (s2 + 1)
      else Some (byte_diff (m s1) (m s2)))"

declare strcmp.simps [code]

fun strncmp :: "bmem \<Rightarrow> u64 \<Rightarrow> u64 \<Rightarrow> nat \<Rightarrow> int" where
  "strncmp m s1 s2 0 = 0"
| "strncmp m s1 s2 (Suc n) =
     (if m s1 \<noteq> 0 \<and> m s1 = m s2 then strncmp m (s1 + 1) (s2 + 1) n
      else byte_diff (m s1) (m s2))"

partial_function (option) strchr :: "bmem \<Rightarrow> u64 \<Rightarrow> u8 \<Rightarrow> u64 option" where
  "strchr m s c = (if m s \<noteq> 0 then if m s = c then Some s else strchr m (s + 1) c else Some 0)"

declare strchr.simps [code]

partial_function (option) strfind :: "bmem \<Rightarrow> u64 \<Rightarrow> u8 \<Rightarrow> u64 option" where
  "strfind m s c = (if m s \<noteq> 0 then if m s = c then Some s else strfind m (s + 1) c else Some s)"

declare strfind.simps [code]

section \<open>strtol\<close>

definition ch :: "char \<Rightarrow> u8" where "ch c = of_char c"

partial_function (option) skip_blank :: "bmem \<Rightarrow> u64 \<Rightarrow> u64 option" where
  "skip_blank m s = (if m s = ch (CHR '' '') \<or> m s = ch (CHR 0x09) then skip_blank m (s + 1) else Some s)"

declare skip_blank.simps [code]

definition digit_val :: "u8 \<Rightarrow> int option" where
  "digit_val c =
     (if ch (CHR ''0'') \<le> c \<and> c \<le> ch (CHR ''9'') then Some (uint c - uint (ch (CHR ''0'')))
      else if ch (CHR ''a'') \<le> c \<and> c \<le> ch (CHR ''z'') then Some (uint c - uint (ch (CHR ''a'')) + 10)
      else if ch (CHR ''A'') \<le> c \<and> c \<le> ch (CHR ''Z'') then Some (uint c - uint (ch (CHR ''A'')) + 10)
      else None)"

text \<open>The digit loop; \<open>long\<close> arithmetic is taken to wrap.\<close>

partial_function (option) digit_loop :: "bmem \<Rightarrow> u64 \<Rightarrow> int \<Rightarrow> u64 \<Rightarrow> (u64 \<times> u64) option" where
  "digit_loop m s base val =
     (case digit_val (m s) of
        None \<Rightarrow> Some (s, val)
      | Some dig \<Rightarrow>
          if dig \<ge> base then Some (s, val)
          else digit_loop m (s + 1) base (val * of_int base + of_int dig))"

declare digit_loop.simps [code]

definition strtol :: "bmem \<Rightarrow> u64 \<Rightarrow> int \<Rightarrow> (u64 \<times> u64) option" where
  "strtol m s base =
     (case skip_blank m s of
        None \<Rightarrow> None
      | Some s \<Rightarrow>
          let (s, neg) = (if m s = ch (CHR ''+'') then (s + 1, False)
                          else if m s = ch (CHR ''-'') then (s + 1, True) else (s, False));
              (s, base) = (if (base = 0 \<or> base = 16) \<and> m s = ch (CHR ''0'') \<and> m (s + 1) = ch (CHR ''x'')
                           then (s + 2, 16)
                           else if base = 0 \<and> m s = ch (CHR ''0'') then (s + 1, 8)
                           else if base = 0 then (s, 10) else (s, base))
          in map_option (\<lambda>(endptr, val). (endptr, if neg then - val else val)) (digit_loop m s base 0))"

section \<open>Memory functions\<close>

fun memset :: "bmem \<Rightarrow> u64 \<Rightarrow> u8 \<Rightarrow> nat \<Rightarrow> bmem" where
  "memset m p c 0 = m"
| "memset m p c (Suc n) = memset (m(p := c)) (p + 1) c n"

fun copy_up :: "bmem \<Rightarrow> u64 \<Rightarrow> u64 \<Rightarrow> nat \<Rightarrow> bmem" where
  "copy_up m d s 0 = m"
| "copy_up m d s (Suc n) = copy_up (m(d := m s)) (d + 1) (s + 1) n"

fun copy_down :: "bmem \<Rightarrow> u64 \<Rightarrow> u64 \<Rightarrow> nat \<Rightarrow> bmem" where
  "copy_down m d s 0 = m"
| "copy_down m d s (Suc n) = copy_down (m(d - 1 := m (s - 1))) (d - 1) (s - 1) n"

definition memmove :: "bmem \<Rightarrow> u64 \<Rightarrow> u64 \<Rightarrow> nat \<Rightarrow> bmem" where
  "memmove m d s n =
     (if s < d \<and> s + of_nat n > d then copy_down m (d + of_nat n) (s + of_nat n) n
      else copy_up m d s n)"

definition memcpy :: "bmem \<Rightarrow> u64 \<Rightarrow> u64 \<Rightarrow> nat \<Rightarrow> bmem" where "memcpy m d s n = copy_up m d s n"

fun memcmp :: "bmem \<Rightarrow> u64 \<Rightarrow> u64 \<Rightarrow> nat \<Rightarrow> int" where
  "memcmp m s1 s2 0 = 0"
| "memcmp m s1 s2 (Suc n) =
     (if m s1 \<noteq> m s2 then byte_diff (m s1) (m s2) else memcmp m (s1 + 1) (s2 + 1) n)"

section \<open>Hashing and random numbers\<close>

definition GOLDEN_RATIO_PRIME_32 :: u64 where "GOLDEN_RATIO_PRIME_32 = 0x9e370001"

definition hash32 :: "u32 \<Rightarrow> nat \<Rightarrow> u32" where
  "hash32 val bits = (let hash = (ucast (ucast val * GOLDEN_RATIO_PRIME_32) :: u32)
     in drop_bit (32 - bits) hash)"

definition rand_step :: "u64 \<Rightarrow> u64 \<times> u32" where
  "rand_step next =
     (let next = (next * 0x5DEECE66D + 0xB) AND (2 ^ 48 - 1);
          result = drop_bit 12 next
      in (next, ucast (result mod 0x80000000)))"

definition srand :: "u32 \<Rightarrow> u64" where "srand seed = ucast seed"

section \<open>C strings\<close>

text \<open>The bytes \<open>xs\<close> followed by a NUL lie at \<open>p\<close>.\<close>

fun cstr :: "bmem \<Rightarrow> u64 \<Rightarrow> u8 list \<Rightarrow> bool" where
  "cstr m p [] \<longleftrightarrow> m p = 0"
| "cstr m p (x # xs) \<longleftrightarrow> m p = x \<and> x \<noteq> 0 \<and> cstr m (p + 1) xs"

lemma strlen_loop_cstr: "cstr m p xs \<Longrightarrow> strlen_loop m p c = Some (c + of_nat (length xs))"
  by (induction xs arbitrary: p c) (simp_all add: strlen_loop.simps algebra_simps)

lemma strnlen_loop_cstr: "cstr m p xs \<Longrightarrow> strnlen_loop m p n c = c + min n (length xs)"
proof (induction xs arbitrary: p c n)
  case Nil
  then show ?case by (cases n) auto
next
  case (Cons x xs)
  then show ?case by (cases n) auto
qed

lemma cstr_shift: "cstr m p xs \<Longrightarrow> (\<And>i. i \<le> length xs \<Longrightarrow> m' (q + of_nat i) = m (p + of_nat i)) \<Longrightarrow> cstr m' q xs"
proof (induction xs arbitrary: p q)
  case Nil
  then show ?case using Nil.prems(2) [of 0] by simp
next
  case (Cons x xs)
  have "cstr m' (q + 1) xs"
  proof (rule Cons.IH)
    show "cstr m (p + 1) xs" using Cons.prems by simp
    fix i assume "i \<le> length xs"
    then show "m' (q + 1 + of_nat i) = m (p + 1 + of_nat i)"
      using Cons.prems(2) [of "Suc i"] by (simp add: algebra_simps)
  qed
  with Cons.prems(1) Cons.prems(2) [of 0] show ?case by simp
qed

lemma cstr_cong: "cstr m p xs \<Longrightarrow> (\<And>i. i \<le> length xs \<Longrightarrow> m' (p + of_nat i) = m (p + of_nat i)) \<Longrightarrow> cstr m' p xs"
  by (rule cstr_shift)

lemma of_nat_word_inj: "i < 2 ^ 64 \<Longrightarrow> j < 2 ^ 64 \<Longrightarrow> (of_nat i :: u64) = of_nat j \<longleftrightarrow> i = j"
  by (simp add: word_unat_eq_iff unsigned_of_nat take_bit_nat_eq_self)

section \<open>Copying\<close>

lemma copy_up_frame: "(\<And>i. i < n \<Longrightarrow> a \<noteq> d + of_nat i) \<Longrightarrow> copy_up m d s n a = m a"
proof (induction n arbitrary: m d s)
  case (Suc n)
  have "a \<noteq> d + 1 + of_nat i" if "i < n" for i using Suc.prems [of "Suc i"] that by (simp add: algebra_simps)
  moreover have "a \<noteq> d" using Suc.prems [of 0] by simp
  ultimately show ?case using Suc.IH by simp
qed simp

lemma copy_up_data:
  assumes "n \<le> 2 ^ 64" and "\<And>i j. i < j \<Longrightarrow> j < n \<Longrightarrow> d + of_nat i \<noteq> s + of_nat j" and "i < n"
  shows "copy_up m d s n (d + of_nat i) = m (s + of_nat i)"
  using assms
proof (induction n arbitrary: m d s i)
  case (Suc n)
  show ?case
  proof (cases i)
    case 0
    have "d \<noteq> d + 1 + of_nat k" if "k < n" for k
    proof
      assume "d = d + 1 + of_nat k"
      then have "of_nat (Suc k) = (of_nat 0 :: u64)" by (simp add: algebra_simps)
      with of_nat_word_inj [of "Suc k" 0] that Suc.prems(1) show False by simp
    qed
    with 0 copy_up_frame [of n d "d + 1" "m(d := m s)" "s + 1"] show ?thesis by simp
  next
    case (Suc k)
    have "copy_up (m(d := m s)) (d + 1) (s + 1) n (d + 1 + of_nat k) = (m(d := m s)) (s + 1 + of_nat k)"
    proof (rule Suc.IH)
      fix i j assume "i < j" "j < n"
      with Suc.prems(2) [of "Suc i" "Suc j"] show "d + 1 + of_nat i \<noteq> s + 1 + of_nat j" by (simp add: algebra_simps)
    qed (use Suc.prems \<open>i = Suc k\<close> in auto)
    moreover have "s + 1 + of_nat k \<noteq> d" using Suc.prems(2) [of 0 "Suc k"] Suc.prems(3) Suc by (auto simp: algebra_simps)
    ultimately show ?thesis using Suc by (simp add: algebra_simps)
  qed
qed simp

text \<open>Copying downwards from the end, in terms of the start addresses.\<close>

lemma copy_down_frame:
  "(\<And>i. i < n \<Longrightarrow> a \<noteq> d + of_nat i) \<Longrightarrow> copy_down m (d + of_nat n) (s + of_nat n) n a = m a"
proof (induction n arbitrary: m)
  case (Suc n)
  have "d + of_nat (Suc n) - 1 = d + of_nat n" "s + of_nat (Suc n) - 1 = s + of_nat n" by (simp_all add: algebra_simps)
  moreover have "a \<noteq> d + of_nat n" using Suc.prems [of n] by simp
  ultimately show ?case using Suc by simp
qed simp

lemma copy_down_data:
  assumes "n \<le> 2 ^ 64" and "\<And>i j. j < i \<Longrightarrow> i < n \<Longrightarrow> d + of_nat i \<noteq> s + of_nat j" and "i < n"
  shows "copy_down m (d + of_nat n) (s + of_nat n) n (d + of_nat i) = m (s + of_nat i)"
  using assms
proof (induction n arbitrary: m i)
  case (Suc n)
  have e: "d + of_nat (Suc n) - 1 = d + of_nat n" "s + of_nat (Suc n) - 1 = s + of_nat n" by (simp_all add: algebra_simps)
  let ?m = "m(d + of_nat n := m (s + of_nat n))"
  show ?case
  proof (cases "i = n")
    case True
    have "d + of_nat n \<noteq> d + of_nat k" if "k < n" for k
      using of_nat_word_inj [of n k] that Suc.prems(1) by simp
    with True copy_down_frame [of n "d + of_nat n" d ?m s] e show ?thesis by simp
  next
    case False
    then have i: "i < n" using Suc.prems by simp
    have "copy_down ?m (d + of_nat n) (s + of_nat n) n (d + of_nat i) = ?m (s + of_nat i)"
      using i Suc.prems by (intro Suc.IH) auto
    moreover have "s + of_nat i \<noteq> d + of_nat n" using Suc.prems(2) [of i n] i by auto
    ultimately show ?thesis using e by simp
  qed
qed simp

lemma word_offsets:
  fixes d s :: u64
  assumes "unat d + n \<le> 2 ^ 64" and "unat s + n \<le> 2 ^ 64" and "i < n" and "j < n"
  shows "d + of_nat i = s + of_nat j \<longleftrightarrow> unat d + i = unat s + j"
proof -
  have "unat (d + of_nat i) = unat d + i" "unat (s + of_nat j) = unat s + j"
    using assms by (simp_all add: unat_word_ariths(1) unsigned_of_nat take_bit_nat_eq_self)
  then show ?thesis by (metis word_unat_eq_iff)
qed

lemma memmove_ok:
  assumes "unat d + n < 2 ^ 64" and "unat s + n < 2 ^ 64"
  shows "i < n \<Longrightarrow> memmove m d s n (d + of_nat i) = m (s + of_nat i)"
    and "(\<And>i. i < n \<Longrightarrow> a \<noteq> d + of_nat i) \<Longrightarrow> memmove m d s n a = m a"
proof -
  have off: "d + of_nat i = s + of_nat j \<longleftrightarrow> unat d + i = unat s + j" if "i < n" "j < n" for i j
    using word_offsets [OF _ _ that] assms by simp
  have "unat (s + of_nat n) = unat s + n"
    using assms by (simp add: unat_word_ariths(1) unsigned_of_nat take_bit_nat_eq_self)
  then have dir: "s < d \<and> s + of_nat n > d \<longleftrightarrow> unat s < unat d \<and> unat d < unat s + n"
    by (simp add: word_less_nat_alt)
  show "memmove m d s n (d + of_nat i) = m (s + of_nat i)" if "i < n"
    using dir off that assms unfolding memmove_def
    by (cases "s < d \<and> s + of_nat n > d") (auto intro!: copy_down_data copy_up_data)
  show "memmove m d s n a = m a" if "\<And>i. i < n \<Longrightarrow> a \<noteq> d + of_nat i"
    using that unfolding memmove_def by (simp add: copy_down_frame copy_up_frame)
qed

lemma strcpy_loop_eq:
  assumes "cstr m s xs" and "\<And>i j. i < j \<Longrightarrow> j \<le> length xs \<Longrightarrow> d + of_nat i \<noteq> s + of_nat j"
  shows "strcpy_loop m d s = Some (copy_up m d s (Suc (length xs)))"
  using assms
proof (induction xs arbitrary: m d s)
  case Nil
  then show ?case by (simp add: strcpy_loop.simps fun_upd_def)
next
  case (Cons x xs)
  let ?m = "m(d := m s)"
  have sep: "d \<noteq> s + 1 + of_nat i" if "i \<le> length xs" for i
    using Cons.prems(2) [of 0 "Suc i"] that by (simp add: algebra_simps)
  have "cstr ?m (s + 1) xs"
    using Cons.prems(1) sep by (intro cstr_cong [of m "s + 1" xs ?m]) auto
  moreover have "d + 1 + of_nat i \<noteq> s + 1 + of_nat j" if "i < j" "j \<le> length xs" for i j
    using Cons.prems(2) [of "Suc i" "Suc j"] that by (simp add: algebra_simps)
  ultimately have "strcpy_loop ?m (d + 1) (s + 1) = Some (copy_up ?m (d + 1) (s + 1) (Suc (length xs)))"
    by (rule Cons.IH)
  with Cons.prems(1) show ?case by (subst strcpy_loop.simps) simp
qed

lemma byte_diff_sign: "byte_diff a b = 0 \<longleftrightarrow> a = b" "byte_diff a b < 0 \<longleftrightarrow> a < b"
  by (auto simp: byte_diff_def word_uint_eq_iff word_less_def)

lemma strcmp_eq:
  "cstr m p xs \<Longrightarrow> cstr m q ys \<Longrightarrow>
     \<exists>r. strcmp m p q = Some r \<and> (r = 0 \<longleftrightarrow> xs = ys) \<and> (r < 0 \<longleftrightarrow> ord_class.lexordp xs ys)"
proof (induction xs arbitrary: p q ys)
  case Nil
  then show ?case
    by (cases ys) (auto simp: strcmp.simps [of m p q] byte_diff_sign word_gt_0)
next
  case (Cons x xs)
  show ?case
  proof (cases ys)
    case Nil
    with Cons.prems show ?thesis by (auto simp: strcmp.simps [of m p q] byte_diff_sign)
  next
    case ys: (Cons y zs)
    show ?thesis
    proof (cases "x = y")
      case True
      with ys Cons.prems have "cstr m (p + 1) xs" "cstr m (q + 1) zs" "m p \<noteq> 0" "m p = m q" by auto
      with Cons.IH [OF this(1,2)] True ys show ?thesis by (simp add: strcmp.simps [of m p q])
    next
      case False
      with ys Cons.prems have "strcmp m p q = Some (byte_diff x y)" by (auto simp: strcmp.simps [of m p q])
      with False ys show ?thesis by (auto simp: byte_diff_sign)
    qed
  qed
qed

lemma memset_frame: "(\<And>i. i < n \<Longrightarrow> a \<noteq> p + of_nat i) \<Longrightarrow> memset m p c n a = m a"
proof (induction n arbitrary: m p)
  case (Suc n)
  have "a \<noteq> p + 1 + of_nat i" if "i < n" for i using Suc.prems [of "Suc i"] that by (simp add: algebra_simps)
  moreover have "a \<noteq> p" using Suc.prems [of 0] by simp
  ultimately show ?case using Suc.IH by simp
qed simp

lemma memset_data: "i < n \<Longrightarrow> memset m p c n (p + of_nat i) = c"
proof (induction n arbitrary: m p i)
  case (Suc n)
  show ?case
  proof (cases "\<exists>j<n. p + of_nat i = p + 1 + of_nat j")
    case True
    then obtain j where "j < n" "p + of_nat i = p + 1 + of_nat j" by blast
    with Suc.IH [of j "m(p := c)" "p + 1"] show ?thesis by (simp only: memset.simps)
  next
    case False
    have "i = 0"
    proof (rule ccontr)
      assume "i \<noteq> 0"
      then obtain j where "i = Suc j" by (cases i) auto
      with False Suc.prems show False by (auto simp: algebra_simps)
    qed
    with False memset_frame [of n p "p + 1" "m(p := c)" c] show ?thesis by simp
  qed
qed simp

lemma memcmp_zero: "memcmp m s1 s2 n = 0 \<longleftrightarrow> (\<forall>i<n. m (s1 + of_nat i) = m (s2 + of_nat i))"
proof (induction n arbitrary: s1 s2)
  case (Suc n)
  have "(\<forall>i<Suc n. P i) \<longleftrightarrow> P 0 \<and> (\<forall>i<n. P (Suc i))" for P by (auto simp: less_Suc_eq_0_disj)
  with Suc show ?case by (simp add: byte_diff_sign algebra_simps)
qed simp

lemma hash32_bound: "bits \<le> 32 \<Longrightarrow> unat (hash32 val bits) < 2 ^ bits"
proof -
  assume b: "bits \<le> 32"
  define h :: u32 where "h = ucast (ucast val * GOLDEN_RATIO_PRIME_32)"
  have lt: "unat h < 2 ^ 32" using unsigned_less [of h] by simp
  moreover have "unat (drop_bit (32 - bits) h) = unat h div 2 ^ (32 - bits)"
    using lt by (simp only: unsigned_drop_bit_eq) (simp add: drop_bit_eq_div take_bit_nat_eq_self)
  moreover have "(2 :: nat) ^ 32 = 2 ^ bits * 2 ^ (32 - bits)" using b by (simp flip: power_add)
  ultimately show ?thesis by (simp add: hash32_def h_def [symmetric] less_mult_imp_div_less)
qed

section \<open>Properties\<close>

text \<open>C34: \<open>memmove\<close> copies \<open>n\<close> bytes to \<open>d\<close> and nothing else, whether or not the two regions overlap,
  as long as neither wraps around the address space.\<close>

theorem memmove_correct:
  assumes "unat d + n < 2 ^ 64" and "unat s + n < 2 ^ 64"
  shows "(\<forall>i<n. memmove m d s n (d + of_nat i) = m (s + of_nat i)) \<and>
     (\<forall>a. (\<forall>i<n. a \<noteq> d + of_nat i) \<longrightarrow> memmove m d s n a = m a)"
  using memmove_ok [OF assms] by blast

theorem memmove_correct_witness:
  "memmove (\<lambda>a. ucast a) 101 100 3 101 = (100 :: u8) \<and> memmove (\<lambda>a. ucast a) 101 100 3 103 = (102 :: u8) \<and>
   memmove (\<lambda>a. ucast a) 101 100 3 100 = (100 :: u8)"
proof -
  have data: "\<forall>i<3. memmove (\<lambda>a. ucast a) 101 100 3 (101 + of_nat i) = (ucast (100 + of_nat i :: u64) :: u8)"
    and frame: "\<forall>a. (\<forall>i<3. a \<noteq> 101 + of_nat i) \<longrightarrow> memmove (\<lambda>a. ucast a) 101 100 3 a = (ucast a :: u8)"
    using memmove_correct [of 101 3 100 "\<lambda>a. ucast a"] by simp_all
  have "\<forall>i<3. (100 :: u64) \<noteq> 101 + of_nat i" by (auto simp: less_Suc_eq numeral_3_eq_3)
  with frame have "memmove (\<lambda>a. ucast a) 101 100 3 100 = (ucast (100 :: u64) :: u8)" by blast
  then show ?thesis using data [rule_format, of 0] data [rule_format, of 2] by simp
qed

text \<open>\<open>strcpy\<close> of a string to a region that does not overlap it ends, returns the destination,
  puts an equal string there and changes no byte beyond the terminating NUL.\<close>

theorem strcpy_correct:
  assumes "cstr m src xs" and "length xs < 2 ^ 64"
    and "\<forall>i\<le>length xs. \<forall>j\<le>length xs. dst + of_nat i \<noteq> src + of_nat j"
  shows "\<exists>m'. strcpy m dst src = Some (m', dst) \<and> cstr m' dst xs \<and> cstr m' src xs \<and>
     (\<forall>a. (\<forall>i\<le>length xs. a \<noteq> dst + of_nat i) \<longrightarrow> m' a = m a)"
proof -
  let ?n = "Suc (length xs)"
  let ?m = "copy_up m dst src ?n"
  have run: "strcpy m dst src = Some (?m, dst)"
    using strcpy_loop_eq [OF assms(1), of dst] assms(3) by (simp add: strcpy_def del: copy_up.simps)
  have data: "?m (dst + of_nat i) = m (src + of_nat i)" if "i \<le> length xs" for i
    using assms(2,3) that by (intro copy_up_data) auto
  have frame: "?m a = m a" if "\<forall>i\<le>length xs. a \<noteq> dst + of_nat i" for a
    using that by (intro copy_up_frame) auto
  have "cstr ?m src xs"
    using assms(1,3) frame by (intro cstr_cong [OF assms(1)]) metis
  moreover have "cstr ?m dst xs"
    using cstr_shift [OF assms(1)] data by (simp del: copy_up.simps)
  ultimately show ?thesis using run frame by blast
qed

theorem strcpy_correct_witness:
  "\<exists>m'. strcpy ((\<lambda>_. 0)(100 := 7, 101 := 9)) 200 100 = Some (m', 200) \<and> cstr m' 200 [7, 9]"
proof -
  have "\<forall>i\<le>length [7, 9::u8]. \<forall>j\<le>length [7, 9::u8]. (200 :: u64) + of_nat i \<noteq> 100 + of_nat j"
    by (auto simp: le_Suc_eq)
  from strcpy_correct [OF _ _ this, of "(\<lambda>_. 0)(100 := 7, 101 := 9)"] show ?thesis by auto
qed

text \<open>\<open>strcmp\<close> on two strings ends with 0 exactly when they are equal, and with a negative
  number exactly when the first comes before the second in byte-wise lexicographic order.\<close>

theorem strcmp_correct:
  assumes "cstr m p xs" and "cstr m q ys"
  shows "\<exists>r. strcmp m p q = Some r \<and> (r = 0 \<longleftrightarrow> xs = ys) \<and> (r < 0 \<longleftrightarrow> ord_class.lexordp xs ys)"
  using strcmp_eq [OF assms] .

theorem strcmp_correct_witness:
  "\<exists>r. strcmp ((\<lambda>_. 0)(100 := 7, 200 := 7, 201 := 9)) 100 200 = Some r \<and> r < 0"
  using strcmp_correct [of "(\<lambda>_. 0)(100 := 7, 200 := 7, 201 := 9)" 100 "[7]" 200 "[7, 9]"] by auto

end
