(* ===== verification/Vmm.thy ===== *)
theory Vmm
  imports Slob Kstring
begin

text \<open>
  kern/mm/vmm.c and kern/mm/vmm.h: the virtual memory areas of an address space, kept in a list
  sorted by start address, and the page fault handler.  A \<open>struct mm_struct *\<close> or
  \<open>struct vma_struct *\<close> is an address (0 is NULL) under which the state keeps the record; the list
  pointers are the header in the mm_struct (\<open>MmapList\<close>) and the field of a vma_struct (\<open>VmaLink\<close>).
\<close>

section \<open>Fields\<close>

definition upd_mm :: "addr \<Rightarrow> (mm_struct \<Rightarrow> mm_struct) \<Rightarrow> mstate \<Rightarrow> mstate" where
  "upd_mm mm f s = s\<lparr>mms := (mms s)(mm := f (mms s mm))\<rparr>"

definition upd_vma :: "addr \<Rightarrow> (vma_struct \<Rightarrow> vma_struct) \<Rightarrow> mstate \<Rightarrow> mstate" where
  "upd_vma v f s = s\<lparr>vmas := (vmas s)(v := f (vmas s v))\<rparr>"

definition sizeof_mm_struct :: nat where "sizeof_mm_struct = 64"
definition sizeof_vma_struct :: nat where "sizeof_vma_struct = 48"

definition mm_count_of :: "addr \<Rightarrow> mstate \<Rightarrow> s32" where "mm_count_of mm s = mm_count (mms s mm)"
definition set_mm_count :: "addr \<Rightarrow> s32 \<Rightarrow> mstate \<Rightarrow> mstate" where
  "set_mm_count mm val = upd_mm mm (\<lambda>m. m\<lparr>mm_count := val\<rparr>)"
definition mm_count_inc :: "addr \<Rightarrow> mstate \<Rightarrow> mstate \<times> s32" where
  "mm_count_inc mm s = (let s = upd_mm mm (\<lambda>m. m\<lparr>mm_count := mm_count m + 1\<rparr>) s in (s, mm_count (mms s mm)))"
definition mm_count_dec :: "addr \<Rightarrow> mstate \<Rightarrow> mstate \<times> s32" where
  "mm_count_dec mm s = (let s = upd_mm mm (\<lambda>m. m\<lparr>mm_count := mm_count m - 1\<rparr>) s in (s, mm_count (mms s mm)))"

text \<open>\<open>lock_mm\<close> gives up the processor until the lock is free; here it is one attempt, with the outcome.\<close>

definition try_lock_mm :: "addr \<Rightarrow> mstate \<Rightarrow> mstate \<times> bool" where
  "try_lock_mm mm s =
     (if mm = 0 then (s, True)
      else let (ok, l) = try_lock (mm_lock (mms s mm)) in (upd_mm mm (\<lambda>m. m\<lparr>mm_lock := l\<rparr>) s, ok))"

definition unlock_mm :: "addr \<Rightarrow> mstate \<Rightarrow> mstate res" where
  "unlock_mm mm s =
     (if mm = 0 then Inr s
      else bindR (unlock_word (mm_lock (mms s mm))) (\<lambda>l. Inr (upd_mm mm (\<lambda>m. m\<lparr>mm_lock := l\<rparr>) s)))"

section \<open>Creation\<close>

definition mm_create :: "mstate \<Rightarrow> (mstate \<times> addr) res" where
  "mm_create s =
     bindR (kmalloc sizeof_mm_struct s) (\<lambda>(s, mm).
     if mm \<noteq> 0 then
       let s = s\<lparr>mmap_link := list_init (mmap_link s) (MmapList mm)\<rparr>;
           s = upd_mm mm (\<lambda>m. m\<lparr>mmap_cache := 0, pgdir := 0, map_count := 0\<rparr>) s;
           s = (if swap_init_ok s then fst (swap_init_mm mm s) else upd_mm mm (\<lambda>m. m\<lparr>sm_priv := None\<rparr>) s);
           s = set_mm_count mm 0 s;
           s = upd_mm mm (\<lambda>m. m\<lparr>mm_lock := lock_init (mm_lock m)\<rparr>) s
       in Inr (s, mm)
     else Inr (s, mm))"

definition vma_create :: "u64 \<Rightarrow> u64 \<Rightarrow> u32 \<Rightarrow> mstate \<Rightarrow> (mstate \<times> addr) res" where
  "vma_create start en fl s =
     bindR (kmalloc sizeof_vma_struct s) (\<lambda>(s, vma).
     if vma \<noteq> 0 then Inr (upd_vma vma (\<lambda>v. v\<lparr>vm_start := start, vm_end := en, vm_flags := fl\<rparr>) s, vma)
     else Inr (s, vma))"

section \<open>Searching and inserting\<close>

definition in_vma :: "vma_struct \<Rightarrow> u64 \<Rightarrow> bool" where
  "in_vma v addr \<longleftrightarrow> vm_start v \<le> addr \<and> addr < vm_end v"

text \<open>\<open>le2vma\<close> of a list header is no vma.\<close>

partial_function (option) find_vma_loop ::
  "mm_ptr links \<Rightarrow> (addr \<Rightarrow> vma_struct) \<Rightarrow> addr \<Rightarrow> u64 \<Rightarrow> mm_ptr \<Rightarrow> addr res option" where
  "find_vma_loop L V mm addr le =
     (let le = list_next L le
      in if le = MmapList mm then Some (Inr 0)
         else (case le of
             MmapList _ \<Rightarrow> Some (Inl (BadPtr ''le2vma''))
           | VmaLink v \<Rightarrow> if in_vma (V v) addr then Some (Inr v) else find_vma_loop L V mm addr le))"

declare find_vma_loop.simps [code]

definition find_vma :: "addr \<Rightarrow> u64 \<Rightarrow> mstate \<Rightarrow> (mstate \<times> addr) res" where
  "find_vma mm addr s =
     (if mm = 0 then Inr (s, 0)
      else
        let vma = mmap_cache (mms s mm) in
        bindR (if \<not> (vma \<noteq> 0 \<and> in_vma (vmas s vma) addr)
               then bindR (returned (find_vma_loop (mmap_link s) (vmas s) mm addr (MmapList mm))) id
               else Inr vma) (\<lambda>vma.
        Inr (if vma \<noteq> 0 then upd_mm mm (\<lambda>m. m\<lparr>mmap_cache := vma\<rparr>) s else s, vma)))"

definition check_vma_overlap :: "vma_struct \<Rightarrow> vma_struct \<Rightarrow> unit res" where
  "check_vma_overlap prev nxt =
     bindR (assertR (vm_start prev < vm_end prev) ''prev->vm_start < prev->vm_end'') (\<lambda>_.
     bindR (assertR (vm_end prev \<le> vm_start nxt) ''prev->vm_end <= next->vm_start'') (\<lambda>_.
     assertR (vm_start nxt < vm_end nxt) ''next->vm_start < next->vm_end''))"

text \<open>The loop of \<open>insert_vma_struct\<close>: the value of \<open>le_prev\<close> at its end.\<close>

partial_function (option) vma_prev_loop ::
  "mm_ptr links \<Rightarrow> (addr \<Rightarrow> vma_struct) \<Rightarrow> addr \<Rightarrow> u64 \<Rightarrow> mm_ptr \<Rightarrow> mm_ptr res option" where
  "vma_prev_loop L V mm start prv =
     (let le = list_next L prv
      in if le = MmapList mm then Some (Inr prv)
         else (case le of
             MmapList _ \<Rightarrow> Some (Inl (BadPtr ''le2vma''))
           | VmaLink v \<Rightarrow> if vm_start (V v) > start then Some (Inr prv) else vma_prev_loop L V mm start le))"

declare vma_prev_loop.simps [code]

definition overlap_check :: "mstate \<Rightarrow> addr \<Rightarrow> addr \<Rightarrow> mm_ptr \<Rightarrow> bool \<Rightarrow> unit res" where
  "overlap_check s mm vma le before =
     (case le of
        MmapList m \<Rightarrow> if m = mm then Inr () else Inl (BadPtr ''le2vma'')
      | VmaLink v \<Rightarrow> if before then check_vma_overlap (vmas s v) (vmas s vma)
                     else check_vma_overlap (vmas s vma) (vmas s v))"

definition insert_vma_struct :: "addr \<Rightarrow> addr \<Rightarrow> mstate \<Rightarrow> mstate res" where
  "insert_vma_struct mm vma s =
     bindR (assertR (vm_start (vmas s vma) < vm_end (vmas s vma)) ''vma->vm_start < vma->vm_end'') (\<lambda>_.
     bindR (returned (vma_prev_loop (mmap_link s) (vmas s) mm (vm_start (vmas s vma)) (MmapList mm))) (\<lambda>r.
     bindR r (\<lambda>le_prev.
     let le_next = list_next (mmap_link s) le_prev in
     bindR (overlap_check s mm vma le_prev True) (\<lambda>_.
     bindR (overlap_check s mm vma le_next False) (\<lambda>_.
     let s = upd_vma vma (\<lambda>v. v\<lparr>vm_mm := mm\<rparr>) s;
         s = s\<lparr>mmap_link := list_add_after (mmap_link s) le_prev (VmaLink vma)\<rparr>
     in Inr (upd_mm mm (\<lambda>m. m\<lparr>map_count := map_count m + 1\<rparr>) s))))))"

partial_function (option) mm_destroy_loop :: "addr \<Rightarrow> mstate \<Rightarrow> mstate res option" where
  "mm_destroy_loop mm s =
     (case list_next (mmap_link s) (MmapList mm) of
        MmapList m \<Rightarrow> if m = mm then Some (Inr s) else Some (Inl (BadPtr ''le2vma''))
      | VmaLink v \<Rightarrow>
          (case kfree v (s\<lparr>mmap_link := list_del (mmap_link s) (VmaLink v)\<rparr>) of
             Inl e \<Rightarrow> Some (Inl e)
           | Inr s \<Rightarrow> mm_destroy_loop mm s))"

declare mm_destroy_loop.simps [code]

definition mm_destroy :: "addr \<Rightarrow> mstate \<Rightarrow> mstate res" where
  "mm_destroy mm s =
     bindR (assertR (mm_count_of mm s = 0) ''mm_count(mm) == 0'') (\<lambda>_.
     bindR (returned (mm_destroy_loop mm s)) (\<lambda>r. bindR r (kfree mm)))"

text \<open>\<open>mm_map\<close>; the vma is returned instead of being stored through \<open>vma_store\<close>.\<close>

definition mm_map :: "addr \<Rightarrow> u64 \<Rightarrow> u64 \<Rightarrow> u32 \<Rightarrow> mstate \<Rightarrow> (mstate \<times> addr \<times> int) res" where
  "mm_map mm addr len fl s =
     (let start = ROUNDDOWN addr PGSIZE; en = ROUNDUP (addr + len) PGSIZE
      in if \<not> USER_ACCESS start en then Inr (s, 0, - E_INVAL)
         else
           bindR (assertR (mm \<noteq> 0) ''mm != NULL'') (\<lambda>_.
           bindR (find_vma mm start s) (\<lambda>(s, vma).
           if vma \<noteq> 0 \<and> en > vm_start (vmas s vma) then Inr (s, 0, - E_INVAL)
           else
             bindR (vma_create start en fl s) (\<lambda>(s, vma).
             if vma = 0 then Inr (s, 0, - E_NO_MEM)
             else bindR (insert_vma_struct mm vma s) (\<lambda>s. Inr (s, vma, 0))))))"

section \<open>Copying and leaving an address space\<close>

partial_function (option) dup_mmap_loop :: "addr \<Rightarrow> addr \<Rightarrow> mm_ptr \<Rightarrow> mstate \<Rightarrow> (mstate \<times> int) res option" where
  "dup_mmap_loop to from le s =
     (let le = list_prev (mmap_link s) le
      in if le = MmapList from then Some (Inr (s, 0))
         else (case le of
             MmapList _ \<Rightarrow> Some (Inl (BadPtr ''le2vma''))
           | VmaLink v \<Rightarrow>
               (case vma_create (vm_start (vmas s v)) (vm_end (vmas s v)) (vm_flags (vmas s v)) s of
                  Inl e \<Rightarrow> Some (Inl e)
                | Inr r \<Rightarrow>
                    if snd r = 0 then Some (Inr (fst r, - E_NO_MEM))
                    else (case insert_vma_struct to (snd r) (fst r) of
                       Inl e \<Rightarrow> Some (Inl e)
                     | Inr s \<Rightarrow>
                         (case copy_range (pgdir (mms s to)) (pgdir (mms s from))
                                 (vm_start (vmas s v)) (vm_end (vmas s v)) s of
                            Inl e \<Rightarrow> Some (Inl e)
                          | Inr q \<Rightarrow>
                              if snd q \<noteq> 0 then Some (Inr (fst q, - E_NO_MEM))
                              else dup_mmap_loop to from le (fst q))))))"

declare dup_mmap_loop.simps [code]

definition dup_mmap :: "addr \<Rightarrow> addr \<Rightarrow> mstate \<Rightarrow> (mstate \<times> int) res" where
  "dup_mmap to from s =
     bindR (assertR (to \<noteq> 0 \<and> from \<noteq> 0) ''to != NULL && from != NULL'') (\<lambda>_.
     bindR (returned (dup_mmap_loop to from (MmapList from) s)) id)"

text \<open>The two loops of \<open>exit_mmap\<close> differ in the operation applied to each area.\<close>

partial_function (option) each_vma_loop ::
  "(u64 \<Rightarrow> u64 \<Rightarrow> mstate \<Rightarrow> mstate res) \<Rightarrow> addr \<Rightarrow> mm_ptr \<Rightarrow> mstate \<Rightarrow> mstate res option" where
  "each_vma_loop f mm le s =
     (let le = list_next (mmap_link s) le
      in if le = MmapList mm then Some (Inr s)
         else (case le of
             MmapList _ \<Rightarrow> Some (Inl (BadPtr ''le2vma''))
           | VmaLink v \<Rightarrow>
               (case f (vm_start (vmas s v)) (vm_end (vmas s v)) s of
                  Inl e \<Rightarrow> Some (Inl e)
                | Inr s \<Rightarrow> each_vma_loop f mm le s)))"

declare each_vma_loop.simps [code]

definition exit_mmap :: "addr \<Rightarrow> mstate \<Rightarrow> mstate res" where
  "exit_mmap mm s =
     bindR (assertR (mm \<noteq> 0 \<and> mm_count_of mm s = 0) ''mm != NULL && mm_count(mm) == 0'') (\<lambda>_.
     let pd = pgdir (mms s mm) in
     bindR (bindR (returned (each_vma_loop (unmap_range pd) mm (MmapList mm) s)) id) (\<lambda>s.
     bindR (returned (each_vma_loop (exit_range pd) mm (MmapList mm) s)) id))"

section \<open>Access to user memory\<close>

partial_function (option) user_mem_loop ::
  "addr \<Rightarrow> u64 \<Rightarrow> u64 \<Rightarrow> bool \<Rightarrow> mstate \<Rightarrow> (mstate \<times> bool) res option" where
  "user_mem_loop mm start en write s =
     (if start < en then
        (case find_vma mm start s of
           Inl e \<Rightarrow> Some (Inl e)
         | Inr r \<Rightarrow>
             (let vma = vmas (fst r) (snd r)
              in if snd r = 0 \<or> start < vm_start vma then Some (Inr (fst r, False))
                 else if vm_flags vma AND (if write then VM_WRITE else VM_READ) = 0 then Some (Inr (fst r, False))
                 else if write \<and> vm_flags vma AND VM_STACK \<noteq> 0 \<and> start < vm_start vma + PGSIZE
                   then Some (Inr (fst r, False))
                 else user_mem_loop mm (vm_end vma) en write (fst r)))
      else Some (Inr (s, True)))"

declare user_mem_loop.simps [code]

definition user_mem_check :: "addr \<Rightarrow> u64 \<Rightarrow> u64 \<Rightarrow> bool \<Rightarrow> mstate \<Rightarrow> (mstate \<times> bool) res" where
  "user_mem_check mm addr len write s =
     (if mm \<noteq> 0 then
        if \<not> USER_ACCESS addr (addr + len) then Inr (s, False)
        else bindR (returned (user_mem_loop mm addr (addr + len) write s)) id
      else Inr (s, KERN_ACCESS addr (addr + len)))"

text \<open>The bytes of the current address space are a memory of their own here.\<close>

definition copy_from_user ::
  "addr \<Rightarrow> u64 \<Rightarrow> u64 \<Rightarrow> u64 \<Rightarrow> bool \<Rightarrow> mstate \<Rightarrow> bmem \<Rightarrow> (mstate \<times> bmem \<times> bool) res" where
  "copy_from_user mm dst src len writable s m =
     bindR (user_mem_check mm src len writable s) (\<lambda>(s, ok).
     Inr (if \<not> ok then (s, m, False) else (s, memcpy m dst src (unat len), True)))"

definition copy_to_user ::
  "addr \<Rightarrow> u64 \<Rightarrow> u64 \<Rightarrow> u64 \<Rightarrow> mstate \<Rightarrow> bmem \<Rightarrow> (mstate \<times> bmem \<times> bool) res" where
  "copy_to_user mm dst src len s m =
     bindR (user_mem_check mm dst len True s) (\<lambda>(s, ok).
     Inr (if \<not> ok then (s, m, False) else (s, memcpy m dst src (unat len), True)))"

section \<open>Page faults\<close>

definition fault_perm :: "vma_struct \<Rightarrow> u64" where
  "fault_perm vma = (if vm_flags vma AND VM_WRITE \<noteq> 0 then PTE_U OR READ_WRITE else PTE_U)"

definition do_pgfault :: "addr \<Rightarrow> u64 \<Rightarrow> u64 \<Rightarrow> mstate \<Rightarrow> (mstate \<times> int) res" where
  "do_pgfault mm error_code addr s =
     bindR (find_vma mm addr s) (\<lambda>(s, vma).
     let s = s\<lparr>pgfault_num := pgfault_num s + 1\<rparr> in
     if vma = 0 \<or> vm_start (vmas s vma) > addr then Inr (s, - E_INVAL)
     else
       let perm = fault_perm (vmas s vma);
           addr = ROUNDDOWN addr PGSIZE in
       bindR (get_pte (pgdir (mms s mm)) addr True s) (\<lambda>(s, ptep).
       case ptep of
         None \<Rightarrow> Inr (s, - E_NO_MEM)
       | Some ptep \<Rightarrow>
           if rd s ptep = 0 then
             bindR (pgdir_alloc_page (pgdir (mms s mm)) addr perm s) (\<lambda>(s, page).
             Inr (s, if page = None then - E_NO_MEM else 0))
           else if swap_init_ok s then
             bindR (swap_in mm addr s) (\<lambda>(s, page, r).
             if r \<noteq> 0 then Inr (s, - E_NO_MEM)
             else
               bindR (page_insert (pgdir (mms s mm)) page addr perm s) (\<lambda>(s, r).
               if r \<noteq> 0 then Inr (s, - E_NO_MEM)
               else
                 bindR (swap_map_swappable mm addr page 1 s) (\<lambda>(s, _).
                 Inr (upd_page page (\<lambda>p. p\<lparr>pra_vaddr := addr\<rparr>) s, 0))))
           else Inr (s, - E_NO_MEM)))"

end
