(* ===== verification/Vmm_Areas.thy ===== *)
theory Vmm_Areas
  imports Vmm
begin

text \<open>
  The areas of an address space: the list of kern/mm/vmm.c holds disjoint, non-empty areas in
  ascending order, \<open>find_vma\<close> finds the area of an address, \<open>insert_vma_struct\<close> accepts exactly the
  areas that fit in a gap, and \<open>mm_map\<close> adds such an area.
\<close>

section \<open>The list of areas\<close>

definition vma_before :: "vma_struct \<Rightarrow> vma_struct \<Rightarrow> bool" where
  "vma_before a b \<longleftrightarrow> vm_end a \<le> vm_start b"

definition apart :: "vma_struct \<Rightarrow> vma_struct \<Rightarrow> bool" where
  "apart a b \<longleftrightarrow> vma_before a b \<or> vma_before b a"

definition vma_rep :: "mstate \<Rightarrow> addr \<Rightarrow> addr list \<Rightarrow> bool" where
  "vma_rep s mm vs \<longleftrightarrow>
     dll (mmap_link s) (MmapList mm) (map VmaLink vs) \<and>
     sorted_wrt vma_before (map (vmas s) vs) \<and>
     (\<forall>v\<in>set vs. v \<noteq> 0 \<and> vm_start (vmas s v) < vm_end (vmas s v)) \<and>
     (mmap_cache (mms s mm) = 0 \<or> mmap_cache (mms s mm) \<in> set vs) \<and>
     map_count (mms s mm) = of_nat (length vs)"

lemma find_vma_loop_finds:
  "dll L (MmapList mm) (map VmaLink (xs @ ys)) \<Longrightarrow>
   find_vma_loop L V mm a (last (MmapList mm # map VmaLink xs)) =
     Some (Inr (case find (\<lambda>v. in_vma (V v) a) ys of None \<Rightarrow> 0 | Some v \<Rightarrow> v))"
proof (induction ys arbitrary: xs)
  case Nil
  then have "list_next L (last (MmapList mm # map VmaLink xs)) = MmapList mm"
    using lh.rep_next [of L "MmapList mm" "map VmaLink xs" "[]"] by simp
  then show ?case by (subst find_vma_loop.simps) simp
next
  case (Cons y ys)
  then have nxt: "list_next L (last (MmapList mm # map VmaLink xs)) = VmaLink y"
    using lh.rep_next [of L "MmapList mm" "map VmaLink xs" "map VmaLink (y # ys)"] by simp
  from Cons.prems have "find_vma_loop L V mm a (last (MmapList mm # map VmaLink (xs @ [y]))) =
      Some (Inr (case find (\<lambda>v. in_vma (V v) a) ys of None \<Rightarrow> 0 | Some v \<Rightarrow> v))"
    by (intro Cons.IH) simp
  with nxt show ?case by (subst find_vma_loop.simps) simp
qed

lemma in_vma_unique:
  assumes "sorted_wrt vma_before (map V vs)" and "u \<in> set vs" "v \<in> set vs" and "in_vma (V u) a" "in_vma (V v) a"
  shows "u = v"
proof (rule ccontr)
  assume "u \<noteq> v"
  then have "vma_before (V u) (V v) \<or> vma_before (V v) (V u)"
    using assms(1-3) by (induction vs) auto
  with assms(4,5) show False by (auto simp: vma_before_def in_vma_def)
qed

lemma vma_rep_cache:
  "vma_rep s mm vs \<Longrightarrow> v \<in> set vs \<Longrightarrow> vma_rep (upd_mm mm (\<lambda>m. m\<lparr>mmap_cache := v\<rparr>) s) mm vs"
  by (simp add: vma_rep_def upd_mm_def)

lemma find_vma_ok:
  assumes rep: "vma_rep s mm vs" and mm: "mm \<noteq> 0"
  shows "\<exists>v s'. find_vma mm a s = Inr (s', v) \<and>
     s' = s\<lparr>mms := (mms s)(mm := (mms s mm)\<lparr>mmap_cache := if v = 0 then mmap_cache (mms s mm) else v\<rparr>)\<rparr> \<and>
     (if v = 0 then \<forall>u\<in>set vs. \<not> in_vma (vmas s u) a
      else v \<in> set vs \<and> in_vma (vmas s v) a \<and> (\<forall>u\<in>set vs. in_vma (vmas s u) a \<longrightarrow> u = v))"
proof -
  let ?c = "mmap_cache (mms s mm)"
  have uniq: "u = v" if "u \<in> set vs" "v \<in> set vs" "in_vma (vmas s u) a" "in_vma (vmas s v) a" for u v
    using in_vma_unique [OF _ that] rep by (simp add: vma_rep_def)
  show ?thesis
  proof (cases "?c \<noteq> 0 \<and> in_vma (vmas s ?c) a")
    case True
    then have "?c \<in> set vs" using rep by (auto simp: vma_rep_def)
    moreover have run: "find_vma mm a s = Inr (upd_mm mm (\<lambda>m. m\<lparr>mmap_cache := ?c\<rparr>) s, ?c)"
      using True mm unfolding find_vma_def Let_def by (simp only: simp_thms if_False if_True bindR_Inr)
    moreover have "\<forall>u\<in>set vs. in_vma (vmas s u) a \<longrightarrow> u = ?c" using uniq True \<open>?c \<in> set vs\<close> by blast
    ultimately have "if ?c = 0 then \<forall>u\<in>set vs. \<not> in_vma (vmas s u) a
        else ?c \<in> set vs \<and> in_vma (vmas s ?c) a \<and> (\<forall>u\<in>set vs. in_vma (vmas s u) a \<longrightarrow> u = ?c)"
      by (subst if_not_P) (use True in blast)+
    moreover have "upd_mm mm (\<lambda>m. m\<lparr>mmap_cache := ?c\<rparr>) s =
        s\<lparr>mms := (mms s)(mm := (mms s mm)\<lparr>mmap_cache := if ?c = 0 then ?c else ?c\<rparr>)\<rparr>" by (simp add: upd_mm_def)
    ultimately show ?thesis using run by blast
  next
    case False
    let ?v = "case find (\<lambda>v. in_vma (vmas s v) a) vs of None \<Rightarrow> 0 | Some v \<Rightarrow> v"
    have "find_vma_loop (mmap_link s) (vmas s) mm a (MmapList mm) = Some (Inr ?v)"
      using find_vma_loop_finds [of "mmap_link s" mm "[]" vs "vmas s" a] rep by (simp add: vma_rep_def)
    with False mm have run: "find_vma mm a s = Inr (if ?v \<noteq> 0 then upd_mm mm (\<lambda>m. m\<lparr>mmap_cache := ?v\<rparr>) s else s, ?v)"
      by (auto simp: find_vma_def)
    show ?thesis
    proof (cases "find (\<lambda>v. in_vma (vmas s v) a) vs")
      case None
      with run show ?thesis by (intro exI [of _ 0] exI [of _ s]) (auto simp: find_None_iff)
    next
      case (Some v)
      then have v: "v \<in> set vs" "in_vma (vmas s v) a" by (auto simp: find_Some_iff)
      with rep have "v \<noteq> 0" by (auto simp: vma_rep_def)
      with Some run have "find_vma mm a s = Inr (upd_mm mm (\<lambda>m. m\<lparr>mmap_cache := v\<rparr>) s, v)" by simp
      moreover have "\<forall>u\<in>set vs. in_vma (vmas s u) a \<longrightarrow> u = v" using uniq v by blast
      then have "if v = 0 then \<forall>u\<in>set vs. \<not> in_vma (vmas s u) a
          else v \<in> set vs \<and> in_vma (vmas s v) a \<and> (\<forall>u\<in>set vs. in_vma (vmas s u) a \<longrightarrow> u = v)"
        by (subst if_not_P) (use v \<open>v \<noteq> 0\<close> in blast)+
      moreover have "upd_mm mm (\<lambda>m. m\<lparr>mmap_cache := v\<rparr>) s =
          s\<lparr>mms := (mms s)(mm := (mms s mm)\<lparr>mmap_cache := if v = 0 then ?c else v\<rparr>)\<rparr>"
        using \<open>v \<noteq> 0\<close> by (simp add: upd_mm_def)
      ultimately show ?thesis by blast
    qed
  qed
qed

section \<open>Insertion\<close>

lemma vma_prev_loop_finds:
  "dll L (MmapList mm) (map VmaLink (xs @ ys)) \<Longrightarrow>
   vma_prev_loop L V mm start (last (MmapList mm # map VmaLink xs)) =
     Some (Inr (last (MmapList mm # map VmaLink (xs @ takeWhile (\<lambda>v. vm_start (V v) \<le> start) ys))))"
proof (induction ys arbitrary: xs)
  case Nil
  then have "list_next L (last (MmapList mm # map VmaLink xs)) = MmapList mm"
    using lh.rep_next [of L "MmapList mm" "map VmaLink xs" "[]"] by simp
  then show ?case by (subst vma_prev_loop.simps) simp
next
  case (Cons y ys)
  then have nxt: "list_next L (last (MmapList mm # map VmaLink xs)) = VmaLink y"
    using lh.rep_next [of L "MmapList mm" "map VmaLink xs" "map VmaLink (y # ys)"] by simp
  show ?case
  proof (cases "vm_start (V y) \<le> start")
    case True
    from Cons.prems have "vma_prev_loop L V mm start (last (MmapList mm # map VmaLink (xs @ [y]))) =
        Some (Inr (last (MmapList mm # map VmaLink ((xs @ [y]) @ takeWhile (\<lambda>v. vm_start (V v) \<le> start) ys))))"
      by (intro Cons.IH) simp
    with nxt True show ?thesis by (subst vma_prev_loop.simps) (simp add: not_less [symmetric])
  next
    case False
    then have "start < vm_start (V y)" by (simp add: not_le)
    with nxt False show ?thesis by (subst vma_prev_loop.simps) simp
  qed
qed

lemma apart_before:
  assumes "apart x n" and "vm_start x < vm_end x" and "vm_start n < vm_end n"
  shows "vm_start x \<le> vm_start n \<Longrightarrow> vma_before x n" and "vm_start n < vm_start x \<Longrightarrow> vma_before n x"
  using assms unfolding apart_def vma_before_def by (meson leD le_less_trans less_le_trans less_imp_le)+

lemma vma_before_trans:
  "vma_before x y \<Longrightarrow> vma_before y z \<Longrightarrow> vm_start y < vm_end y \<Longrightarrow> vma_before x z"
  unfolding vma_before_def by (meson le_less_trans less_imp_le less_le_trans)

lemma map_neighbours:
  "(map f as \<noteq> [] \<longrightarrow> vma_before (last (map f as)) n) \<longleftrightarrow> (as \<noteq> [] \<longrightarrow> vma_before (f (last as)) n)"
  "(map f as \<noteq> [] \<longrightarrow> vma_before n (hd (map f as))) \<longleftrightarrow> (as \<noteq> [] \<longrightarrow> vma_before n (f (hd as)))"
  by (auto simp: last_map hd_map)

lemma sorted_neighbours:
  assumes "sorted_wrt vma_before xs" and "\<forall>x\<in>set xs. vm_start x < vm_end x" and "vm_start n < vm_end n"
    and xs: "xs = as @ bs" and as: "\<forall>x\<in>set as. vm_start x \<le> vm_start n" and bs: "bs \<noteq> [] \<longrightarrow> vm_start n < vm_start (hd bs)"
  shows "(\<forall>x\<in>set xs. apart x n) \<longleftrightarrow>
     (as \<noteq> [] \<longrightarrow> vma_before (last as) n) \<and> (bs \<noteq> [] \<longrightarrow> vma_before n (hd bs))"
    (is "?L \<longleftrightarrow> ?R")
proof
  assume L: ?L
  show ?R
  proof (intro conjI impI)
    assume "as \<noteq> []"
    then have "last as \<in> set as" by simp
    moreover have "vm_start (last as) < vm_end (last as)" using \<open>as \<noteq> []\<close> assms(2) xs by auto
    moreover have "apart (last as) n" using L \<open>as \<noteq> []\<close> xs by auto
    ultimately show "vma_before (last as) n" using as assms(3) apart_before(1) by blast
  next
    assume "bs \<noteq> []"
    then have "hd bs \<in> set xs" "vm_start (hd bs) < vm_end (hd bs)" using assms(2) xs by auto
    with L bs \<open>bs \<noteq> []\<close> assms(3) show "vma_before n (hd bs)" using apart_before(2) by blast
  qed
next
  assume R: ?R
  show ?L
  proof
    fix x assume "x \<in> set xs"
    then consider "x \<in> set as" | "x \<in> set bs" using xs by auto
    then show "apart x n"
    proof cases
      case 1
      then obtain as' l where as': "as = as' @ [l]" by (cases as rule: rev_cases) auto
      with R have l: "vma_before l n" by simp
      have "x = l \<or> vma_before x l" using 1 assms(1) xs as' by (auto simp: sorted_wrt_append)
      moreover have "vm_start l < vm_end l" using assms(2) xs as' by auto
      ultimately show ?thesis using l vma_before_trans unfolding apart_def by blast
    next
      case 2
      then obtain b bs' where b: "bs = b # bs'" by (cases bs) auto
      with R have l: "vma_before n b" by simp
      have "x = b \<or> vma_before b x" using 2 assms(1) xs b by (auto simp: sorted_wrt_append)
      moreover have "vm_start b < vm_end b" using assms(2) xs b by auto
      ultimately show ?thesis using l vma_before_trans unfolding apart_def by blast
    qed
  qed
qed

lemma sorted_insert:
  assumes "sorted_wrt vma_before (as @ bs)" and "\<forall>x\<in>set (as @ bs). vm_start x < vm_end x" and "vm_start n < vm_end n"
    and "\<forall>x\<in>set (as @ bs). apart x n" and "\<forall>x\<in>set as. vm_start x \<le> vm_start n"
    and "\<forall>x\<in>set bs. vm_start n < vm_start x"
  shows "sorted_wrt vma_before (as @ n # bs)"
proof -
  have "vma_before x n" if "x \<in> set as" for x
    using that assms(2-5) apart_before(1) by auto
  moreover have "vma_before n x" if "x \<in> set bs" for x
    using that assms(2-4,6) apart_before(2) by auto
  ultimately show ?thesis using assms(1) by (auto simp: sorted_wrt_append)
qed

lemma assertR_bind: "bindR (assertR b msg) f = (if b then f () else Inl (AssertFail msg))"
  by simp

lemma overlap_check_neighbours:
  assumes "last (MmapList mm # map VmaLink as) = p" and "hd (map VmaLink bs @ [MmapList mm]) = q"
    and len: "vm_start (vmas s n) < vm_end (vmas s n)"
    and ne: "\<forall>v\<in>set (as @ bs). vm_start (vmas s v) < vm_end (vmas s v)"
  shows "(\<exists>u. bindR (overlap_check s mm n p True) (\<lambda>_. overlap_check s mm n q False) = Inr u) \<longleftrightarrow>
      (as \<noteq> [] \<longrightarrow> vma_before (vmas s (last as)) (vmas s n)) \<and> (bs \<noteq> [] \<longrightarrow> vma_before (vmas s n) (vmas s (hd bs)))"
    and "(\<exists>u. bindR (overlap_check s mm n p True) (\<lambda>_. overlap_check s mm n q False) = Inr u) \<or>
      (\<exists>msg. bindR (overlap_check s mm n p True) (\<lambda>_. overlap_check s mm n q False) = Inl (AssertFail msg))"
proof -
  have p: "overlap_check s mm n p True = (if as = [] then Inr () else check_vma_overlap (vmas s (last as)) (vmas s n))"
    using assms(1) by (cases as rule: rev_cases) (auto simp: overlap_check_def)
  have q: "overlap_check s mm n q False = (if bs = [] then Inr () else check_vma_overlap (vmas s n) (vmas s (hd bs)))"
    using assms(2) by (cases bs) (auto simp: overlap_check_def)
  have l: "as \<noteq> [] \<Longrightarrow> vm_start (vmas s (last as)) < vm_end (vmas s (last as))"
    "bs \<noteq> [] \<Longrightarrow> vm_start (vmas s (hd bs)) < vm_end (vmas s (hd bs))" using ne by auto
  show "(\<exists>u. bindR (overlap_check s mm n p True) (\<lambda>_. overlap_check s mm n q False) = Inr u) \<longleftrightarrow>
      (as \<noteq> [] \<longrightarrow> vma_before (vmas s (last as)) (vmas s n)) \<and> (bs \<noteq> [] \<longrightarrow> vma_before (vmas s n) (vmas s (hd bs)))"
    using l len by (auto simp: p q check_vma_overlap_def assertR_def vma_before_def)
  show "(\<exists>u. bindR (overlap_check s mm n p True) (\<lambda>_. overlap_check s mm n q False) = Inr u) \<or>
      (\<exists>msg. bindR (overlap_check s mm n p True) (\<lambda>_. overlap_check s mm n q False) = Inl (AssertFail msg))"
    using l len by (auto simp: p q check_vma_overlap_def assertR_def)
qed

text \<open>The areas before and after the place where a new area goes.\<close>

abbreviation lower :: "mstate \<Rightarrow> u64 \<Rightarrow> addr list \<Rightarrow> addr list" where
  "lower s a vs \<equiv> takeWhile (\<lambda>v. vm_start (vmas s v) \<le> a) vs"
abbreviation upper :: "mstate \<Rightarrow> u64 \<Rightarrow> addr list \<Rightarrow> addr list" where
  "upper s a vs \<equiv> dropWhile (\<lambda>v. vm_start (vmas s v) \<le> a) vs"

lemma upper_above:
  assumes "sorted_wrt vma_before (map (vmas s) vs)" and "\<forall>v\<in>set vs. vm_start (vmas s v) < vm_end (vmas s v)"
    and "x \<in> set (upper s a vs)"
  shows "a < vm_start (vmas s x)"
  using assms
proof (induction vs)
  case (Cons v vs)
  show ?case
  proof (cases "vm_start (vmas s v) \<le> a")
    case False
    then have v: "a < vm_start (vmas s v)" by simp
    have "x = v \<or> vma_before (vmas s v) (vmas s x)" using Cons.prems False by auto
    then show ?thesis
    proof
      assume "vma_before (vmas s v) (vmas s x)"
      then have "vm_end (vmas s v) \<le> vm_start (vmas s x)" by (simp add: vma_before_def)
      moreover have "vm_start (vmas s v) < vm_end (vmas s v)" using Cons.prems by simp
      ultimately show ?thesis using v by order
    qed (use v in simp)
  qed (use Cons in auto)
qed simp

definition area_free :: "mstate \<Rightarrow> addr list \<Rightarrow> addr \<Rightarrow> bool" where
  "area_free s vs v \<longleftrightarrow> (\<forall>u\<in>set vs. apart (vmas s u) (vmas s v))"

lemma insert_vma_ok:
  assumes rep: "vma_rep s mm vs" and v: "v \<notin> set vs" "v \<noteq> 0" and len: "vm_start (vmas s v) < vm_end (vmas s v)"
  shows "if area_free s vs v
     then \<exists>s'. insert_vma_struct mm v s = Inr s' \<and>
       vma_rep s' mm (lower s (vm_start (vmas s v)) vs @ v # upper s (vm_start (vmas s v)) vs) \<and>
       s' = (upd_mm mm (\<lambda>m. m\<lparr>map_count := map_count m + 1\<rparr>) (upd_vma v (\<lambda>a. a\<lparr>vm_mm := mm\<rparr>) s))\<lparr>mmap_link := mmap_link s'\<rparr>
     else \<exists>msg. insert_vma_struct mm v s = Inl (AssertFail msg)"
proof -
  let ?a = "vm_start (vmas s v)"
  let ?as = "lower s ?a vs" and ?bs = "upper s ?a vs"
  let ?p = "last (MmapList mm # map VmaLink ?as)" and ?q = "hd (map VmaLink ?bs @ [MmapList mm])"
  have srt: "sorted_wrt vma_before (map (vmas s) vs)" and pos: "\<forall>v\<in>set vs. vm_start (vmas s v) < vm_end (vmas s v)"
    and L: "dll (mmap_link s) (MmapList mm) (map VmaLink (?as @ ?bs))"
    using rep by (auto simp: vma_rep_def)
  have vs: "vs = ?as @ ?bs" by simp
  have p: "vma_prev_loop (mmap_link s) (vmas s) mm ?a (MmapList mm) = Some (Inr ?p)"
    using vma_prev_loop_finds [of "mmap_link s" mm "[]" vs "vmas s" ?a] L by (simp add: map_append [symmetric] del: map_append)
  have q: "list_next (mmap_link s) ?p = ?q"
    using lh.rep_next [of "mmap_link s" "MmapList mm" "map VmaLink ?as" "map VmaLink ?bs"] L by (simp only: map_append)
  let ?chk = "bindR (overlap_check s mm v ?p True) (\<lambda>_. overlap_check s mm v ?q False)"
  define s' where "s' = upd_mm mm (\<lambda>m. m\<lparr>map_count := map_count m + 1\<rparr>)
    ((upd_vma v (\<lambda>a. a\<lparr>vm_mm := mm\<rparr>) s)\<lparr>mmap_link := list_add_after (mmap_link s) ?p (VmaLink v)\<rparr>)"
  have run: "insert_vma_struct mm v s = bindR ?chk (\<lambda>_. Inr s')"
    using len p q by (simp add: insert_vma_struct_def bindR_assoc Let_def s'_def upd_vma_def del: last.simps)
  have pos': "\<forall>u\<in>set (?as @ ?bs). vm_start (vmas s u) < vm_end (vmas s u)" using pos by (simp flip: vs)
  note chk = overlap_check_neighbours [OF refl refl len pos']
  have "bs \<noteq> [] \<longrightarrow> ?a < vm_start (hd bs)" if "bs = map (vmas s) ?bs" for bs
    using upper_above [OF srt pos] that by (cases ?bs) auto
  then have "(\<forall>x\<in>set (map (vmas s) vs). apart x (vmas s v)) \<longleftrightarrow>
      (map (vmas s) ?as \<noteq> [] \<longrightarrow> vma_before (last (map (vmas s) ?as)) (vmas s v)) \<and>
      (map (vmas s) ?bs \<noteq> [] \<longrightarrow> vma_before (vmas s v) (hd (map (vmas s) ?bs)))"
    using pos by (intro sorted_neighbours [OF srt _ len]) (auto simp flip: map_append dest: set_takeWhileD)
  then have nb: "area_free s vs v \<longleftrightarrow>
      (?as \<noteq> [] \<longrightarrow> vma_before (vmas s (last ?as)) (vmas s v)) \<and> (?bs \<noteq> [] \<longrightarrow> vma_before (vmas s v) (vmas s (hd ?bs)))"
    by (simp only: area_free_def map_neighbours set_map ball_simps)
  show ?thesis
  proof (cases "area_free s vs v")
    case True
    then have ok: "insert_vma_struct mm v s = Inr s'" using nb chk(1) run by (auto simp del: last.simps)
    have "VmaLink v \<notin> set (MmapList mm # map VmaLink ?as @ map VmaLink ?bs)"
      using v(1) unfolding map_append [symmetric] vs [symmetric] by auto
    note lh.rep_add_after [OF L [unfolded map_append] this]
    moreover have "mmap_link s' = list_add_after (mmap_link s) ?p (VmaLink v)" by (simp add: s'_def upd_mm_def)
    ultimately have r1: "dll (mmap_link s') (MmapList mm) (map VmaLink (?as @ v # ?bs))" by (simp only: map_append list.map)
    have same: "vm_start (vmas s' u) = vm_start (vmas s u)" "vm_end (vmas s' u) = vm_end (vmas s u)" for u
      by (simp_all add: s'_def upd_mm_def upd_vma_def)
    have "sorted_wrt vma_before (map (vmas s) ?as @ vmas s v # map (vmas s) ?bs)"
    proof (rule sorted_insert)
      show "sorted_wrt vma_before (map (vmas s) ?as @ map (vmas s) ?bs)" using srt by (simp flip: map_append)
      show "\<forall>x\<in>set (map (vmas s) ?bs). ?a < vm_start x" using upper_above [OF srt pos] by auto
    qed (use len True pos in \<open>auto simp: area_free_def dest: set_takeWhileD set_dropWhileD\<close>)
    then have r2: "sorted_wrt vma_before (map (vmas s') (?as @ v # ?bs))"
      using same by (simp add: sorted_wrt_append sorted_wrt_map vma_before_def)
    have st: "set (?as @ v # ?bs) = insert v (set vs)" using arg_cong [OF vs, of set] unfolding set_append list.set by blast
    have r3: "\<forall>u\<in>set (?as @ v # ?bs). u \<noteq> 0 \<and> vm_start (vmas s' u) < vm_end (vmas s' u)"
      unfolding st same using rep v len by (auto simp: vma_rep_def)
    have len': "length (?as @ v # ?bs) = Suc (length vs)" using arg_cong [OF vs, of length] unfolding length_append list.size by simp
    have c: "mmap_cache (mms s' mm) = mmap_cache (mms s mm)" "map_count (mms s' mm) = map_count (mms s mm) + 1"
      by (simp_all add: s'_def upd_mm_def upd_vma_def)
    have r4: "mmap_cache (mms s' mm) = 0 \<or> mmap_cache (mms s' mm) \<in> set (?as @ v # ?bs)"
      "map_count (mms s' mm) = of_nat (length (?as @ v # ?bs))"
      unfolding st len' c using rep by (auto simp: vma_rep_def)
    have "vma_rep s' mm (?as @ v # ?bs)" unfolding vma_rep_def using r1 r2 r3 r4 by blast
    moreover have "s' = (upd_mm mm (\<lambda>m. m\<lparr>map_count := map_count m + 1\<rparr>)
        (upd_vma v (\<lambda>a. a\<lparr>vm_mm := mm\<rparr>) s))\<lparr>mmap_link := mmap_link s'\<rparr>" by (simp add: s'_def upd_mm_def upd_vma_def)
    ultimately show ?thesis using ok True by (simp only: if_True) blast
  next
    case False
    then have "\<not> (\<exists>u. ?chk = Inr u)" using nb chk(1) [of mm] by blast
    then obtain msg where "?chk = Inl (AssertFail msg)" using chk(2) [of mm] by blast
    with run False show ?thesis by (simp only: bindR_Inl if_False) blast
  qed
qed

section \<open>What the heap leaves alone\<close>

text \<open>Allocating heap memory may take pages and even swap, but touches no area and no mm_struct.\<close>

definition keeps_areas :: "mstate \<Rightarrow> mstate \<Rightarrow> bool" where
  "keeps_areas s s' \<longleftrightarrow> vmas s' = vmas s \<and> mms s' = mms s \<and> mmap_link s' = mmap_link s"

lemma keeps_areas_refl [simp]: "keeps_areas s s"
  by (simp add: keeps_areas_def)

lemma keeps_areas_trans: "keeps_areas s t \<Longrightarrow> keeps_areas t u \<Longrightarrow> keeps_areas s u"
  by (simp add: keeps_areas_def)

lemma keeps_areas_fields [simp]:
  "keeps_areas s (t\<lparr>fa := f\<rparr>) = keeps_areas s t" "keeps_areas s (t\<lparr>pmem := m\<rparr>) = keeps_areas s t"
  "keeps_areas s (t\<lparr>pra_link := l\<rparr>) = keeps_areas s t" "keeps_areas s (t\<lparr>ide := d\<rparr>) = keeps_areas s t"
  "keeps_areas s (t\<lparr>slob := h\<rparr>) = keeps_areas s t" "keeps_areas s (t\<lparr>sstatus := w\<rparr>) = keeps_areas s t"
  "keeps_areas s (wr p v t) = keeps_areas s t" "keeps_areas s (local_intr_restore b t) = keeps_areas s t"
  "keeps_areas s (set_units a u t) = keeps_areas s t" "keeps_areas s (set_snext a b' t) = keeps_areas s t"
  "keeps_areas s (set_slobfree a t) = keeps_areas s t" "keeps_areas s (upd_bb a g t) = keeps_areas s t"
  by (simp_all add: keeps_areas_def wr_def local_intr_restore_def set_units_def set_snext_def set_slobfree_def upd_bb_def)

lemma keeps_areas_save: "local_intr_save s = (b, t) \<Longrightarrow> keeps_areas s t"
  by (auto simp: local_intr_save_def keeps_areas_def split: prod.splits)

lemma get_pte_no_alloc_keeps: "get_pte_with no_alloc pd la c s = Inr (t, r) \<Longrightarrow> t = s"
  by (auto simp: get_pte_with_def ensure_table_def no_alloc_def bindR_eq_Inr Let_def split: if_splits)

lemma victim_keeps: "fifo_swap_out_victim mm tick s = Inr (t, r) \<Longrightarrow> keeps_areas s t"
  by (auto simp: fifo_swap_out_victim_def bindR_eq_Inr Let_def split: if_splits option.splits pra_ptr.splits)

lemma map_swappable_keeps: "fifo_map_swappable mm a page i s = Inr (t, r) \<Longrightarrow> keeps_areas s t"
  by (auto simp: fifo_map_swappable_def split: if_splits option.splits)

lemma swapfs_write_keeps: "swapfs_write e page s = Inr (t, r) \<Longrightarrow> keeps_areas s t"
  by (auto simp: swapfs_write_def ide_write_secs_def bindR_eq_Inr split: if_splits)

lemma free_pages_keeps: "free_pages page n s = Inr t \<Longrightarrow> keeps_areas s t"
  by (auto simp: free_pages_eq bindR_eq_Inr)

lemmas swap_steps_keep = victim_keeps map_swappable_keeps swapfs_write_keeps free_pages_keeps

lemma swap_out_one_keeps: "swap_out_one mm tick s = Inr (t, r) \<Longrightarrow> keeps_areas s t"
  unfolding swap_out_one_def free_page_def
  by (auto simp: bindR_eq_Inr Let_def dest!: get_pte_no_alloc_keeps swap_steps_keep split: if_splits option.splits)
    (auto simp: keeps_areas_def wr_def)

lemma swap_out_keeps: "swap_out_loop n mm tick s i = Inr (t, r) \<Longrightarrow> keeps_areas s t"
proof (induction n arbitrary: s i)
  case (Suc n)
  then show ?case
    by (fastforce simp: bindR_eq_Inr split: if_splits dest: swap_out_one_keeps intro: keeps_areas_trans)
qed simp

lemma pmm_alloc_keeps: "pmm_alloc n s = Inr (t, r) \<Longrightarrow> keeps_areas s t"
  by (auto simp: pmm_alloc_eq bindR_eq_Inr)

definition keepsR :: "mstate \<Rightarrow> (mstate \<times> 'r) res \<Rightarrow> bool" where
  "keepsR s m \<longleftrightarrow> (\<forall>t r. m = Inr (t, r) \<longrightarrow> keeps_areas s t)"

lemma keepsRD: "keepsR s m \<Longrightarrow> m = Inr (t, r) \<Longrightarrow> keeps_areas s t"
  by (simp add: keepsR_def)

lemma alloc_pages_loop_keeps: "alloc_pages_loop n s = Some y \<Longrightarrow> keepsR s y"
proof (rule alloc_pages_loop.raw_induct [where P = "\<lambda>n s y. keepsR s y"])
  fix f n s y
  assume IH: "\<And>n s y. f n s = Some y \<Longrightarrow> keepsR s y"
    and run: "(case pmm_alloc n s of Inl e \<Rightarrow> Some (Inl e)
        | Inr r \<Rightarrow> if snd r \<noteq> None \<or> 1 < n \<or> \<not> swap_init_ok (fst r) then Some (Inr r)
            else (case swap_out (check_mm_struct (fst r)) n 0 (fst r) of Inl e \<Rightarrow> Some (Inl e)
                 | Inr q \<Rightarrow> f n (fst q))) = Some y"
  show "keepsR s y"
    unfolding keepsR_def
  proof (intro allI impI)
    fix t r assume y: "y = Inr (t, r)"
    with run obtain s1 q where a: "pmm_alloc n s = Inr (s1, q)" by (auto split: sum.splits)
    note k = pmm_alloc_keeps [OF a]
    show "keeps_areas s t"
    proof (cases "q \<noteq> None \<or> n > 1 \<or> \<not> swap_init_ok s1")
      case True
      with run a y k show ?thesis by simp
    next
      case False
      with run a y obtain s2 j where b: "swap_out (check_mm_struct s1) n 0 s1 = Inr (s2, j)" "f n s2 = Some y"
        by (auto split: sum.splits)
      from swap_out_keeps b(1) have "keeps_areas s1 s2" unfolding swap_out_def by blast
      with IH [OF b(2)] y k show ?thesis by (blast intro: keeps_areas_trans dest: keepsRD)
    qed
  qed
qed

lemma alloc_pages_keeps: "keepsR s (alloc_pages n s)"
  using alloc_pages_loop_keeps [of n s] by (auto simp: alloc_pages_def keepsR_def split: option.splits)

lemma slob_pages_keeps: "keepsR s (slob_get_free_pages k s)"
  using alloc_pages_keeps [of s "2 ^ k"]
  by (fastforce simp: slob_get_free_pages_def keepsR_def bindR_eq_Inr split: option.splits)

lemma slob_link_keeps: "keeps_areas s (slob_link b cur s)"
  by (simp add: slob_link_def Let_def)

lemma slob_take_keeps: "keeps_areas s (fst (slob_take n delta al prv cur s))"
  by (simp add: slob_take_def Let_def split: prod.splits)

lemma slob_free_keeps: "slob_free b sz s = Inr t \<Longrightarrow> keeps_areas s t"
proof (cases "b = 0")
  case False
  assume run: "slob_free b sz s = Inr t"
  let ?s = "if sz \<noteq> 0 then set_units b (SLOB_UNITS sz) s else s"
  obtain fl s1 where s1: "local_intr_save ?s = (fl, s1)" by fastforce
  from run False s1 obtain cur where "t = local_intr_restore fl (slob_link b cur s1)"
    by (auto simp: slob_free_def bindR_eq_Inr)
  then have "keeps_areas s1 t" using slob_link_keeps by simp
  moreover have "keeps_areas ?s s1" by (rule keeps_areas_save [OF s1])
  moreover have "keeps_areas s ?s" by simp
  ultimately show ?thesis by (blast intro: keeps_areas_trans)
qed (auto simp: slob_free_def)

lemma slob_alloc_loop_keeps: "slob_alloc_loop sz al n fl prv cur s = Some y \<Longrightarrow> keepsR s y"
proof (rule slob_alloc_loop.raw_induct [where P = "\<lambda>sz al n fl prv cur s y. keepsR s y"])
  fix f :: "nat \<Rightarrow> nat \<Rightarrow> int \<Rightarrow> bool \<Rightarrow> addr \<Rightarrow> addr \<Rightarrow> mstate \<Rightarrow> (mstate \<times> addr) res option"
  fix sz al n fl prv cur s y
  assume IH: "\<And>sz al n fl prv cur s y. f sz al n fl prv cur s = Some y \<Longrightarrow> keepsR s y"
  let ?al = "slob_aligned al cur" and ?d = "slob_delta al cur"
  assume run: "(if slob_units s cur \<ge> n + slob_delta al cur then
           (let r = slob_take n (slob_delta al cur) (slob_aligned al cur) prv cur s
            in Some (Inr (local_intr_restore fl (fst r), snd r)))
         else if cur = slobfree (slob s) then
           (let s = local_intr_restore fl s
            in if sz = PAGE_SIZE then Some (Inr (s, 0))
               else (case slob_get_free_pages 0 s of
                  Inl e \<Rightarrow> Some (Inl e)
                | Inr r \<Rightarrow>
                    if snd r = 0 then Some (Inr (fst r, 0))
                    else (case slob_free (snd r) PAGE_SIZE (fst r) of
                       Inl e \<Rightarrow> Some (Inl e)
                     | Inr s \<Rightarrow>
                         (let p = local_intr_save s;
                              cur = slobfree (slob (snd p))
                          in f sz al n (fst p) cur (slob_next (snd p) cur) (snd p)))))
         else f sz al n fl cur (slob_next s cur) s) = Some y"
  show "keepsR s y"
  proof (cases "slob_units s cur \<ge> n + ?d")
    case True
    with run have "y = Inr (local_intr_restore fl (fst (slob_take n ?d ?al prv cur s)), snd (slob_take n ?d ?al prv cur s))"
      by (simp add: Let_def)
    then show ?thesis using slob_take_keeps by (simp add: keepsR_def)
  next
    case small: False
    show ?thesis
    proof (cases "cur = slobfree (slob s)")
      case False
      with small run have "f sz al n fl cur (slob_next s cur) s = Some y" by (simp add: Let_def)
      then show ?thesis by (rule IH)
    next
      case True
      let ?s = "local_intr_restore fl s"
      show ?thesis
      proof (cases "sz = PAGE_SIZE \<or> (\<exists>e. slob_get_free_pages 0 ?s = Inl e)")
        case True
        with small run \<open>cur = slobfree (slob s)\<close> show ?thesis by (auto simp: Let_def keepsR_def split: sum.splits if_splits)
      next
        case False
        then obtain s1 a where a: "slob_get_free_pages 0 ?s = Inr (s1, a)" "sz \<noteq> PAGE_SIZE"
          by (cases "slob_get_free_pages 0 ?s") auto
        then have k1: "keeps_areas s s1" using keepsRD [OF slob_pages_keeps a(1)] by (simp add: keeps_areas_def local_intr_restore_def)
        show ?thesis
        proof (cases "a = 0 \<or> (\<exists>e. slob_free a PAGE_SIZE s1 = Inl e)")
          case True
          with small run \<open>cur = slobfree (slob s)\<close> a k1 show ?thesis
            by (auto simp: Let_def keepsR_def split: if_splits)
        next
          case False
          then obtain s2 where s2: "slob_free a PAGE_SIZE s1 = Inr s2" "a \<noteq> 0" by (cases "slob_free a PAGE_SIZE s1") auto
          obtain b s3 where s3: "local_intr_save s2 = (b, s3)" by fastforce
          from small run \<open>cur = slobfree (slob s)\<close> a s2 s3 have "f sz al n b (slobfree (slob s3)) (slob_next s3 (slobfree (slob s3))) s3 = Some y"
            by (simp add: Let_def)
          from IH [OF this] have "keepsR s3 y" .
          moreover have "keeps_areas s s3"
            using k1 slob_free_keeps [OF s2(1)] keeps_areas_save [OF s3] by (blast intro: keeps_areas_trans)
          ultimately show ?thesis unfolding keepsR_def by (blast intro: keeps_areas_trans)
        qed
      qed
    qed
  qed
qed

lemma slob_alloc_keeps: "keepsR s (slob_alloc sz al s)"
proof -
  obtain fl s1 where s1: "local_intr_save s = (fl, s1)" by fastforce
  have "keepsR s1 y" if "slob_alloc_loop sz al n fl p c s1 = Some y" for n p c y using slob_alloc_loop_keeps [OF that] .
  then show ?thesis using keeps_areas_save [OF s1] s1
    by (auto simp: slob_alloc_def keepsR_def assertR_def Let_def split: option.splits intro: keeps_areas_trans)
qed

lemma kmalloc_keeps: "keepsR s (kmalloc sz s)"
proof (cases "sz < PAGE_SIZE - SLOB_UNIT")
  case True
  then show ?thesis using slob_alloc_keeps [of s "sz + SLOB_UNIT" 0]
    by (auto simp: kmalloc_def keepsR_def bindR_eq_Inr)
next
  case False
  show ?thesis
    unfolding keepsR_def
  proof (intro allI impI)
    fix t r assume run: "kmalloc sz s = Inr (t, r)"
    with False obtain s1 bb where a: "slob_alloc sizeof_bigblock 0 s = Inr (s1, bb)"
      by (auto simp: kmalloc_def bindR_eq_Inr)
    note k1 = keepsRD [OF slob_alloc_keeps a]
    show "keeps_areas s t"
    proof (cases "bb = 0")
      case True
      with run False a k1 show ?thesis by (auto simp: kmalloc_def)
    next
      case nz: False
      let ?order = "find_order (sint (of_nat sz :: s32))"
      let ?s2 = "upd_bb bb (\<lambda>b. b\<lparr>bb_order := ?order\<rparr>) s1"
      obtain s3 pg where b: "slob_get_free_pages ?order ?s2 = Inr (s3, pg)"
        using run False a nz by (auto simp: kmalloc_def bindR_eq_Inr Let_def)
      have k3: "keeps_areas s s3" using k1 keepsRD [OF slob_pages_keeps b] by (simp add: keeps_areas_def upd_bb_def)
      show ?thesis
      proof (cases "pg = 0")
        case True
        then have "slob_free bb sizeof_bigblock (upd_bb bb (\<lambda>b. b\<lparr>bb_pages := pg\<rparr>) s3) = Inr t"
          using run False a nz b by (auto simp: kmalloc_def bindR_eq_Inr Let_def)
        from slob_free_keeps [OF this] k3 show ?thesis by (simp add: keeps_areas_def upd_bb_def)
      next
        case False
        obtain fl s4 where s4: "local_intr_save (upd_bb bb (\<lambda>b. b\<lparr>bb_pages := pg\<rparr>) s3) = (fl, s4)" by fastforce
        have k4: "keeps_areas s s4" using keeps_areas_save [OF s4] k3 by (simp add: keeps_areas_def upd_bb_def)
        then show ?thesis
          using run \<open>\<not> sz < PAGE_SIZE - SLOB_UNIT\<close> a nz b False s4 by (auto simp: kmalloc_def Let_def)
      qed
    qed
  qed
qed

section \<open>Mapping a range\<close>

lemma vma_rep_keeps: "vma_rep s mm vs \<Longrightarrow> keeps_areas s t \<Longrightarrow> vma_rep t mm vs"
  by (simp add: vma_rep_def keeps_areas_def)

lemma vma_rep_cong:
  assumes "\<forall>v\<in>set vs. vmas t v = vmas s v" and "mms t = mms s" and "mmap_link t = mmap_link s"
  shows "vma_rep t mm vs = vma_rep s mm vs"
proof -
  have m: "map (vmas t) vs = map (vmas s) vs" using assms(1) by (intro map_cong refl) auto
  show ?thesis unfolding vma_rep_def m assms(2,3) using assms(1) by auto
qed

lemma vma_rep_new_vma: "vma_rep s mm vs \<Longrightarrow> a \<notin> set vs \<Longrightarrow> vma_rep (upd_vma a f s) mm vs"
  by (subst vma_rep_cong [where s = s]) (auto simp: upd_vma_def)

lemma find_vma_none:
  assumes "vma_rep s mm vs" and "mm \<noteq> 0" and "\<forall>u\<in>set vs. \<not> in_vma (vmas s u) a"
  shows "find_vma mm a s = Inr (s, 0)"
proof -
  from find_vma_ok [OF assms(1,2), of a] obtain v s' where v: "find_vma mm a s = Inr (s', v)"
    "s' = s\<lparr>mms := (mms s)(mm := (mms s mm)\<lparr>mmap_cache := if v = 0 then mmap_cache (mms s mm) else v\<rparr>)\<rparr>"
    "if v = 0 then \<forall>u\<in>set vs. \<not> in_vma (vmas s u) a
      else v \<in> set vs \<and> in_vma (vmas s v) a \<and> (\<forall>u\<in>set vs. in_vma (vmas s u) a \<longrightarrow> u = v)" by blast
  with assms(3) have "v = 0" by metis
  with v(1,2) show ?thesis by simp
qed

lemma find_vma_some:
  assumes "vma_rep s mm vs" and "mm \<noteq> 0" and "u \<in> set vs" and "in_vma (vmas s u) a"
  shows "find_vma mm a s = Inr (upd_mm mm (\<lambda>m. m\<lparr>mmap_cache := u\<rparr>) s, u)"
proof -
  from find_vma_ok [OF assms(1,2), of a] obtain v s' where v: "find_vma mm a s = Inr (s', v)"
    "s' = s\<lparr>mms := (mms s)(mm := (mms s mm)\<lparr>mmap_cache := if v = 0 then mmap_cache (mms s mm) else v\<rparr>)\<rparr>"
    "if v = 0 then \<forall>u\<in>set vs. \<not> in_vma (vmas s u) a
      else v \<in> set vs \<and> in_vma (vmas s v) a \<and> (\<forall>u\<in>set vs. in_vma (vmas s u) a \<longrightarrow> u = v)" by blast
  with assms(3,4) have "v = u" "v \<noteq> 0" by metis+
  with v(1,2) show ?thesis by (simp add: upd_mm_def)
qed

definition new_area :: "u64 \<Rightarrow> u64 \<Rightarrow> u32 \<Rightarrow> vma_struct \<Rightarrow> vma_struct" where
  "new_area start en fl v = v\<lparr>vm_start := start, vm_end := en, vm_flags := fl\<rparr>"

lemma mm_map_ok:
  assumes rep: "vma_rep s mm vs" and mm: "mm \<noteq> 0" and start: "start = ROUNDDOWN addr PGSIZE"
    and en: "en = ROUNDUP (addr + len) PGSIZE" and ua: "USER_ACCESS start en"
    and free: "\<forall>u\<in>set vs. \<not> in_vma (vmas s u) start"
    and km: "kmalloc sizeof_vma_struct s = Inr (s2, a)" and new: "a \<notin> set vs" "a \<noteq> 0"
  shows "if \<forall>u\<in>set vs. apart (vmas s u) (new_area start en fl (vmas s a))
     then \<exists>s'. mm_map mm addr len fl s = Inr (s', a, 0) \<and> vma_rep s' mm (lower s start vs @ a # upper s start vs) \<and>
        vm_start (vmas s' a) = start \<and> vm_end (vmas s' a) = en \<and> vm_flags (vmas s' a) = fl \<and>
        (\<forall>u. u \<noteq> a \<longrightarrow> vmas s' u = vmas s u)
     else \<exists>msg. mm_map mm addr len fl s = Inl (AssertFail msg)"
proof -
  let ?s3 = "upd_vma a (\<lambda>v. v\<lparr>vm_start := start, vm_end := en, vm_flags := fl\<rparr>) s2"
  have k: "keeps_areas s s2" by (rule keepsRD [OF kmalloc_keeps km])
  have rep3: "vma_rep ?s3 mm vs" by (rule vma_rep_new_vma [OF vma_rep_keeps [OF rep k] new(1)])
  have vm: "vmas ?s3 = (vmas s)(a := new_area start en fl (vmas s a))"
    using k by (simp add: upd_vma_def keeps_areas_def new_area_def)
  have run: "mm_map mm addr len fl s = bindR (insert_vma_struct mm a ?s3) (\<lambda>s. Inr (s, a, 0))"
    using ua mm new find_vma_none [OF rep mm free] km
    by (simp add: mm_map_def start [symmetric] en [symmetric] vma_create_def Let_def)
  have len': "vm_start (vmas ?s3 a) < vm_end (vmas ?s3 a)" using ua by (simp add: vm new_area_def USER_ACCESS_def)
  have "takeWhile (\<lambda>v. vm_start (vmas ?s3 v) \<le> start) vs = lower s start vs"
    "dropWhile (\<lambda>v. vm_start (vmas ?s3 v) \<le> start) vs = upper s start vs"
    using new(1) by (auto simp: vm intro!: takeWhile_cong dropWhile_cong)
  moreover have af: "area_free ?s3 vs a \<longleftrightarrow> (\<forall>u\<in>set vs. apart (vmas s u) (new_area start en fl (vmas s a)))"
    using new(1) by (auto simp: area_free_def vm)
  moreover have "vm_start (vmas ?s3 a) = start" by (simp add: vm new_area_def)
  ultimately have ins: "if \<forall>u\<in>set vs. apart (vmas s u) (new_area start en fl (vmas s a))
     then \<exists>s'. insert_vma_struct mm a ?s3 = Inr s' \<and> vma_rep s' mm (lower s start vs @ a # upper s start vs) \<and>
       s' = (upd_mm mm (\<lambda>m. m\<lparr>map_count := map_count m + 1\<rparr>) (upd_vma a (\<lambda>v. v\<lparr>vm_mm := mm\<rparr>) ?s3))\<lparr>mmap_link := mmap_link s'\<rparr>
     else \<exists>msg. insert_vma_struct mm a ?s3 = Inl (AssertFail msg)"
    using insert_vma_ok [OF rep3 new len'] by (simp only:)
  show ?thesis
  proof (cases "\<forall>u\<in>set vs. apart (vmas s u) (new_area start en fl (vmas s a))")
    case True
    from ins [unfolded if_P [OF True]] obtain s' where s': "insert_vma_struct mm a ?s3 = Inr s'" "vma_rep s' mm (lower s start vs @ a # upper s start vs)"
      "s' = (upd_mm mm (\<lambda>m. m\<lparr>map_count := map_count m + 1\<rparr>) (upd_vma a (\<lambda>v. v\<lparr>vm_mm := mm\<rparr>) ?s3))\<lparr>mmap_link := mmap_link s'\<rparr>"
      by blast
    have "vmas s' = (vmas ?s3)(a := (vmas ?s3 a)\<lparr>vm_mm := mm\<rparr>)"
      using arg_cong [OF s'(3), of vmas] by (simp add: upd_mm_def upd_vma_def)
    then have "vmas s' = (vmas s)(a := (new_area start en fl (vmas s a))\<lparr>vm_mm := mm\<rparr>)" by (simp add: vm)
    then have "vm_start (vmas s' a) = start \<and> vm_end (vmas s' a) = en \<and> vm_flags (vmas s' a) = fl \<and>
        (\<forall>u. u \<noteq> a \<longrightarrow> vmas s' u = vmas s u)" by (simp add: new_area_def)
    with s'(1,2) run show ?thesis unfolding if_P [OF True] by simp
  next
    case False
    from ins [unfolded if_not_P [OF False]] run show ?thesis unfolding if_not_P [OF False] by auto
  qed
qed

end
