(* ===== verification/Vmm_Fault.thy ===== *)
theory Vmm_Fault
  imports Vmm_Areas
begin

text \<open>
  The page fault handler \<open>do_pgfault\<close> of kern/mm/vmm.c without swapping: an address in an area gets a
  fresh page with the permissions of the area, any other address is refused; and the properties of
  the areas, with a small machine as their witness.
\<close>

section \<open>Allocating and mapping a page\<close>

lemma pgdir_alloc_page_ok:
  assumes d: "kva_frame s pd = Inr d" and inv: "minv s F" and wf: "pt_wf (npage s) (pmem s) d F"
    and la: "la < USERTOP" and mem: "3 \<le> card F \<or> F \<noteq> {} \<and> walk (pmem s) d la \<noteq> None"
    and v: "\<not> bit (leaf (pmem s) d la) 0" and sw: "\<not> (swap_init_ok s \<and> check_mm_struct s \<noteq> 0)"
  shows "\<exists>s' F' page. pgdir_alloc_page pd la perm s = Inr (s', Some page) \<and> page \<in> F \<and> page \<notin> F' \<and> F' \<subseteq> F \<and>
    minv s' F' \<and> pt_wf (npage s') (pmem s') d F' \<and> maps_page s s' d la page perm \<and>
    s' = s\<lparr>fa := fa s', pmem := pmem s'\<rparr>"
proof -
  have ne: "F \<noteq> {}" using mem by auto
  from alloc_page_some [OF inv ne] obtain f page where a: "alloc_page s = Inr (s\<lparr>fa := f\<rparr>, Some page)" "page \<in> F"
    "minv (s\<lparr>fa := f\<rparr>) (F - {page})" by blast
  let ?s = "s\<lparr>fa := f\<rparr>"
  have d': "kva_frame ?s pd = Inr d" using d by (simp add: kva_frame_def Let_def)
  have wf': "pt_wf (npage ?s) (pmem ?s) d (F - {page})" using pt_wf_mono [OF wf, of "F - {page}"] by auto
  have "card F = Suc (card (F - {page}))" using card.remove [OF minv_finite [OF inv] a(2)] .
  then have mem': "2 \<le> card (F - {page}) \<or> walk (pmem ?s) d la \<noteq> None" using mem by auto
  have v': "\<not> bit (leaf (pmem ?s) d la) 0" using v by simp
  obtain s' F' where s': "page_insert pd page la perm ?s = Inr (s', 0)" "F' \<subseteq> F - {page}" "minv s' F'"
    "pt_wf (npage s') (pmem s') d F'" "maps_page ?s s' d la page perm" "s' = ?s\<lparr>fa := fa s', pmem := pmem s'\<rparr>"
    using page_insert_empty [OF d' a(3) wf' la mem' _ v', of page perm] by blast
  have "\<not> (swap_init_ok s' \<and> check_mm_struct s' \<noteq> 0)"
    using arg_cong [OF s'(6), of swap_init_ok] arg_cong [OF s'(6), of check_mm_struct] sw by simp
  then have "pgdir_alloc_page pd la perm s = Inr (s', Some page)"
    using a(1) s'(1) by (auto simp: pgdir_alloc_page_def)
  moreover have "s' = s\<lparr>fa := fa s', pmem := pmem s'\<rparr>" using s'(6) by simp
  moreover have "maps_page s s' d la page perm" using s'(5) by (simp add: maps_page_def)
  ultimately show ?thesis using s'(2-4) a(2) by blast
qed

section \<open>Page addresses\<close>

lemma unat_ROUNDDOWN: "unat (ROUNDDOWN a PGSIZE) = unat a - unat a mod 4096"
proof -
  have "a mod PGSIZE \<le> a" by (simp add: word_le_nat_alt unat_mod_distrib PGSIZE_def)
  then show ?thesis by (simp add: ROUNDDOWN_def unat_sub unat_mod_distrib PGSIZE_def)
qed

lemma ROUNDDOWN_le: "ROUNDDOWN a PGSIZE \<le> a"
  by (simp add: word_le_nat_alt unat_ROUNDDOWN)

lemma PPN_ROUNDDOWN: "PPN (ROUNDDOWN a PGSIZE) = PPN a"
proof -
  have "unat (PPN (ROUNDDOWN a PGSIZE)) = unat (PPN a)"
    unfolding unat_index unat_ROUNDDOWN by (simp add: minus_mod_eq_mult_div)
  then show ?thesis by (simp add: word_unat_eq_iff)
qed

lemma leaf_PPN: "la < USERTOP \<Longrightarrow> la' < USERTOP \<Longrightarrow> PPN la = PPN la' \<Longrightarrow> leaf m d la = leaf m d la'"
  using same_page [of la la'] by (simp add: leaf_def walk_def)

section \<open>The handler\<close>

lemma do_pgfault_fresh:
  assumes rep: "vma_rep s mm vs" and mm: "mm \<noteq> 0" and v: "v \<in> set vs" "in_vma (vmas s v) a" and a: "a < USERTOP"
    and d: "kva_frame s (pgdir (mms s mm)) = Inr d" and inv: "minv s F" and wf: "pt_wf (npage s) (pmem s) d F"
    and lf: "leaf (pmem s) d a = 0" and mem: "3 \<le> card F" and sw: "\<not> (swap_init_ok s \<and> check_mm_struct s \<noteq> 0)"
  shows "\<exists>s' F' page. do_pgfault mm ec a s = Inr (s', 0) \<and> page \<in> F \<and> page \<notin> F' \<and> F' \<subseteq> F \<and> minv s' F' \<and>
    pt_wf (npage s') (pmem s') d F' \<and> maps_page s s' d a page (fault_perm (vmas s v)) \<and>
    vmas s' = vmas s \<and> mmap_link s' = mmap_link s \<and> mms s' = mms (upd_mm mm (\<lambda>m. m\<lparr>mmap_cache := v\<rparr>) s) \<and>
    swap_init_ok s' = swap_init_ok s \<and> npage s' = npage s"
proof -
  let ?la = "ROUNDDOWN a PGSIZE"
  have la: "?la < USERTOP" using ROUNDDOWN_le a by (rule le_less_trans)
  define s1 where "s1 = (upd_mm mm (\<lambda>m. m\<lparr>mmap_cache := v\<rparr>) s)\<lparr>pgfault_num := pgfault_num s + 1\<rparr>"
  have f1: "fa s1 = fa s" "pmem s1 = pmem s" "npage s1 = npage s" "vmas s1 = vmas s" "mmap_link s1 = mmap_link s"
    "mms s1 = mms (upd_mm mm (\<lambda>m. m\<lparr>mmap_cache := v\<rparr>) s)" "pgdir (mms s1 mm) = pgdir (mms s mm)"
    "swap_init_ok s1 = swap_init_ok s" "check_mm_struct s1 = check_mm_struct s"
    by (simp_all add: s1_def upd_mm_def)
  have inv1: "minv s1 F" using inv by (simp add: minv_def f1)
  have wf1: "pt_wf (npage s1) (pmem s1) d F" using wf by (simp add: f1)
  have d1: "kva_frame s1 (pgdir (mms s mm)) = Inr d" using d by (simp add: kva_frame_def f1)
  obtain s2 F2 r where 2: "get_pte (pgdir (mms s mm)) ?la True s1 = Inr (s2, r)" "pt_ext d s1 F s2 F2" "card F \<le> card F2 + 2"
    "case r of None \<Rightarrow> card F < 2 | Some p \<Rightarrow> walk (pmem s2) d ?la = Some p"
    using get_pte_create [OF d1 inv1 wf1 upath_user [OF la]] mem by (metis Suc_leD numeral_3_eq_3 numeral_2_eq_2)
  then obtain g k where r: "r = Some (g, k)" and w: "walk (pmem s2) d ?la = Some (g, k)" using mem by (cases r) auto
  note e = pt_extD [OF 2(2)]
  have lf2: "leaf (pmem s2) d ?la = 0"
    using e(5) [OF upath_user [OF la]] leaf_PPN [OF la a PPN_ROUNDDOWN] lf f1(2) by simp
  then have zero: "rd s2 (g, k) = 0" using walk_user(3) [OF w] by (simp add: rd_def)
  have f2: "npage s2 = npage s" "vmas s2 = vmas s" "mmap_link s2 = mmap_link s" "mms s2 = mms s1" "swap_init_ok s2 = swap_init_ok s"
    using arg_cong [OF e(1), of npage] arg_cong [OF e(1), of vmas] arg_cong [OF e(1), of mmap_link]
      arg_cong [OF e(1), of mms] arg_cong [OF e(1), of swap_init_ok] f1 by simp_all
  have d2: "kva_frame s2 (pgdir (mms s mm)) = Inr d" using d by (simp add: kva_frame_def f2)
  have wn: "F2 \<noteq> {} \<and> walk (pmem s2) d ?la \<noteq> None" using 2(3) mem w by auto
  have nb: "\<not> bit (leaf (pmem s2) d ?la) 0" using lf2 by simp
  have sw2: "\<not> (swap_init_ok s2 \<and> check_mm_struct s2 \<noteq> 0)"
    using sw f2(5) f1(9) arg_cong [OF e(1), of check_mm_struct] by simp
  have wf2: "pt_wf (npage s2) (pmem s2) d F2" using e(4) f1(3) f2(1) by simp
  obtain s' F' page where s': "pgdir_alloc_page (pgdir (mms s mm)) ?la (fault_perm (vmas s v)) s2 = Inr (s', Some page)"
    "page \<in> F2" "page \<notin> F'" "F' \<subseteq> F2" "minv s' F'" "pt_wf (npage s') (pmem s') d F'"
    "maps_page s2 s' d ?la page (fault_perm (vmas s v))" "s' = s2\<lparr>fa := fa s', pmem := pmem s'\<rparr>"
    using pgdir_alloc_page_ok [OF d2 e(3) wf2 la disjI2 [OF wn] nb sw2] by blast
  have find: "find_vma mm a s = Inr (upd_mm mm (\<lambda>m. m\<lparr>mmap_cache := v\<rparr>) s, v)" using find_vma_some [OF rep mm v] .
  have "v \<noteq> 0" "\<not> a < vm_start (vmas s v)" using rep v by (simp_all add: vma_rep_def in_vma_def not_less)
  moreover have "(upd_mm mm (\<lambda>m. m\<lparr>mmap_cache := v\<rparr>) s)\<lparr>pgfault_num :=
      pgfault_num (upd_mm mm (\<lambda>m. m\<lparr>mmap_cache := v\<rparr>) s) + 1\<rparr> = s1" by (simp add: s1_def upd_mm_def)
  moreover have "pgdir (mms s2 mm) = pgdir (mms s mm)" using f2(4) f1(7) by simp
  moreover have "vmas (upd_mm mm (\<lambda>m. m\<lparr>mmap_cache := v\<rparr>) s) = vmas s" by (simp add: upd_mm_def)
  ultimately have "do_pgfault mm ec a s = Inr (s', 0)"
    by (simp add: do_pgfault_def Let_def find 2(1) r zero s'(1) f1(4,7))
  moreover have "maps_page s s' d a page (fault_perm (vmas s v))"
  proof -
    have "leaf (pmem s2) d la' = leaf (pmem s) d la'" if "la' < USERTOP" for la'
      using e(5) [OF upath_user [OF that]] f1(2) by simp
    then show ?thesis using s'(7) unfolding maps_page_def PPN_ROUNDDOWN by simp
  qed
  moreover have "vmas s' = vmas s" "mmap_link s' = mmap_link s" "mms s' = mms s1" "swap_init_ok s' = swap_init_ok s" "npage s' = npage s"
    using arg_cong [OF s'(8), of npage] arg_cong [OF s'(8), of vmas] arg_cong [OF s'(8), of mmap_link]
      arg_cong [OF s'(8), of mms] arg_cong [OF s'(8), of swap_init_ok] f2 by simp_all
  moreover have "page \<in> F" "F' \<subseteq> F" using s'(2,4) e(2) by auto
  ultimately show ?thesis using s'(3,5,6) f1(6)
    by (intro exI [of _ s'] exI [of _ F'] exI [of _ page] conjI) (assumption | simp only:)+
qed

lemma do_pgfault_refused:
  assumes "vma_rep s mm vs" and "mm \<noteq> 0" and "\<forall>u\<in>set vs. \<not> in_vma (vmas s u) a"
  shows "do_pgfault mm ec a s = Inr (s\<lparr>pgfault_num := pgfault_num s + 1\<rparr>, - E_INVAL)"
  using find_vma_none [OF assms] by (simp add: do_pgfault_def)

section \<open>A machine with one area\<close>

text \<open>The machine of eight pages with an mm_struct at 64, whose only area is the vma_struct at 128.\<close>

definition demo_state :: "u32 \<Rightarrow> free_state \<Rightarrow> mstate" where
  "demo_state fl f = (mem8_state f)\<lparr>
     mms := (\<lambda>_. \<lparr>mmap_cache = 0, pgdir = mem8_root, map_count = 1, sm_priv = None, mm_count = 1, mm_lock = 0\<rparr>),
     vmas := (\<lambda>_. \<lparr>vm_mm = 64, vm_start = 0x200000, vm_end = 0x203000, vm_flags = fl\<rparr>),
     mmap_link := list_add_after (list_init links0 (MmapList 64)) (MmapList 64) (VmaLink 128),
     slob := \<lparr>units = (\<lambda>_. 0)(16 := 1, 4096 := 100), snext = (\<lambda>_. 0)(16 := 4096, 4096 := 16), slobfree = 16,
       bigblocks = 0, bbs = (\<lambda>_. \<lparr>bb_order = 0, bb_pages = 0, bb_next = 0\<rparr>)\<rparr>\<rparr>"

lemma demo_fields:
  "fa (demo_state fl f) = f" "npage (demo_state fl f) = nbase + 8" "pmem (demo_state fl f) = (\<lambda>_ _. 0)"
  "swap_init_ok (demo_state fl f) = False" "pgdir (mms (demo_state fl f) mm) = mem8_root"
  "vmas (demo_state fl f) v = \<lparr>vm_mm = 64, vm_start = 0x200000, vm_end = 0x203000, vm_flags = fl\<rparr>"
  by (simp_all add: demo_state_def mem8_state_def)

lemma demo_rep: "vma_rep (demo_state fl f) 64 [128]"
proof -
  have "dll (list_add_after (list_init links0 (MmapList 64)) (MmapList 64) (VmaLink 128)) (MmapList 64) [VmaLink 128]"
    using lh.push_front [OF lh.rep_init [of links0 "MmapList 64"], of "VmaLink 128"] by simp
  then show ?thesis by (simp add: vma_rep_def demo_state_def)
qed

lemma demo_mem: "\<exists>f. kva_frame (demo_state fl f) (pgdir (mms (demo_state fl f) 64)) = Inr nbase \<and>
    minv (demo_state fl f) {3..<8} \<and> pt_wf (npage (demo_state fl f)) (pmem (demo_state fl f)) nbase {3..<8}"
proof -
  obtain f where f: "minv (mem8_state f) {3..<8}" "pt_wf (nbase + 8) (\<lambda>_ _. 0) nbase {3..<8}" using mem8_ok by blast
  moreover have "kva_frame (demo_state fl f) mem8_root = Inr nbase"
    using mem8_root_frame [of f] by (simp add: kva_frame_def demo_fields mem8_fields)
  ultimately show ?thesis by (intro exI [of _ f]) (simp add: minv_def demo_fields mem8_fields)
qed

lemma demo_in: "in_vma (vmas (demo_state fl f) v) 0x200100" "(0x200100 :: u64) < USERTOP"
  by (simp_all add: in_vma_def demo_fields USERTOP_def)

section \<open>Properties of areas and page faults\<close>

text \<open>\<open>find_vma\<close> returns the one area that contains the address, and NULL exactly when none does; it
  changes nothing but the cache.\<close>

theorem find_vma_correct:
  assumes "vma_rep s mm vs" and "mm \<noteq> 0"
  shows "\<exists>s' v. find_vma mm a s = Inr (s', v) \<and> vma_rep s' mm vs \<and> vmas s' = vmas s \<and>
     (v = 0 \<longleftrightarrow> (\<forall>u\<in>set vs. \<not> in_vma (vmas s u) a)) \<and>
     (v \<noteq> 0 \<longrightarrow> v \<in> set vs \<and> in_vma (vmas s v) a \<and> (\<forall>u\<in>set vs. in_vma (vmas s u) a \<longrightarrow> u = v))"
proof (cases "\<exists>u\<in>set vs. in_vma (vmas s u) a")
  case False
  with find_vma_none [OF assms, of a] assms(1) show ?thesis by (intro exI [of _ s] exI [of _ 0]) auto
next
  case True
  then obtain u where u: "u \<in> set vs" "in_vma (vmas s u) a" by blast
  have uniq: "w = u" if "w \<in> set vs" "in_vma (vmas s w) a" for w
    using in_vma_unique [OF _ that(1) u(1) that(2) u(2)] assms(1) by (simp add: vma_rep_def)
  have nz: "u \<noteq> 0" using assms(1) u(1) by (simp add: vma_rep_def)
  have same: "vmas (upd_mm mm (\<lambda>m. m\<lparr>mmap_cache := u\<rparr>) s) = vmas s" by (simp add: upd_mm_def)
  show ?thesis
    using find_vma_some [OF assms u] vma_rep_cache [OF assms(1) u(1)] same u uniq nz by blast
qed

theorem find_vma_correct_witness: "\<exists>s s'. find_vma 64 0x200100 s = Inr (s', 128)"
proof -
  from find_vma_correct [OF demo_rep [of 1 reserved_pages], of "0x200100"] obtain s' v where
    "find_vma 64 0x200100 (demo_state 1 reserved_pages) = Inr (s', v)"
    "v = 0 \<longleftrightarrow> (\<forall>u\<in>set [128]. \<not> in_vma (vmas (demo_state 1 reserved_pages) u) 0x200100)" "v \<noteq> 0 \<longrightarrow> v \<in> set [128]"
    by (metis zero_neq_numeral)
  then show ?thesis using demo_in(1) by (metis empty_iff empty_set list.set_intros(1) set_ConsD)
qed

text \<open>C17: \<open>insert_vma_struct\<close> accepts a new non-empty area exactly when it overlaps no area of the list, and
  then keeps the list sorted with the new area in its place; otherwise an assertion stops the kernel.\<close>

theorem insert_vma_correct:
  assumes "vma_rep s mm vs" and "v \<notin> set vs" and "v \<noteq> 0" and "vm_start (vmas s v) < vm_end (vmas s v)"
  shows "if \<forall>u\<in>set vs. apart (vmas s u) (vmas s v)
     then \<exists>s' vs'. insert_vma_struct mm v s = Inr s' \<and> vma_rep s' mm vs' \<and> set vs' = insert v (set vs) \<and>
       (\<forall>u. vm_start (vmas s' u) = vm_start (vmas s u) \<and> vm_end (vmas s' u) = vm_end (vmas s u))
     else \<exists>msg. insert_vma_struct mm v s = Inl (AssertFail msg)"
proof (cases "area_free s vs v")
  case True
  from insert_vma_ok [OF assms, unfolded if_P [OF True]] obtain s' where s': "insert_vma_struct mm v s = Inr s'"
    "vma_rep s' mm (lower s (vm_start (vmas s v)) vs @ v # upper s (vm_start (vmas s v)) vs)"
    "s' = (upd_mm mm (\<lambda>m. m\<lparr>map_count := map_count m + 1\<rparr>) (upd_vma v (\<lambda>a. a\<lparr>vm_mm := mm\<rparr>) s))\<lparr>mmap_link := mmap_link s'\<rparr>"
    by blast
  have vs: "vs = lower s (vm_start (vmas s v)) vs @ upper s (vm_start (vmas s v)) vs" by simp
  have "set (lower s (vm_start (vmas s v)) vs @ v # upper s (vm_start (vmas s v)) vs) = insert v (set vs)"
    using arg_cong [OF vs, of set] unfolding set_append list.set by blast
  moreover have "vmas s' = (vmas s)(v := (vmas s v)\<lparr>vm_mm := mm\<rparr>)"
    using arg_cong [OF s'(3), of vmas] by (simp add: upd_mm_def upd_vma_def)
  then have "\<forall>u. vm_start (vmas s' u) = vm_start (vmas s u) \<and> vm_end (vmas s' u) = vm_end (vmas s u)" by simp
  ultimately show ?thesis using s'(1,2) True unfolding area_free_def by auto
next
  case False
  from insert_vma_ok [OF assms, unfolded if_not_P [OF False]] False show ?thesis unfolding area_free_def by auto
qed

theorem insert_vma_correct_witness:
  "\<exists>s s' vs'. insert_vma_struct 64 256 s = Inr s' \<and> vma_rep s' 64 vs' \<and> set vs' = {128, 256}"
proof -
  let ?s = "upd_vma 256 (\<lambda>v. v\<lparr>vm_start := 0x300000, vm_end := 0x301000\<rparr>) (demo_state 1 reserved_pages)"
  have rep: "vma_rep ?s 64 [128]" by (rule vma_rep_new_vma [OF demo_rep]) simp
  have ap: "\<forall>u\<in>set [128]. apart (vmas ?s u) (vmas ?s 256)"
    by (simp add: upd_vma_def demo_fields apart_def vma_before_def)
  have "vm_start (vmas ?s 256) < vm_end (vmas ?s 256)" by (simp add: upd_vma_def)
  from insert_vma_correct [OF rep _ _ this, unfolded if_P [OF ap]] show ?thesis by auto
qed

text \<open>C32: \<open>mm_map\<close> on every branch, when the call of \<open>kmalloc\<close> for the vma_struct returns.  A range outside
  user memory and one whose start lies in an area are refused with \<open>-E_INVAL\<close>; when the heap has no
  memory for the vma_struct the result is \<open>-E_NO_MEM\<close> and the areas are unchanged; otherwise a range that
  overlaps no area is added in its place, and a range that overlaps a later area makes an assertion fail.\<close>

theorem mm_map_correct:
  assumes "vma_rep s mm vs" and "mm \<noteq> 0" and "start = ROUNDDOWN addr PGSIZE" and "en = ROUNDUP (addr + len) PGSIZE"
    and "kmalloc sizeof_vma_struct s = Inr (s2, a)" and "a \<notin> set vs"
  shows "if \<not> USER_ACCESS start en then mm_map mm addr len fl s = Inr (s, 0, - E_INVAL)
     else if \<exists>u\<in>set vs. in_vma (vmas s u) start
     then \<exists>s'. mm_map mm addr len fl s = Inr (s', 0, - E_INVAL) \<and> vma_rep s' mm vs \<and> vmas s' = vmas s
     else if a = 0 then mm_map mm addr len fl s = Inr (s2, 0, - E_NO_MEM) \<and> vma_rep s2 mm vs \<and> vmas s2 = vmas s
     else if \<forall>u\<in>set vs. apart (vmas s u) (new_area start en fl (vmas s a))
     then \<exists>s' vs'. mm_map mm addr len fl s = Inr (s', a, 0) \<and> vma_rep s' mm vs' \<and> set vs' = insert a (set vs) \<and>
        vm_start (vmas s' a) = start \<and> vm_end (vmas s' a) = en \<and> vm_flags (vmas s' a) = fl \<and>
        (\<forall>u. u \<noteq> a \<longrightarrow> vmas s' u = vmas s u)
     else \<exists>msg. mm_map mm addr len fl s = Inl (AssertFail msg)"
proof (cases "USER_ACCESS start en")
  case False
  then show ?thesis using assms(3,4) by (simp add: mm_map_def)
next
  case ua: True
  show ?thesis
  proof (cases "\<exists>u\<in>set vs. in_vma (vmas s u) start")
    case True
    then obtain u where u: "u \<in> set vs" "in_vma (vmas s u) start" by blast
    let ?s = "upd_mm mm (\<lambda>m. m\<lparr>mmap_cache := u\<rparr>) s"
    have nz: "u \<noteq> 0" using assms(1) u(1) by (simp add: vma_rep_def)
    have "vm_start (vmas s u) < en" using u(2) ua by (auto simp: in_vma_def USER_ACCESS_def)
    then have "mm_map mm addr len fl s = Inr (?s, 0, - E_INVAL)"
      using ua find_vma_some [OF assms(1,2) u] assms(2) nz
      by (simp add: mm_map_def assms(3,4) [symmetric] upd_mm_def)
    with vma_rep_cache [OF assms(1) u(1)] ua True show ?thesis by (simp add: upd_mm_def)
  next
    case False
    then have free: "\<forall>u\<in>set vs. \<not> in_vma (vmas s u) start" by blast
    show ?thesis
    proof (cases "a = 0")
      case null: True
      have k: "keeps_areas s s2" by (rule keepsRD [OF kmalloc_keeps assms(5)])
      then have "vmas s2 = vmas s" by (auto simp: keeps_areas_def)
      moreover have "mm_map mm addr len fl s = Inr (s2, 0, - E_NO_MEM)"
        using ua find_vma_none [OF assms(1,2) free] assms(2,5) null
        by (simp add: mm_map_def assms(3,4) [symmetric] vma_create_def)
      ultimately show ?thesis using ua False null vma_rep_keeps [OF assms(1) k] by simp
    next
      case nz: False
      note ok = mm_map_ok [OF assms(1-4) ua free assms(5,6) nz, of fl]
      have vs: "vs = lower s start vs @ upper s start vs" by simp
      have st: "set (lower s start vs @ a # upper s start vs) = insert a (set vs)"
        using arg_cong [OF vs, of set] unfolding set_append list.set by blast
      show ?thesis
      proof (cases "\<forall>u\<in>set vs. apart (vmas s u) (new_area start en fl (vmas s a))")
        case True
        from ok [unfolded if_P [OF True]] st have "\<exists>s' vs'. mm_map mm addr len fl s = Inr (s', a, 0) \<and> vma_rep s' mm vs' \<and>
            set vs' = insert a (set vs) \<and> vm_start (vmas s' a) = start \<and> vm_end (vmas s' a) = en \<and>
            vm_flags (vmas s' a) = fl \<and> (\<forall>u. u \<noteq> a \<longrightarrow> vmas s' u = vmas s u)" by blast
        with ua False nz True show ?thesis by simp
      next
        case no: False
        from ok [unfolded if_not_P [OF no]] ua False nz no show ?thesis by auto
      qed
    qed
  qed
qed

theorem mm_map_correct_witness:
  "\<exists>s s' vs'. mm_map 64 0x300000 100 1 s = Inr (s', 4112, 0) \<and> vma_rep s' 64 vs' \<and> set vs' = {4112, 128}"
proof -
  let ?s = "demo_state 1 reserved_pages"
  have km: "kmalloc sizeof_vma_struct ?s = Inr (fst (projr (kmalloc sizeof_vma_struct ?s)), 4112)"
    by (simp add: kmalloc_def sizeof_vma_struct_def PAGE_SIZE_def SLOB_UNIT_def slob_alloc_def SLOB_UNITS_def
        local_intr_save_def intr_save_def demo_state_def mem8_state_def slob_alloc_loop.simps slob_delta_def
        slob_take_def set_units_def set_snext_def set_slobfree_def unit_add_def Let_def)
  have r: "ROUNDDOWN 0x300000 PGSIZE = 0x300000" "ROUNDUP (0x300000 + 100) PGSIZE = 0x301000"
    "USER_ACCESS 0x300000 0x301000"
    by (simp_all add: ROUNDDOWN_def ROUNDUP_def PGSIZE_def USER_ACCESS_def USERBASE_def USERTOP_def)
  have ni: "\<not> (\<exists>u\<in>set [128]. in_vma (vmas ?s u) 0x300000)" by (simp add: in_vma_def demo_fields)
  have ap: "\<forall>u\<in>set [128]. apart (vmas ?s u) (new_area 0x300000 0x301000 1 (vmas ?s 4112))"
    by (simp add: apart_def vma_before_def demo_fields new_area_def)
  from mm_map_correct [OF demo_rep _ r(1,2) [symmetric] km, of 1] r(3) ni ap show ?thesis by auto
qed

text \<open>C7: page faults at an address whose entry is 0 (neither mapped nor swapped out), with at least three
  free pages, while no page is being queued for replacement: swapping is off, or \<open>check_mm_struct\<close> is NULL as
  it is in the running kernel after its self checks.  A fault at an address of an area is repaired: the handler
  maps a page that was free, with the permissions of the area, and changes no other translation.  A fault
  outside every area is refused with \<open>-E_INVAL\<close> and changes nothing but the fault counter.\<close>

theorem do_pgfault_correct:
  assumes "vma_rep s mm vs" and "mm \<noteq> 0" and "a < USERTOP" and "kva_frame s (pgdir (mms s mm)) = Inr d"
    and "minv s F" and "pt_wf (npage s) (pmem s) d F" and "leaf (pmem s) d a = 0" and "3 \<le> card F"
    and "\<not> swap_init_ok s \<or> check_mm_struct s = 0"
  shows "if \<exists>v\<in>set vs. in_vma (vmas s v) a
     then \<exists>s' F' page v. do_pgfault mm ec a s = Inr (s', 0) \<and> page \<in> F - F' \<and> F' \<subseteq> F \<and> minv s' F' \<and>
       pt_wf (npage s') (pmem s') d F' \<and> vma_rep s' mm vs \<and> v \<in> set vs \<and> in_vma (vmas s v) a \<and>
       (\<forall>la'. la' < USERTOP \<longrightarrow> leaf (pmem s') d la' =
          (if PPN la' = PPN a then new_pte page (fault_perm (vmas s v)) else leaf (pmem s) d la'))
     else do_pgfault mm ec a s = Inr (s\<lparr>pgfault_num := pgfault_num s + 1\<rparr>, - E_INVAL)"
proof (cases "\<exists>v\<in>set vs. in_vma (vmas s v) a")
  case False
  then show ?thesis using do_pgfault_refused [OF assms(1,2)] by auto
next
  case True
  then obtain v where v: "v \<in> set vs" "in_vma (vmas s v) a" by blast
  have "\<not> (swap_init_ok s \<and> check_mm_struct s \<noteq> 0)" using assms(9) by auto
  from do_pgfault_fresh [OF assms(1,2) v assms(3-8) this, of ec] obtain s' F' page where
    s': "do_pgfault mm ec a s = Inr (s', 0)" "page \<in> F" "page \<notin> F'" "F' \<subseteq> F" "minv s' F'"
    "pt_wf (npage s') (pmem s') d F'" "maps_page s s' d a page (fault_perm (vmas s v))" "vmas s' = vmas s"
    "mmap_link s' = mmap_link s" "mms s' = mms (upd_mm mm (\<lambda>m. m\<lparr>mmap_cache := v\<rparr>) s)" by blast
  have "vma_rep s' mm vs = vma_rep (upd_mm mm (\<lambda>m. m\<lparr>mmap_cache := v\<rparr>) s) mm vs"
    using s'(8-10) by (intro vma_rep_cong) (auto simp: upd_mm_def)
  then have "vma_rep s' mm vs" using vma_rep_cache [OF assms(1) v(1)] by simp
  with s' v True show ?thesis unfolding maps_page_def if_P [OF True]
    by (intro exI [of _ s'] exI [of _ F'] exI [of _ page] exI [of _ v]) simp
qed

theorem do_pgfault_correct_witness:
  "\<exists>s s' page. do_pgfault 64 0 0x200100 s = Inr (s', 0) \<and> leaf (pmem s) nbase 0x200100 = 0 \<and>
     leaf (pmem s') nbase 0x200100 = new_pte page (PTE_U OR READ_WRITE)"
proof -
  obtain f where f: "kva_frame (demo_state 2 f) (pgdir (mms (demo_state 2 f) 64)) = Inr nbase"
    "minv (demo_state 2 f) {3..<8}" "pt_wf (npage (demo_state 2 f)) (pmem (demo_state 2 f)) nbase {3..<8}" using demo_mem by blast
  have l: "leaf (pmem (demo_state 2 f)) nbase 0x200100 = 0" by (simp add: demo_fields mem8_leaf)
  have t: "\<exists>v\<in>set [128]. in_vma (vmas (demo_state 2 f) v) 0x200100" using demo_in(1) by simp
  from do_pgfault_correct [OF demo_rep _ demo_in(2) f l, of 0, unfolded if_P [OF t]] obtain s' page v where
    "do_pgfault 64 0 0x200100 (demo_state 2 f) = Inr (s', 0)"
    "\<forall>la'. la' < USERTOP \<longrightarrow> leaf (pmem s') nbase la' = (if PPN la' = PPN 0x200100
       then new_pte page (fault_perm (vmas (demo_state 2 f) v)) else leaf (pmem (demo_state 2 f)) nbase la')"
    by (auto simp: demo_fields)
  moreover have "fault_perm (vmas (demo_state 2 f) v) = PTE_U OR READ_WRITE"
    by (simp add: fault_perm_def demo_fields VM_WRITE_def)
  ultimately show ?thesis using l demo_in(2) by (intro exI [of _ "demo_state 2 f"] exI [of _ s'] exI [of _ page]) simp
qed

text \<open>An entry that is there already is taken for a swap entry.\<close>

lemma do_pgfault_present:
  assumes rep: "vma_rep s mm vs" and mm: "mm \<noteq> 0" and v: "v \<in> set vs" "in_vma (vmas s v) a" and a: "a < USERTOP"
    and d: "kva_frame s (pgdir (mms s mm)) = Inr d" and wf: "pt_wf (npage s) (pmem s) d F"
    and lf: "leaf (pmem s) d a \<noteq> 0" and sw: "\<not> swap_init_ok s"
  shows "\<exists>s'. do_pgfault mm ec a s = Inr (s', - E_NO_MEM)"
proof -
  let ?la = "ROUNDDOWN a PGSIZE"
  have la: "?la < USERTOP" using ROUNDDOWN_le a by (rule le_less_trans)
  define s1 where "s1 = (upd_mm mm (\<lambda>m. m\<lparr>mmap_cache := v\<rparr>) s)\<lparr>pgfault_num := pgfault_num s + 1\<rparr>"
  have f1: "pmem s1 = pmem s" "npage s1 = npage s" "vmas s1 = vmas s" "pgdir (mms s1 mm) = pgdir (mms s mm)"
    "swap_init_ok s1 = swap_init_ok s" by (simp_all add: s1_def upd_mm_def)
  have nz: "leaf (pmem s1) d ?la \<noteq> 0" using lf leaf_PPN [OF la a PPN_ROUNDDOWN] f1(1) by simp
  then obtain g k where w: "walk (pmem s1) d ?la = Some (g, k)" by (cases "walk (pmem s1) d ?la") (auto simp: leaf_def)
  have "kva_frame s1 (pgdir (mms s mm)) = Inr d" "pt_wf (npage s1) (pmem s1) d F"
    using d wf f1 by (simp_all add: kva_frame_def)
  from get_pte_find [OF this upath_user [OF la], of True] w
  have get: "get_pte (pgdir (mms s mm)) ?la True s1 = Inr (s1, Some (g, k))" by (simp add: get_pte_def)
  have rd: "rd s1 (g, k) \<noteq> 0" using nz walk_user(3) [OF w] by (simp add: rd_def)
  have "v \<noteq> 0" "\<not> a < vm_start (vmas s v)" using rep v by (simp_all add: vma_rep_def in_vma_def not_less)
  moreover have "(upd_mm mm (\<lambda>m. m\<lparr>mmap_cache := v\<rparr>) s)\<lparr>pgfault_num :=
      pgfault_num (upd_mm mm (\<lambda>m. m\<lparr>mmap_cache := v\<rparr>) s) + 1\<rparr> = s1" by (simp add: s1_def upd_mm_def)
  moreover have "vmas (upd_mm mm (\<lambda>m. m\<lparr>mmap_cache := v\<rparr>) s) = vmas s" by (simp add: upd_mm_def)
  ultimately have "do_pgfault mm ec a s = Inr (s1, - E_NO_MEM)"
    using sw by (simp add: do_pgfault_def Let_def find_vma_some [OF rep mm v] get rd f1(3-5))
  then show ?thesis by blast
qed

lemma new_pte_user_bits: "new_pte page PTE_U AND (PTE_R OR PTE_W OR PTE_X) = 0"
proof (rule bit_word_eqI)
  fix k assume "k < LENGTH(64)"
  have m: "PTE_R OR PTE_W OR PTE_X = BIT_MASK 1 OR BIT_MASK 2 OR BIT_MASK 3"
    by (simp add: PTE_R_def PTE_W_def PTE_X_def BIT_MASK_def BITS_PER_LONG_def)
  have u: "PTE_U = BIT_MASK 4" by (simp add: PTE_U_def BIT_MASK_def BITS_PER_LONG_def)
  show "bit (new_pte page PTE_U AND (PTE_R OR PTE_W OR PTE_X)) k = bit (0 :: u64) k"
    unfolding m new_pte_def pte_create_def u PTE_V_mask PTE_PPN_SHIFT_def
    by (auto simp: bit_and_iff bit_or_iff bit_push_bit_iff BIT_MASK_bit pte_type_bit min_def)
qed

text \<open>C33: with swapping off, three free pages and an entry that is 0: in an area without write permission the handler installs an entry that allows neither
  reading, nor writing, nor execution; the access faults again, and then the handler gives up with
  \<open>-E_NO_MEM\<close> because it takes the entry for a swap entry.\<close>

theorem pgfault_readonly_refault:
  assumes "vma_rep s mm vs" and "mm \<noteq> 0" and "v \<in> set vs" and "in_vma (vmas s v) a" and "a < USERTOP"
    and "kva_frame s (pgdir (mms s mm)) = Inr d" and "minv s F" and "pt_wf (npage s) (pmem s) d F"
    and "leaf (pmem s) d a = 0" and "3 \<le> card F" and "\<not> swap_init_ok s" and "vm_flags (vmas s v) AND VM_WRITE = 0"
  shows "\<exists>s' s''. do_pgfault mm ec a s = Inr (s', 0) \<and> leaf (pmem s') d a AND (PTE_R OR PTE_W OR PTE_X) = 0 \<and>
     do_pgfault mm ec a s' = Inr (s'', - E_NO_MEM)"
proof -
  from do_pgfault_fresh [OF assms(1-10), of ec] assms(11) obtain s' F' page where
    s': "do_pgfault mm ec a s = Inr (s', 0)" "pt_wf (npage s') (pmem s') d F'"
    "maps_page s s' d a page (fault_perm (vmas s v))" "vmas s' = vmas s"
    "mmap_link s' = mmap_link s" "mms s' = mms (upd_mm mm (\<lambda>m. m\<lparr>mmap_cache := v\<rparr>) s)"
    "swap_init_ok s' = swap_init_ok s" "npage s' = npage s" by blast
  have lf: "leaf (pmem s') d a = new_pte page PTE_U"
    using s'(3) assms(5,12) by (simp add: maps_page_def fault_perm_def)
  have nz: "leaf (pmem s') d a \<noteq> 0" unfolding lf new_pte_def using pte_create_valid by (metis bit_0_eq bot_apply bot_bool_def)
  have "vma_rep s' mm vs = vma_rep (upd_mm mm (\<lambda>m. m\<lparr>mmap_cache := v\<rparr>) s) mm vs"
    using s'(4-6) by (intro vma_rep_cong) (auto simp: upd_mm_def)
  then have rep: "vma_rep s' mm vs" using vma_rep_cache [OF assms(1,3)] by simp
  have d: "kva_frame s' (pgdir (mms s' mm)) = Inr d" using assms(6) s'(6,8) by (simp add: kva_frame_def upd_mm_def)
  have iv: "in_vma (vmas s' v) a" using assms(4) s'(4) by simp
  have sw: "\<not> swap_init_ok s'" using assms(11) s'(7) by simp
  from do_pgfault_present [OF rep assms(2,3) iv assms(5) d s'(2) nz sw, of ec] s'(1) new_pte_user_bits [of page] lf
  show ?thesis by auto
qed

theorem pgfault_readonly_refault_witness:
  "\<exists>s s' s''. do_pgfault 64 0 0x200100 s = Inr (s', 0) \<and> do_pgfault 64 0 0x200100 s' = Inr (s'', - E_NO_MEM)"
proof -
  obtain f where f: "kva_frame (demo_state 1 f) (pgdir (mms (demo_state 1 f) 64)) = Inr nbase"
    "minv (demo_state 1 f) {3..<8}" "pt_wf (npage (demo_state 1 f)) (pmem (demo_state 1 f)) nbase {3..<8}" using demo_mem by blast
  have l: "leaf (pmem (demo_state 1 f)) nbase 0x200100 = 0" by (simp add: demo_fields mem8_leaf)
  have w: "vm_flags (vmas (demo_state 1 f) 128) AND VM_WRITE = 0" by (simp add: demo_fields VM_WRITE_def)
  from pgfault_readonly_refault [OF demo_rep _ _ demo_in f l _ _ w, of 0] show ?thesis by (auto simp: demo_fields)
qed

end
