(* ===== verification/Pmm_Check.thy ===== *)
theory Pmm_Check
  imports Vmm_Fault
begin

text \<open>
  The self test that default_pmm.c runs at boot (\<open>basic_check\<close>, \<open>default_check\<close>), through \<open>alloc_pages\<close> and \<open>free_pages\<close> of pmm.c.
\<close>

section \<open>The tests\<close>

definition expect_page :: "nat \<Rightarrow> string \<Rightarrow> mstate \<Rightarrow> (mstate \<times> nat) res" where
  "expect_page n msg s =
     bindR (alloc_pages n s) (\<lambda>(s, p). case p of None \<Rightarrow> Inl (AssertFail msg) | Some p \<Rightarrow> Inr (s, p))"

definition expect_null :: "nat \<Rightarrow> string \<Rightarrow> mstate \<Rightarrow> mstate res" where
  "expect_null n msg s =
     bindR (alloc_pages n s) (\<lambda>(s, p). case p of None \<Rightarrow> Inr s | Some _ \<Rightarrow> Inl (AssertFail msg))"

definition checkR :: "bool \<Rightarrow> string \<Rightarrow> mstate \<Rightarrow> mstate res" where
  "checkR b msg s = bindR (assertR b msg) (\<lambda>_. Inr s)"

definition fl_upd :: "(fl_ptr links \<Rightarrow> fl_ptr links) \<Rightarrow> mstate \<Rightarrow> mstate" where
  "fl_upd f s = s\<lparr>fa := (fa s)\<lparr>page_link := f (page_link (fa s))\<rparr>\<rparr>"

definition fl_empty :: "mstate \<Rightarrow> bool" where "fl_empty s \<longleftrightarrow> list_empty (page_link (fa s)) FreeList"

definition set_nr_free :: "nat \<Rightarrow> mstate \<Rightarrow> mstate" where "set_nr_free n s = s\<lparr>fa := (fa s)\<lparr>nr_free := n\<rparr>\<rparr>"

text \<open>\<open>free_list = free_list_store\<close> assigns the two fields of the list head.\<close>

definition fl_head :: "mstate \<Rightarrow> fl_ptr \<times> fl_ptr" where
  "fl_head s = (lprev (page_link (fa s)) FreeList, lnext (page_link (fa s)) FreeList)"

definition set_fl_head :: "fl_ptr \<times> fl_ptr \<Rightarrow> mstate \<Rightarrow> mstate" where
  "set_fl_head h = fl_upd (\<lambda>L. \<lparr>lprev = (lprev L)(FreeList := fst h), lnext = (lnext L)(FreeList := snd h)\<rparr>)"

text \<open>The two loops of \<open>default_check\<close> over the free list.\<close>

partial_function (option) count_up ::
  "fl_ptr links \<Rightarrow> (nat \<Rightarrow> Page) \<Rightarrow> fl_ptr \<Rightarrow> int \<Rightarrow> int \<Rightarrow> (int \<times> int) res option" where
  "count_up L P le count tot =
     (case list_next L le of
        FreeList \<Rightarrow> Some (Inr (count, tot))
      | PageLink p \<Rightarrow>
          if PageProperty (P p) then count_up L P (PageLink p) (count + 1) (tot + int (property (P p)))
          else Some (Inl (AssertFail ''PageProperty(p)'')))"

partial_function (option) count_down :: "fl_ptr links \<Rightarrow> (nat \<Rightarrow> Page) \<Rightarrow> fl_ptr \<Rightarrow> int \<Rightarrow> int \<Rightarrow> (int \<times> int) option" where
  "count_down L P le count tot =
     (case list_next L le of
        FreeList \<Rightarrow> Some (count, tot)
      | PageLink p \<Rightarrow> count_down L P (PageLink p) (count - 1) (tot - int (property (P p))))"

declare count_up.simps [code] count_down.simps [code]

definition orHang :: "'a res option \<Rightarrow> 'a res" where "orHang r = (case r of None \<Rightarrow> Inl Hang | Some r \<Rightarrow> r)"

definition basic_check :: "mstate \<Rightarrow> mstate res" where
  "basic_check s =
     bindR (expect_page 1 ''(p0 = alloc_page()) != NULL'' s) (\<lambda>(s, p0).
     bindR (expect_page 1 ''(p1 = alloc_page()) != NULL'' s) (\<lambda>(s, p1).
     bindR (expect_page 1 ''(p2 = alloc_page()) != NULL'' s) (\<lambda>(s, p2).
     bindR (checkR (p0 \<noteq> p1 \<and> p0 \<noteq> p2 \<and> p1 \<noteq> p2) ''p0 != p1 && p0 != p2 && p1 != p2'' s) (\<lambda>s.
     bindR (checkR (page_ref s p0 = 0 \<and> page_ref s p1 = 0 \<and> page_ref s p2 = 0) ''page_ref(p0) == 0 && page_ref(p1) == 0 && page_ref(p2) == 0'' s) (\<lambda>s.
     bindR (checkR (page2pa p0 < of_nat (npage s) * PGSIZE) ''page2pa(p0) < npage * PGSIZE'' s) (\<lambda>s.
     bindR (checkR (page2pa p1 < of_nat (npage s) * PGSIZE) ''page2pa(p1) < npage * PGSIZE'' s) (\<lambda>s.
     bindR (checkR (page2pa p2 < of_nat (npage s) * PGSIZE) ''page2pa(p2) < npage * PGSIZE'' s) (\<lambda>s.
     let free_list_store = fl_head s; s = fl_upd (\<lambda>L. list_init L FreeList) s in
     bindR (checkR (fl_empty s) ''list_empty(&free_list)'' s) (\<lambda>s.
     let nr_free_store = nr_free (fa s); s = set_nr_free 0 s in
     bindR (expect_null 1 ''alloc_page() == NULL'' s) (\<lambda>s.
     bindR (free_page p0 s) (\<lambda>s.
     bindR (free_page p1 s) (\<lambda>s.
     bindR (free_page p2 s) (\<lambda>s.
     bindR (checkR (nr_free (fa s) = 3) ''nr_free == 3'' s) (\<lambda>s.
     bindR (expect_page 1 ''(p0 = alloc_page()) != NULL'' s) (\<lambda>(s, p0).
     bindR (expect_page 1 ''(p1 = alloc_page()) != NULL'' s) (\<lambda>(s, p1).
     bindR (expect_page 1 ''(p2 = alloc_page()) != NULL'' s) (\<lambda>(s, p2).
     bindR (expect_null 1 ''alloc_page() == NULL'' s) (\<lambda>s.
     bindR (free_page p0 s) (\<lambda>s.
     bindR (checkR (\<not> fl_empty s) ''!list_empty(&free_list)'' s) (\<lambda>s.
     bindR (alloc_page s) (\<lambda>(s, p).
     bindR (checkR (p = Some p0) ''(p = alloc_page()) == p0'' s) (\<lambda>s.
     bindR (expect_null 1 ''alloc_page() == NULL'' s) (\<lambda>s.
     bindR (checkR (nr_free (fa s) = 0) ''nr_free == 0'' s) (\<lambda>s.
     let s = set_nr_free nr_free_store (set_fl_head free_list_store s) in
     bindR (free_page p0 s) (\<lambda>s.
     bindR (free_page p1 s) (\<lambda>s.
     free_page p2 s))))))))))))))))))))))))))"

definition default_check :: "mstate \<Rightarrow> mstate res" where
  "default_check s =
     bindR (orHang (count_up (page_link (fa s)) (pages (fa s)) FreeList 0 0)) (\<lambda>(count, tot).
     bindR (checkR (tot = int (nr_free (fa s))) ''total == nr_free_pages()'' s) (\<lambda>s.
     bindR (basic_check s) (\<lambda>s.
     bindR (expect_page 5 ''p0 != NULL'' s) (\<lambda>(s, p0).
     bindR (checkR (\<not> PageProperty (page_of s p0)) ''!PageProperty(p0)'' s) (\<lambda>s.
     let free_list_store = fl_head s; s = fl_upd (\<lambda>L. list_init L FreeList) s in
     bindR (checkR (fl_empty s) ''list_empty(&free_list)'' s) (\<lambda>s.
     bindR (expect_null 1 ''alloc_page() == NULL'' s) (\<lambda>s.
     let nr_free_store = nr_free (fa s); s = set_nr_free 0 s in
     bindR (free_pages (p0 + 2) 3 s) (\<lambda>s.
     bindR (expect_null 4 ''alloc_pages(4) == NULL'' s) (\<lambda>s.
     bindR (checkR (PageProperty (page_of s (p0 + 2)) \<and> property (page_of s (p0 + 2)) = 3) ''PageProperty(p0 + 2) && p0[2].property == 3'' s) (\<lambda>s.
     bindR (expect_page 3 ''(p1 = alloc_pages(3)) != NULL'' s) (\<lambda>(s, p1).
     bindR (expect_null 1 ''alloc_page() == NULL'' s) (\<lambda>s.
     bindR (checkR (p0 + 2 = p1) ''p0 + 2 == p1'' s) (\<lambda>s.
     let p2 = p0 + 1 in
     bindR (free_page p0 s) (\<lambda>s.
     bindR (free_pages p1 3 s) (\<lambda>s.
     bindR (checkR (PageProperty (page_of s p0) \<and> property (page_of s p0) = 1) ''PageProperty(p0) && p0->property == 1'' s) (\<lambda>s.
     bindR (checkR (PageProperty (page_of s p1) \<and> property (page_of s p1) = 3) ''PageProperty(p1) && p1->property == 3'' s) (\<lambda>s.
     bindR (alloc_page s) (\<lambda>(s, q).
     bindR (checkR (q = Some (p2 - 1)) ''(p0 = alloc_page()) == p2 - 1'' s) (\<lambda>s.
     bindR (free_page (p2 - 1) s) (\<lambda>s.
     bindR (alloc_pages 2 s) (\<lambda>(s, q).
     bindR (checkR (q = Some (p2 + 1)) ''(p0 = alloc_pages(2)) == p2 + 1'' s) (\<lambda>s.
     bindR (free_pages (p2 + 1) 2 s) (\<lambda>s.
     bindR (free_page p2 s) (\<lambda>s.
     bindR (expect_page 5 ''(p0 = alloc_pages(5)) != NULL'' s) (\<lambda>(s, p0).
     bindR (expect_null 1 ''alloc_page() == NULL'' s) (\<lambda>s.
     bindR (checkR (nr_free (fa s) = 0) ''nr_free == 0'' s) (\<lambda>s.
     let s = set_fl_head free_list_store (set_nr_free nr_free_store s) in
     bindR (free_pages p0 5 s) (\<lambda>s.
     bindR (orHang (map_option Inr (count_down (page_link (fa s)) (pages (fa s)) FreeList count tot))) (\<lambda>(count, tot).
     bindR (checkR (count = 0) ''count == 0'' s) (\<lambda>s.
     checkR (tot = 0) ''total == 0'' s))))))))))))))))))))))))))))))"

section \<open>Running them\<close>

text \<open>Before swapping is set up, allocation is the page allocator's.\<close>

lemma alloc_pages_noswap:
  "\<not> swap_init_ok s \<Longrightarrow> alloc_pages n s = bindR (default_alloc_pages (fa s) n) (\<lambda>(f, p). Inr (s\<lparr>fa := f\<rparr>, p))"
  using intr_save_restore [of "sstatus s"]
  by (cases "default_alloc_pages (fa s) n")
    (auto simp: alloc_pages_def alloc_pages_loop.simps [of n s] pmm_alloc_def Let_def case_prod_beta)

lemma free_pages_fa: "free_pages b n s = bindR (default_free_pages (fa s) b n) (\<lambda>f. Inr (s\<lparr>fa := f\<rparr>))"
  using intr_save_restore [of "sstatus s"] by (simp add: free_pages_def Let_def case_prod_beta)

text \<open>A page without references that is not reserved: whether it heads a free block, the block's size, the last field.\<close>

definition pg :: "bool \<Rightarrow> nat \<Rightarrow> u64 \<Rightarrow> Page" where
  "pg h k v = \<lparr>ref = 0, flags = (if h then 2 else 0), property = k, pra_vaddr = v\<rparr>"

lemma pg_simps:
  "SetPageProperty (pg h k v) = pg True k v" "ClearPageProperty (pg h k v) = pg False k v" "PageProperty (pg h k v) = h"
  "\<not> PageReserved (pg h k v)" "property (pg h k v) = k" "(pg h k v)\<lparr>property := j\<rparr> = pg h j v"
  "set_page_ref 0 ((pg h k v)\<lparr>flags := 0\<rparr>) = pg False k v" "ref (pg h k v) = 0"
proof -
  have "set_bit_at 1 (\<lambda>_. 0) 0 = 2" "set_bit_at 1 (\<lambda>_. 2) 0 = 2" "clear_bit_at 1 (\<lambda>_. 0) 0 = 0" "clear_bit_at 1 (\<lambda>_. 2) 0 = 0"
    "test_bit_at 1 (\<lambda>_. 0) = Inr False" "test_bit_at 1 (\<lambda>_. 2) = Inr True" "test_bit_at 0 (\<lambda>_. 0) = Inr False" "test_bit_at 0 (\<lambda>_. 2) = Inr False"
    by code_simp+
  then show "SetPageProperty (pg h k v) = pg True k v" "ClearPageProperty (pg h k v) = pg False k v" "PageProperty (pg h k v) = h"
    "\<not> PageReserved (pg h k v)"
    by (simp_all add: pg_def SetPageProperty_def ClearPageProperty_def PageProperty_def PageReserved_def flag_set_def flag_clear_def
        flag_test_def PG_property_def PG_reserved_def)
qed (simp_all add: pg_def set_page_ref_def)

definition fs :: "(nat \<Rightarrow> Page) \<Rightarrow> (fl_ptr \<Rightarrow> fl_ptr) \<Rightarrow> (fl_ptr \<Rightarrow> fl_ptr) \<Rightarrow> nat \<Rightarrow> free_state" where
  "fs P N V r = \<lparr>pages = P, page_link = \<lparr>lprev = V, lnext = N\<rparr>, nr_free = r\<rparr>"

lemma fs_fields [simp]:
  "pages (fs P N V r) = P" "lnext (page_link (fs P N V r)) = N" "lprev (page_link (fs P N V r)) = V" "nr_free (fs P N V r) = r"
  "(fs P N V r)\<lparr>pages := P'\<rparr> = fs P' N V r" "(fs P N V r)\<lparr>nr_free := r'\<rparr> = fs P N V r'"
  "(fs P N V r)\<lparr>page_link := L\<rparr> = fs P (lnext L) (lprev L) r"
  by (simp_all add: fs_def)


lemma clear_pages_num: "clear_pages P p (numeral k) =
     (if \<not> PageReserved (P p) \<and> \<not> PageProperty (P p)
      then clear_pages (P(p := set_page_ref 0 ((P p)\<lparr>flags := 0\<rparr>))) (p + 1) (pred_numeral k)
      else Inl (AssertFail ''!PageReserved(p) && !PageProperty(p)''))"
  by (simp add: numeral_eq_Suc)

lemma trunc32_const: "trunc32 1 = 1" "trunc32 2 = 2" "trunc32 3 = 3" "trunc32 5 = 5"
  by (simp_all add: trunc32_def)

lemmas run_simps = alloc_pages_noswap free_pages_fa expect_page_def expect_null_def checkR_def assertR_def alloc_page_def free_page_def
  default_alloc_pages_def default_free_pages_def pg_simps list_h_defs first_fit_loop.simps insert_loop.simps insert_free_def
  merge_prev_def merge_next_def returned_def fl_upd_def fl_head_def set_fl_head_def set_nr_free_def fl_empty_def page_ref_def page_of_def
  add32_small sub32_small trunc32_int trunc32_const clear_pages_num Let_def

text \<open>All free pages are one block of \<open>n\<close> pages at \<open>b\<close>, as after boot.\<close>

definition one_block :: "free_state \<Rightarrow> nat \<Rightarrow> nat \<Rightarrow> bool" where
  "one_block f b n \<longleftrightarrow> nr_free f = n \<and> dll (page_link f) FreeList [PageLink b] \<and> (\<exists>v. pages f b = pg True n v) \<and>
     (\<forall>i. 0 < i \<longrightarrow> i < n \<longrightarrow> (\<exists>k v. pages f (b + i) = pg False k v))"

lemma one_block_fs:
  "one_block (fs P N V r) b n \<longleftrightarrow> r = n \<and> N FreeList = PageLink b \<and> V FreeList = PageLink b \<and> N (PageLink b) = FreeList \<and>
     V (PageLink b) = FreeList \<and> (\<exists>v. P b = pg True n v) \<and> (\<forall>i. 0 < i \<longrightarrow> i < n \<longrightarrow> (\<exists>k v. P (b + i) = pg False k v))"
  by (auto simp: one_block_def dll_def fs_def)

lemma fs_exhaust: "\<exists>P N V r. f = fs P N V r"
proof -
  obtain L where "f = \<lparr>pages = pages f, page_link = L, nr_free = nr_free f\<rparr>" by (cases f) auto
  moreover have "L = \<lparr>lprev = lprev L, lnext = lnext L\<rparr>" by simp
  ultimately show ?thesis unfolding fs_def by metis
qed

lemma one_block_pages:
  assumes "one_block (fs P N V r) b n" "5 \<le> n"
  obtains v0 k1 v1 k2 v2 k3 v3 k4 v4 where "P b = pg True n v0" "P (Suc b) = pg False k1 v1" "P (Suc (Suc b)) = pg False k2 v2"
    "P (Suc (Suc (Suc b))) = pg False k3 v3" "P (Suc (Suc (Suc (Suc b)))) = pg False k4 v4"
proof -
  have o: "\<exists>k v. P (b + i) = pg False k v" if "0 < i" "i < 5" for i using assms that by (simp add: one_block_fs)
  have "\<exists>v. P b = pg True n v" using assms(1) by (simp add: one_block_fs)
  then show ?thesis using that o [of 1] o [of 2] o [of 3] o [of 4] by (auto simp: numeral_eq_Suc)
qed

lemma one_block_upd:
  assumes "one_block (fs P N V r) b n" and "r' = n" "N' FreeList = PageLink b" "V' FreeList = PageLink b" "N' (PageLink b) = FreeList"
    "V' (PageLink b) = FreeList" "P' b = pg True n' v" "n' = n" and "\<And>i. i \<noteq> b \<Longrightarrow> P' i = P i \<or> (\<exists>k v. P' i = pg False k v)"
  shows "one_block (fs P' N' V' r') b n"
  using assms unfolding one_block_fs by (metis less_add_same_cancel1 less_irrefl)

text \<open>A test that passes and leaves the free pages as they were.\<close>

definition passes :: "nat \<Rightarrow> nat \<Rightarrow> mstate \<Rightarrow> mstate res \<Rightarrow> bool" where
  "passes b n s r \<longleftrightarrow> (case r of Inl _ \<Rightarrow> False | Inr t \<Rightarrow> t = s\<lparr>fa := fa t\<rparr> \<and> one_block (fa t) b n)"

lemma basic_check_run:
  assumes n: "n = Suc (Suc (Suc (Suc (Suc m))))" and "n < 2 ^ 32" "one_block (fa s) b n" "\<not> swap_init_ok s"
   "page2pa b < of_nat (npage s) * PGSIZE" "page2pa (Suc b) < of_nat (npage s) * PGSIZE" "page2pa (Suc (Suc b)) < of_nat (npage s) * PGSIZE"
  shows "passes b n s (basic_check s)"
proof -
  obtain P N V r where f: "fa s = fs P N V r" using fs_exhaust by blast
  note o = assms(3) [unfolded f]
  obtain v0 k1 v1 k2 v2 k3 v3 k4 v4 where p: "P b = pg True n v0" "P (Suc b) = pg False k1 v1" "P (Suc (Suc b)) = pg False k2 v2"
    "P (Suc (Suc (Suc b))) = pg False k3 v3" by (rule one_block_pages [OF o]) (auto simp: n)
  have l: "N FreeList = PageLink b" "V FreeList = PageLink b" "N (PageLink b) = FreeList" "V (PageLink b) = FreeList" "r = n"
    using o by (auto simp: one_block_fs)
  show ?thesis using assms(2,4-7) p l
    by (simp add: basic_check_def run_simps f n passes_def)
      (rule one_block_upd [OF o [unfolded n]], auto simp: l)
qed

lemma default_check_run:
  assumes n: "n = Suc (Suc (Suc (Suc (Suc m))))" and "n < 2 ^ 32" "one_block (fa s) b n" "\<not> swap_init_ok s" and basic: "passes b n s (basic_check s)"
  shows "passes b n s (default_check s)"
proof -
  obtain f where r: "basic_check s = Inr (s\<lparr>fa := f\<rparr>)" "one_block f b n"
    using basic by (auto simp: passes_def split: sum.splits)
  obtain P N V m0 where f: "f = fs P N V m0" using fs_exhaust by blast
  obtain P0 N0 V0 r0 where f0: "fa s = fs P0 N0 V0 r0" using fs_exhaust by blast
  note o = r(2) [unfolded f] and o0 = assms(3) [unfolded f0]
  obtain v0 k1 v1 k2 v2 k3 v3 k4 v4 where p: "P b = pg True n v0" "P (Suc b) = pg False k1 v1" "P (Suc (Suc b)) = pg False k2 v2"
    "P (Suc (Suc (Suc b))) = pg False k3 v3" "P (Suc (Suc (Suc (Suc b)))) = pg False k4 v4"
    by (rule one_block_pages [OF o]) (auto simp: n)
  obtain w0 where p0: "P0 b = pg True n w0" using o0 by (auto simp: one_block_fs)
  have l: "N FreeList = PageLink b" "V FreeList = PageLink b" "N (PageLink b) = FreeList" "V (PageLink b) = FreeList" "m0 = n"
    "N0 FreeList = PageLink b" "N0 (PageLink b) = FreeList" "r0 = n"
    using o o0 by (auto simp: one_block_fs)
  note ev = default_check_def run_simps count_up.simps count_down.simps orHang_def passes_def f f0 n
  show ?thesis
  proof (cases m)
    case 0
    show ?thesis using assms(2,4) p l p0 r(1)
      by (simp add: ev 0) (rule one_block_upd [OF o [unfolded n 0], where n' = 5 and v = v0], auto simp: l)
  next
    case (Suc k)
    have "\<exists>k v. P (b + 5) = pg False k v" using o by (simp add: one_block_fs n Suc)
    then obtain k5 v5 where "P (b + 5) = pg False k5 v5" by blast
    then show ?thesis using assms(2,4) p l p0 r(1)
      by (simp add: ev Suc) (rule one_block_upd [OF o [unfolded n Suc], where n' = "6 + k" and v = v0], auto simp: l)
  qed
qed

lemma page2pa_below:
  assumes "p + nbase < npage s" "npage s < 2 ^ 52"
  shows "page2pa p < of_nat (npage s) * PGSIZE"
proof -
  have u: "unat (of_nat k * PGSIZE :: u64) = k * 4096" if "k < 2 ^ 52" for k
  proof -
    have "of_nat k * PGSIZE = (of_nat (k * 4096) :: u64)" by (simp add: PGSIZE_def)
    moreover have "k * 4096 < 2 ^ 64" using that by simp
    ultimately show ?thesis by (metis unat_of_nat_small)
  qed
  have "page2pa p = of_nat (p + nbase) * PGSIZE"
    by (simp add: page2pa_def page2ppn_def push_bit_eq_mult PGSHIFT_def PGSIZE_def mult.commute)
  then have "unat (page2pa p) = (p + nbase) * 4096" using u [of "p + nbase"] assms by simp
  then show ?thesis using assms(1) u [OF assms(2)] by (simp add: word_less_nat_alt)
qed

definition check_alloc_page :: "mstate \<Rightarrow> mstate res" where "check_alloc_page s = default_check s"

lemma check_alloc_page_passes:
  assumes "one_block (fa s) b n" "5 \<le> n" "n < 2 ^ 32" "\<not> swap_init_ok s" "b + n + nbase \<le> npage s" "npage s < 2 ^ 52"
  shows "passes b n s (check_alloc_page s)"
proof -
  obtain m where "n = 5 + m" using assms(2) le_Suc_ex by blast
  then have n: "n = Suc (Suc (Suc (Suc (Suc m))))" by simp
  have "page2pa p < of_nat (npage s) * PGSIZE" if "p < b + n" for p
    using assms(5,6) that by (intro page2pa_below) simp_all
  then have "passes b n s (basic_check s)" using assms(1,3,4) n by (intro basic_check_run [OF n]) simp_all
  then show ?thesis unfolding check_alloc_page_def using default_check_run [OF n assms(3,1,4)] by simp
qed

lemma init_one_block:
  assumes "\<forall>i\<in>{b..<b + n}. PageReserved (pages f i)" "0 < n" "n < 2 ^ 32"
  shows "\<exists>f'. default_init_memmap (default_init f) b n = Inr f' \<and> one_block f' b n"
proof -
  have P: "set_page_ref 0 (q\<lparr>flags := 0, property := 0\<rparr>) = pg False 0 (pra_vaddr q)" for q
    by (cases q) (simp add: pg_def set_page_ref_def)
  then show ?thesis using assms(2,3) init_pages_ok [OF assms(1)]
    by (auto simp: default_init_memmap_def default_init_def assertR_def Let_def insert_free_def list_h_defs trunc32_int add32_small
        one_block_def dll_def pg_simps)
qed

section \<open>Boot\<close>

text \<open>\<open>pmm_init\<close> up to and including \<open>check_alloc_page\<close>; \<open>kend\<close> is the end of the kernel image.\<close>

definition pmm_init_alloc :: "u64 \<Rightarrow> mstate \<Rightarrow> mstate res" where
  "pmm_init_alloc kend s = bindR (page_init kend (init_pmm_manager s)) check_alloc_page"

lemma reserve_all_reserved: "i < n \<Longrightarrow> PageReserved (pages (fa (reserve_all n s)) i)"
  by (simp add: reserve_all_def page_flag_laws)

lemma round_of_nat:
  assumes "a + 4095 < 2 ^ 64"
  shows "ROUNDUP (of_nat a) PGSIZE = of_nat (4096 * ((a + 4095) div 4096))"
proof -
  have e: "of_nat a + PGSIZE - 1 = (of_nat (a + 4095) :: u64)" by (simp add: PGSIZE_def)
  have "unat (ROUNDUP (of_nat a) PGSIZE) = a + 4095 - (a + 4095) mod 4096"
    unfolding ROUNDUP_def unat_ROUNDDOWN e unat_of_nat_small [OF assms] ..
  also have "\<dots> = 4096 * ((a + 4095) div 4096)" by (rule minus_mod_eq_mult_div)
  finally show ?thesis using assms unat_of_nat_small [of "4096 * ((a + 4095) div 4096)"] by (simp add: word_unat_eq_iff)
qed

text \<open>The memory map: \<open>k\<close> pages of kernel image, then 512 pages that hold the 32768 page descriptors, then the free memory.\<close>

lemma page_init_boots:
  assumes kend: "kend = KERNBASE + of_nat x" and k: "k = (x + 4095) div 4096" "k \<le> 31739"
  shows "\<exists>t. page_init kend (init_pmm_manager s) = Inr t \<and> one_block (fa t) (1024 + k) (31744 - k) \<and>
     npage t = 0x88000 \<and> swap_init_ok t = swap_init_ok s"
proof -
  let ?s = "reserve_all 32768 ((init_pmm_manager s)\<lparr>npage := 0x88000\<rparr>)"
  have x: "x \<le> 31739 * 4096" using k by simp
  have "kend = of_nat (0xFFFFFFFFC0200000 + x)" using kend by (simp add: KERNBASE_def)
  then have "ROUNDUP kend PGSIZE = of_nat (4096 * ((0xFFFFFFFFC0200000 + x + 4095) div 4096))"
    using round_of_nat [of "0xFFFFFFFFC0200000 + x"] x by simp
  also have "(0xFFFFFFFFC0200000 + x + 4095) div 4096 = 0xFFFFFFFFC0200 + k" using k by simp
  finally have up: "ROUNDUP kend PGSIZE = of_nat (4096 * (0xFFFFFFFFC0200 + k))" .
  have "ROUNDUP kend PGSIZE + sizeof_Page * of_nat 32768 = of_nat (4096 * (0xFFFFFFFFC0400 + k))"
    unfolding up by (simp add: sizeof_Page_def algebra_simps)
  moreover have "KERNBASE \<le> of_nat (4096 * (0xFFFFFFFFC0400 + k))"
    using k(2) unat_of_nat_small [of "4096 * (0xFFFFFFFFC0400 + k)"] by (simp add: word_le_nat_alt KERNBASE_def)
  ultimately have pa: "PADDR (ROUNDUP kend PGSIZE + sizeof_Page * of_nat 32768) = Inr (of_nat (4096 * (0x80400 + k)))"
    by (simp add: PADDR_def va_pa_offset_def KERNBASE_def linorder_not_less algebra_simps)
  let ?free = "of_nat (4096 * (0x80400 + k)) :: u64"
  have u: "unat ?free = 4096 * (0x80400 + k)" using k(2) by (intro unat_of_nat_small) simp
  have rd: "ROUNDUP ?free PGSIZE = ?free" using k(2) by (subst round_of_nat) simp_all
  have en: "ROUNDDOWN PHYSICAL_MEMORY_END PGSIZE = 0x88000000" by (simp add: ROUNDDOWN_def PHYSICAL_MEMORY_END_def PGSIZE_def)
  have lt: "?free < 0x88000000" using k(2) u by (simp add: word_less_nat_alt)
  have pg: "pa2page ?s ?free = Inr (1024 + k)" using k(2) u by (simp add: pa2page_def unat_index reserve_all_def nbase_def)
  have "unat (0x88000000 - ?free) = 0x88000000 - 4096 * (0x80400 + k)"
    using unat_sub [OF order.strict_implies_order [OF lt]] unfolding u by simp
  then have sz: "unat ((0x88000000 - ?free) div PGSIZE) = 31744 - k" using k(2) by (simp add: unat_div PGSIZE_def)
  have np: "unat ((if PHYSICAL_MEMORY_END > KERNTOP then KERNTOP else PHYSICAL_MEMORY_END) div PGSIZE) = 0x88000"
    by (simp add: PHYSICAL_MEMORY_END_def KERNTOP_def KERNBASE_def KMEMSIZE_def PGSIZE_def)
  have "page_init kend (init_pmm_manager s) = init_memmap (1024 + k) (31744 - k) ?s"
    unfolding page_init_def Let_def np using pa rd en lt pg sz by (simp add: nbase_def)
  moreover have "fa ?s = default_init (fa ?s)" by (simp add: reserve_all_def init_pmm_manager_def default_init_def list_h_defs)
  moreover have "\<exists>f. default_init_memmap (default_init (fa ?s)) (1024 + k) (31744 - k) = Inr f \<and> one_block f (1024 + k) (31744 - k)"
    using k(2) by (intro init_one_block ballI reserve_all_reserved) auto
  ultimately show ?thesis by (auto simp: init_memmap_def reserve_all_def init_pmm_manager_def)
qed

section \<open>Property\<close>

text \<open>C12: memory management boots.  For a kernel image of at most 31739 pages, \<open>pmm_init\<close> sets up the page allocator and the
  allocator passes its own test: no assertion fails, every loop ends, and afterwards the free memory is one block again, from
  behind the page descriptors to the end of memory.\<close>

theorem pmm_boot_ok:
  assumes kend: "kend = KERNBASE + of_nat x" and k: "k = (x + 4095) div 4096" "k \<le> 31739" and sw: "\<not> swap_init_ok s"
  shows "\<exists>t. pmm_init_alloc kend s = Inr t \<and> one_block (fa t) (1024 + k) (31744 - k) \<and> npage t = 0x88000"
proof -
  obtain t where t: "page_init kend (init_pmm_manager s) = Inr t" "one_block (fa t) (1024 + k) (31744 - k)" "npage t = 0x88000"
    "\<not> swap_init_ok t" using page_init_boots [OF kend k] sw by blast
  have "passes (1024 + k) (31744 - k) t (check_alloc_page t)"
    using t(2-4) k(2) by (intro check_alloc_page_passes) (simp_all add: nbase_def)
  then obtain u where u: "check_alloc_page t = Inr u" "u = t\<lparr>fa := fa u\<rparr>" "one_block (fa u) (1024 + k) (31744 - k)"
    by (auto simp: passes_def split: sum.splits)
  have "npage u = 0x88000" using arg_cong [OF u(2), of npage] t(3) by simp
  with t(1) u show ?thesis by (simp add: pmm_init_alloc_def)
qed

theorem pmm_boot_ok_witness:
  "\<exists>t. pmm_init_alloc 0xFFFFFFFFC0300000 (mem8_state reserved_pages) = Inr t \<and> nr_free (fa t) = 31488 \<and> npage t = 0x88000"
proof -
  have "\<not> swap_init_ok (mem8_state reserved_pages)" by (simp add: mem8_state_def)
  from pmm_boot_ok [where kend = "0xFFFFFFFFC0300000" and x = "0x100000" and k = "256", OF _ _ _ this]
  show ?thesis by (auto simp: KERNBASE_def one_block_def)
qed

end
