(* ===== verification/Swap.thy ===== *)
theory Swap
  imports Pagetable
begin

text \<open>
  Swapping (kern/mm/swap.c, kern/mm/swap\_fifo.c, kern/fs/swapfs.c, kern/driver/ide.c): the replacement policy as a queue,
  stated as a locale over the operations \<open>swap_manager\<close> calls and interpreted on the FIFO list, and the
  way of a page to the disk and back.
\<close>

section \<open>The interface of a queue of pages\<close>

fun victims :: "('s \<Rightarrow> ('s \<times> nat \<times> int) res) \<Rightarrow> nat \<Rightarrow> 's \<Rightarrow> ('s \<times> nat list) res" where
  "victims out 0 s = Inr (s, [])"
| "victims out (Suc k) s =
     bindR (out s) (\<lambda>(s, p, _). bindR (victims out k s) (\<lambda>(s, ps). Inr (s, p # ps)))"

fun swappables :: "(nat \<Rightarrow> 's \<Rightarrow> ('s \<times> int) res) \<Rightarrow> nat list \<Rightarrow> 's \<Rightarrow> 's res" where
  "swappables add [] s = Inr s"
| "swappables add (p # ps) s = bindR (add p s) (\<lambda>(s, _). swappables add ps s)"

locale replacement_queue =
  fixes start :: "'s \<Rightarrow> 's"
    and add :: "nat \<Rightarrow> 's \<Rightarrow> ('s \<times> int) res"
    and out :: "'s \<Rightarrow> ('s \<times> nat \<times> int) res"
    and rep :: "'s \<Rightarrow> nat list \<Rightarrow> bool"
  assumes start_law: "rep (start s) []"
    and add_law: "rep s ps \<Longrightarrow> p \<notin> set ps \<Longrightarrow> \<exists>s'. add p s = Inr (s', 0) \<and> rep s' (ps @ [p])"
    and out_law: "rep s (p # ps) \<Longrightarrow> \<exists>s'. out s = Inr (s', p, 0) \<and> rep s' ps"
begin

lemma swappables_ok:
  "rep s qs \<Longrightarrow> distinct (qs @ ps) \<Longrightarrow> \<exists>s'. swappables add ps s = Inr s' \<and> rep s' (qs @ ps)"
proof (induction ps arbitrary: s qs)
  case (Cons p ps)
  then obtain s1 where s1: "add p s = Inr (s1, 0)" "rep s1 (qs @ [p])" using add_law [of s qs p] by auto
  with Cons.IH [OF s1(2)] Cons.prems(2) show ?case by auto
qed simp

lemma victims_ok:
  "rep s (ps @ qs) \<Longrightarrow> \<exists>s'. victims out (length ps) s = Inr (s', ps) \<and> rep s' qs"
proof (induction ps arbitrary: s)
  case (Cons p ps)
  then obtain s1 where s1: "out s = Inr (s1, p, 0)" "rep s1 (ps @ qs)" using out_law [of s p "ps @ qs"] by auto
  with Cons.IH [OF s1(2)] show ?case by auto
qed simp

lemma first_in_first_out:
  assumes "distinct ps" and "k \<le> length ps"
  shows "\<exists>s1 s2. swappables add ps (start s) = Inr s1 \<and> victims out k s1 = Inr (s2, take k ps) \<and> rep s2 (drop k ps)"
proof -
  obtain s1 where s1: "swappables add ps (start s) = Inr s1" "rep s1 (take k ps @ drop k ps)"
    using swappables_ok [OF start_law] assms(1) by auto
  moreover have "length (take k ps) = k" using assms(2) by simp
  ultimately show ?thesis using victims_ok [OF s1(2)] by auto
qed

end

section \<open>The FIFO list\<close>

definition fifo_rep :: "addr \<Rightarrow> mstate \<Rightarrow> nat list \<Rightarrow> bool" where
  "fifo_rep mm s ps \<longleftrightarrow> sm_priv (mms s mm) = Some PraHead \<and> dll (pra_link s) PraHead (map PraLink ps)"

lemma fifo_add_ok:
  assumes "mm \<noteq> 0" and "fifo_rep mm s ps" and "p \<notin> set ps"
  shows "\<exists>s'. fifo_map_swappable mm la p si s = Inr (s', 0) \<and> fifo_rep mm s' (ps @ [p])"
proof -
  have "dll (list_add_before (pra_link s) PraHead (PraLink p)) PraHead (map PraLink ps @ [PraLink p])"
    using assms by (intro lh.push_back) (auto simp: fifo_rep_def)
  with assms show ?thesis by (simp add: fifo_map_swappable_def fifo_rep_def)
qed

lemma fifo_out_eq:
  assumes "mm \<noteq> 0" and "fifo_rep mm s (p # ps)"
  shows "\<exists>L. fifo_swap_out_victim mm 0 s = Inr (s\<lparr>pra_link := L\<rparr>, p, 0) \<and> fifo_rep mm (s\<lparr>pra_link := L\<rparr>) ps"
proof -
  have r: "dll (pra_link s) PraHead (PraLink p # map PraLink ps)" using assms by (simp add: fifo_rep_def)
  have "dll (list_del (pra_link s) (PraLink p)) PraHead (map PraLink ps)"
    using lh.pop_front [OF r] lh.first [OF r] by simp
  then show ?thesis using assms lh.first [OF r]
    by (intro exI [of _ "list_del (pra_link s) (PraLink p)"]) (simp add: fifo_swap_out_victim_def fifo_rep_def assertR_def)
qed

lemma fifo_out_ok:
  "mm \<noteq> 0 \<Longrightarrow> fifo_rep mm s (p # ps) \<Longrightarrow> \<exists>s'. fifo_swap_out_victim mm 0 s = Inr (s', p, 0) \<and> fifo_rep mm s' ps"
  using fifo_out_eq by blast

lemma fifo_start_ok: "fifo_rep mm (fst (fifo_init_mm mm s)) []"
  using lh.rep_init [of "pra_link s" PraHead] by (simp add: fifo_rep_def fifo_init_mm_def)

text \<open>For a memory map that is not NULL; \<open>Suc k\<close> is its address.\<close>

interpretation fifo: replacement_queue "\<lambda>s. fst (swap_init_mm (Suc k) s)" "\<lambda>p. swap_map_swappable (Suc k) la p si"
  "fifo_swap_out_victim (Suc k) 0" "fifo_rep (Suc k)"
  for k :: addr and la :: u64 and si :: int
proof unfold_locales
  show "fifo_rep (Suc k) (fst (swap_init_mm (Suc k) s)) []" for s by (simp add: swap_init_mm_def fifo_start_ok)
  show "\<exists>s'. swap_map_swappable (Suc k) la p si s = Inr (s', 0) \<and> fifo_rep (Suc k) s' (ps @ [p])"
    if "fifo_rep (Suc k) s ps" "p \<notin> set ps" for s ps p
    using fifo_add_ok [of "Suc k", OF _ that] by (simp add: swap_map_swappable_def)
  show "\<exists>s'. fifo_swap_out_victim (Suc k) 0 s = Inr (s', p, 0) \<and> fifo_rep (Suc k) s' ps"
    if "fifo_rep (Suc k) s (p # ps)" for s p ps
    using fifo_out_ok [of "Suc k", OF _ that] by simp
qed

text \<open>C25: the replacement policy is first in, first out.  After \<open>swap_init_mm\<close> and \<open>swap_map_swappable\<close> of distinct pages, the
  first \<open>k\<close> calls of the manager's \<open>swap_out_victim\<close> return the \<open>k\<close> pages that were added first, in that order, and the others
  stay queued.
\<close>

theorem swap_fifo_order:
  assumes "mm \<noteq> 0" and "distinct ps" and "k \<le> length ps"
  shows "\<exists>s1 s2. swappables (\<lambda>p. swap_map_swappable mm la p si) ps (fst (swap_init_mm mm s)) = Inr s1 \<and>
    victims (fifo_swap_out_victim mm 0) k s1 = Inr (s2, take k ps) \<and> fifo_rep mm s2 (drop k ps)"
proof -
  obtain j where "mm = Suc j" using assms(1) by (cases mm) auto
  then show ?thesis using fifo.first_in_first_out [OF assms(2,3)] by simp
qed

theorem swap_fifo_order_witness:
  "\<forall>f. \<exists>s1 s2. swappables (\<lambda>p. swap_map_swappable 64 0x1000 p 0) [5, 3, 7] (fst (swap_init_mm 64 (mem8_state f))) = Inr s1 \<and>
    victims (fifo_swap_out_victim 64 0) 2 s1 = Inr (s2, [5, 3]) \<and> fifo_rep 64 s2 [7]"
  using swap_fifo_order [of 64 "[5, 3, 7]" 2 "0x1000" 0] by simp


section \<open>The disk\<close>

text \<open>The slot of a virtual address, and the condition \<open>swap_offset\<close> checks.\<close>

definition swap_entry :: "u64 \<Rightarrow> u64" where "swap_entry v = push_bit 8 (v div PGSIZE + 1)"
definition swap_slot :: "u64 \<Rightarrow> nat" where "swap_slot v = unat (v div PGSIZE + 1)"

lemma unat_page_no: "v < USERTOP \<Longrightarrow> unat (v div PGSIZE + 1) = unat v div 4096 + 1 \<and> unat v div 4096 < 2 ^ 19"
proof -
  assume "v < USERTOP"
  then have v: "unat v < 2 ^ 31" by (rule unat_user)
  have d: "unat (v div PGSIZE) = unat v div 4096" by (simp add: PGSIZE_def unat_div)
  have lt: "unat v div 4096 < 2 ^ 19" using v by simp
  have "v div PGSIZE + 1 = of_nat (unat v div 4096 + 1)" using d by (metis of_nat_1 of_nat_add of_nat_unat ucast_id)
  moreover have "unat v div 4096 + 1 < 2 ^ 64" using lt by simp
  ultimately show ?thesis using lt by (simp only: unat_of_nat_small)
qed

lemma swap_offset_entry:
  assumes "v < USERTOP"
  shows "swap_offset s (swap_entry v) = (if swap_slot v < max_swap_offset s then Inr (swap_slot v)
    else Inl (Panic ''invalid swap_entry_t''))"
proof -
  have "unat (v div PGSIZE + 1) < 2 ^ 20" using unat_page_no [OF assms] by simp
  then have "unat (drop_bit 8 (swap_entry v)) = unat (v div PGSIZE + 1)"
    unfolding swap_entry_def unat_drop_bit_eq unsigned_push_bit_eq
    by (simp add: take_bit_nat_eq_self push_bit_eq_mult drop_bit_eq_div)
  moreover have "0 < swap_slot v" using unat_page_no [OF assms] by (simp add: swap_slot_def)
  ultimately show ?thesis by (simp add: swap_offset_def swap_slot_def)
qed

lemma page_frame:
  assumes "minv s F" and "p + nbase < npage s"
  shows "bindR (page2kva s p) (\<lambda>kva. bindR (kva_frame s kva) g) = g (p + nbase)"
proof -
  have "p + nbase < 2 ^ 52" using assms by (simp add: minv_def)
  then have "unat (PPN (page2pa p)) = p + nbase" using PPN_page2pa [of p] by (simp add: page2ppn_def)
  then show ?thesis using frame_of_pa [of "page2pa p" s] assms(2) unfolding page2kva_def
    by (metis bindR_Inr bindR_assoc le_add2)
qed

definition on_disk :: "mstate \<Rightarrow> nat \<Rightarrow> (nat \<Rightarrow> u64) \<Rightarrow> bool" where
  "on_disk s slot w \<longleftrightarrow> (\<forall>i<512. ide s (slot * 512 + i) = w i)"

lemma swapfs_write_ok:
  assumes "minv s F" and "p + nbase < npage s" and "v < USERTOP" and "swap_slot v < max_swap_offset s" and "max_swap_offset s \<le> 7"
  shows "\<exists>D. swapfs_write (swap_entry v) p s = Inr (s\<lparr>ide := D\<rparr>, 0) \<and> on_disk (s\<lparr>ide := D\<rparr>) (swap_slot v) (pmem s (p + nbase)) \<and>
    (\<forall>k. k div 512 \<noteq> swap_slot v \<longrightarrow> D k = ide s k)"
proof -
  let ?o = "swap_slot v"
  let ?D = "\<lambda>k. if ?o * 8 * 64 \<le> k \<and> k < ?o * 8 * 64 + 8 * 64 then pmem s (p + nbase) (k - ?o * 8 * 64) else ide s k"
  have "ide_in_range (?o * 8) 8" using assms(4,5) by (simp add: ide_in_range_def MAX_DISK_NSECS_def)
  then have "swapfs_write (swap_entry v) p s = Inr (s\<lparr>ide := ?D\<rparr>, 0)"
    using assms(4) by (simp add: swapfs_write_def swap_offset_entry [OF assms(3)] page_frame [OF assms(1,2)] ide_write_secs_def PAGE_NSECT_def)
  moreover have "k div 512 = ?o" if "?o * 512 \<le> k" "k < ?o * 512 + 512" for k using that by auto
  ultimately show ?thesis by (intro exI [of _ ?D]) (auto simp: on_disk_def)
qed

lemma swapfs_read_ok:
  assumes "minv s F" and "p + nbase < npage s" and "v < USERTOP" and "swap_slot v < max_swap_offset s" and "max_swap_offset s \<le> 7"
    and d: "on_disk s (swap_slot v) w"
  shows "\<exists>m. swapfs_read (swap_entry v) p s = Inr (s\<lparr>pmem := (pmem s)(p + nbase := m)\<rparr>, 0) \<and> (\<forall>i<512. m i = w i)"
proof -
  let ?o = "swap_slot v"
  let ?m = "\<lambda>i. if i < 512 then ide s (?o * 8 * 64 + i) else pmem s (p + nbase) i"
  have "ide_in_range (?o * 8) 8" using assms(4,5) by (simp add: ide_in_range_def MAX_DISK_NSECS_def)
  then show ?thesis using assms(4) d
    by (intro exI [of _ ?m]) (simp add: swapfs_read_def swap_offset_entry [OF assms(3)] page_frame [OF assms(1,2)] ide_read_secs_def PAGE_NSECT_def on_disk_def ac_simps)
qed

section \<open>Swapping a page out and in\<close>

text \<open>The page at the head of the queue is mapped at its address and is an allocated page.\<close>

definition swappable :: "mstate \<Rightarrow> nat \<Rightarrow> nat set \<Rightarrow> nat \<Rightarrow> u64 \<Rightarrow> bool" where
  "swappable s d F p v \<longleftrightarrow> v = pra_vaddr (page_of s p) \<and> v < USERTOP \<and> bit (leaf (pmem s) d v) 0 \<and> user_page s d F p"

lemma swap_entry_invalid: "\<not> bit (swap_entry v) 0"
  by (simp add: swap_entry_def bit_push_bit_iff)

lemma swap_out_one_no_slot:
  assumes mm: "mm \<noteq> 0" "kva_frame s (pgdir (mms s mm)) = Inr d" and wf: "pt_wf (npage s) (pmem s) d F"
    and q: "fifo_rep mm s (p # ps)" and v: "v = pra_vaddr (page_of s p)" "bit (leaf (pmem s) d v) 0" "v < USERTOP"
    and slot: "max_swap_offset s \<le> swap_slot v"
  shows "swap_out_one mm 0 s = Inl (Panic ''invalid swap_entry_t'')"
proof -
  obtain L where L: "fifo_swap_out_victim mm 0 s = Inr (s\<lparr>pra_link := L\<rparr>, p, 0)"
    using fifo_out_eq [OF mm(1) q] by blast
  let ?s = "s\<lparr>pra_link := L\<rparr>"
  have off: "swap_offset ?s (swap_entry v) = Inl (Panic ''invalid swap_entry_t'')"
    using slot by (simp add: swap_offset_entry [OF v(3)])
  obtain g k where w: "walk (pmem s) d v = Some (g, k)" "bit (pmem s g k) 0" using leaf_valid_walk [OF v(2)] v(2) by auto
  have "get_pte_with no_alloc (pgdir (mms s mm)) v False ?s = Inr (?s, Some (g, k))"
    using get_pte_find [of ?s "pgdir (mms s mm)" d F v False no_alloc] mm(2) wf upath_user [OF v(3)] w(1)
    by (simp add: kva_frame_def)
  then show ?thesis using L off w(2) v(1)
    by (simp add: swap_out_one_def swapfs_write_def rd_def and_PTE_V assertR_def Let_def swap_entry_def page_of_def)
qed

lemma swap_out_one_total:
  assumes mm: "mm \<noteq> 0" "kva_frame s (pgdir (mms s mm)) = Inr d" and inv: "minv s F" "pt_wf (npage s) (pmem s) d F"
    and q: "fifo_rep mm s (p # ps)" and sw: "swappable s d F p v" and slot: "swap_slot v < max_swap_offset s" "max_swap_offset s \<le> 7"
  shows "\<exists>s' g k. swap_out_one mm 0 s = Inr (s', True) \<and> walk (pmem s) d v = Some (g, k) \<and>
    pmem s' = (pmem s)(g := (pmem s g)(k := swap_entry v)) \<and> on_disk s' (swap_slot v) (pmem s (p + nbase)) \<and>
    fifo_rep mm s' ps \<and> (if insertable F p then minv s' (insert p F) else \<forall>F'. \<not> minv s' F') \<and>
    mms s' = mms s \<and> npage s' = npage s \<and> max_swap_offset s' = max_swap_offset s"
proof -
  obtain L where L: "fifo_swap_out_victim mm 0 s = Inr (s\<lparr>pra_link := L\<rparr>, p, 0)" "fifo_rep mm (s\<lparr>pra_link := L\<rparr>) ps"
    using fifo_out_eq [OF mm(1) q] by blast
  let ?s = "s\<lparr>pra_link := L\<rparr>"
  have sw': "v = pra_vaddr (page_of ?s p)" "v < USERTOP" "bit (leaf (pmem s) d v) 0" "user_page s d F p"
    using sw by (auto simp: swappable_def page_of_def)
  obtain g k where w: "walk (pmem s) d v = Some (g, k)" "bit (pmem s g k) 0" using leaf_valid_walk [OF sw'(3)] sw'(3) by auto
  have get: "get_pte_with no_alloc (pgdir (mms s mm)) v False ?s = Inr (?s, Some (g, k))"
    using get_pte_find [of ?s "pgdir (mms s mm)" d F v False no_alloc] mm(2) inv(2) upath_user [OF sw'(2)] w(1)
    by (simp add: kva_frame_def)
  have m: "minv ?s F" using inv(1) by (simp add: minv_def)
  have "p + nbase < npage ?s" using sw'(4) by (simp add: user_page_def)
  then obtain D where D: "swapfs_write (swap_entry v) p ?s = Inr (?s\<lparr>ide := D\<rparr>, 0)" "on_disk (?s\<lparr>ide := D\<rparr>) (swap_slot v) (pmem s (p + nbase))"
    using swapfs_write_ok [OF m _ sw'(2), of p] slot by auto
  let ?t = "wr (g, k) (swap_entry v) (?s\<lparr>ide := D\<rparr>)"
  have mt: "minv ?t F" using inv(1) by (simp add: minv_def wr_def)
  have "p \<notin> F" "p + nbase < npage ?t" "page_owned (fa ?t) p" using sw'(4) by (auto simp: user_page_def wr_def)
  from free_page_total [OF mt this] obtain f where f: "free_page p ?t = Inr (?t\<lparr>fa := f\<rparr>)"
    "if insertable F p then minv (?t\<lparr>fa := f\<rparr>) (insert p F) else \<forall>F'. \<not> minv (?t\<lparr>fa := f\<rparr>) F'" by blast
  have "swap_out_one mm 0 s = Inr (?t\<lparr>fa := f\<rparr>, True)"
    using L(1) get D(1) f(1) w(2) sw'(1)
    by (simp add: swap_out_one_def rd_def and_PTE_V assertR_def Let_def swap_entry_def)
  moreover have "fifo_rep mm (?t\<lparr>fa := f\<rparr>) ps" using L(2) by (simp add: fifo_rep_def wr_def)
  moreover have "mms (?t\<lparr>fa := f\<rparr>) = mms s" "npage (?t\<lparr>fa := f\<rparr>) = npage s"
    "max_swap_offset (?t\<lparr>fa := f\<rparr>) = max_swap_offset s" "on_disk (?t\<lparr>fa := f\<rparr>) (swap_slot v) (pmem s (p + nbase))"
    "pmem (?t\<lparr>fa := f\<rparr>) = (pmem s)(g := (pmem s g)(k := swap_entry v))"
    using D(2) by (simp_all add: wr_def on_disk_def)
  ultimately show ?thesis using w(1) f(2) by blast
qed

lemma node_other_frame:
  assumes "x \<notin> tables m d"
  shows "q \<in> tpaths \<Longrightarrow> node (m(x := h)) d q = node m d q"
proof (induction q)
  case (Cons i q)
  then have q: "q \<in> tpaths" by (blast intro: tpaths_tl)
  then have "node m d q \<noteq> Some x" using assms by (auto simp: tables_def)
  with Cons.IH [OF q] show ?case by (auto split: option.splits)
qed simp

lemma leaf_other_frame:
  assumes "x \<notin> tables m d" and "la < USERTOP"
  shows "leaf (m(x := h)) d la = leaf m d la"
proof -
  have "node (m(x := h)) d (upath la) = node m d (upath la)" by (rule node_other_frame [OF assms(1) upath_user [OF assms(2)]])
  moreover have "node m d (upath la) \<noteq> Some x" using assms upath_user [OF assms(2)] by (auto simp: tables_def)
  ultimately show ?thesis by (auto simp: leaf_def walk_def split: option.splits)
qed

lemma swap_in_ok:
  assumes mm: "mm \<noteq> 0" "kva_frame s (pgdir (mms s mm)) = Inr d" and inv: "minv s F" "pt_wf (npage s) (pmem s) d F" and F: "F \<noteq> {}"
    and v: "v < USERTOP" "swap_slot v < max_swap_offset s" "max_swap_offset s \<le> 7" "walk (pmem s) d v = Some (g, k)" "pmem s g k = swap_entry v"
    and dsk: "on_disk s (swap_slot v) w"
  shows "\<exists>s' r m. swap_in mm v s = Inr (s', r, 0) \<and> r \<in> F \<and> minv s' (F - {r}) \<and>
    pmem s' = (pmem s)(r + nbase := m) \<and> (\<forall>i<512. m i = w i)"
proof -
  obtain f r where r: "alloc_page s = Inr (s\<lparr>fa := f\<rparr>, Some r)" "r \<in> F" "minv (s\<lparr>fa := f\<rparr>) (F - {r})"
    using alloc_page_some [OF inv(1) F] by blast
  let ?s = "s\<lparr>fa := f\<rparr>"
  have get: "get_pte (pgdir (mms s mm)) v False ?s = Inr (?s, Some (g, k))"
    using get_pte_find [of ?s "pgdir (mms s mm)" d F v False] mm(2) inv(2) upath_user [OF v(1)] v(4)
    by (simp add: get_pte_def kva_frame_def)
  have "r + nbase < npage ?s" using minv_bound [OF inv(1) r(2)] by simp
  then obtain m where m: "swapfs_read (swap_entry v) r ?s = Inr (?s\<lparr>pmem := (pmem s)(r + nbase := m)\<rparr>, 0)" "\<forall>i<512. m i = w i"
    using swapfs_read_ok [OF r(3) _ v(1), of r w] v(2,3) dsk by (auto simp: on_disk_def)
  have "swap_in mm v s = Inr (?s\<lparr>pmem := (pmem s)(r + nbase := m)\<rparr>, r, 0)"
    using r(1) get m(1) mm(1) v(5) by (simp add: swap_in_def rd_def)
  then show ?thesis using r(2,3) m(2) by auto
qed

text \<open>What \<open>swap_in\<close> finds after \<open>swap_out\<close>.\<close>

lemma swapped_back_in:
  assumes mm: "mm \<noteq> 0" "kva_frame s (pgdir (mms s mm)) = Inr d" and inv: "minv s F" "pt_wf (npage s) (pmem s) d F"
    and sw: "swappable s d F p v" and slot: "swap_slot v < max_swap_offset s" "max_swap_offset s \<le> 7"
    and w: "walk (pmem s) d v = Some (g, k)" and m1: "pmem s1 = (pmem s)(g := (pmem s g)(k := swap_entry v))"
    and dsk: "on_disk s1 (swap_slot v) (pmem s (p + nbase))" and inv1: "minv s1 (insert p F)"
    and st: "mms s1 = mms s" "npage s1 = npage s" "max_swap_offset s1 = max_swap_offset s"
  shows "\<exists>s2 r. swap_in mm v s1 = Inr (s2, r, 0) \<and> r \<in> insert p F \<and> minv s2 (insert p F - {r}) \<and>
    (\<forall>i<512. pmem s2 (r + nbase) i = pmem s (p + nbase) i) \<and>
    (\<forall>la. la < USERTOP \<longrightarrow> leaf (pmem s2) d la = leaf (pmem s1) d la)"
proof -
  have v: "v < USERTOP" "swap_slot v < max_swap_offset s1" "max_swap_offset s1 \<le> 7" and p: "p + nbase \<notin> tables (pmem s) d"
    using sw slot st(3) by (auto simp: swappable_def user_page_def)
  have wf: "pt_wf (npage s1) (pmem s1) d (insert p F)"
    using tables_write [OF pt_wf_add [OF inv(2) p] w v(1)] unfolding m1 st(2) by auto
  have "node (pmem s1) d (upath v) = node (pmem s) d (upath v)"
    using node_write_leaf [OF inv(2) walk_user(1) [OF w] upath_user [OF v(1)] _ upath_user [OF v(1)]] unfolding m1 by (simp add: upath_def)
  then have w1: "walk (pmem s1) d v = Some (g, k)" "pmem s1 g k = swap_entry v" using w m1 by (auto simp: walk_def)
  have "kva_frame s1 (pgdir (mms s1 mm)) = Inr d" using mm(2) st by (simp add: kva_frame_def)
  then obtain s2 r m where i: "swap_in mm v s1 = Inr (s2, r, 0)" "r \<in> insert p F" "minv s2 (insert p F - {r})"
    "pmem s2 = (pmem s1)(r + nbase := m)" "\<forall>i<512. m i = pmem s (p + nbase) i"
    using swap_in_ok [OF mm(1) _ inv1 wf _ v w1 dsk] by blast
  have "r + nbase \<notin> tables (pmem s1) d" using pt_wf_tables [OF _ wf] i(2) by (fastforce simp: table_frame_def)
  then have "\<forall>la. la < USERTOP \<longrightarrow> leaf (pmem s2) d la = leaf (pmem s1) d la" unfolding i(4) using leaf_other_frame by blast
  then show ?thesis using i by auto
qed

text \<open>C9: swapping out one page and back in, for every address.  Let \<open>p\<close>, the oldest page of the queue, be an allocated page mapped at
  its virtual address \<open>v\<close>.  If \<open>v\<close> has no slot on the disk (its page number plus one is not below \<open>max_swap_offset\<close>, which
  is 7: so for every \<open>v\<close> from 0x6000 on) \<open>swap_out\<close> panics.  Otherwise \<open>swap_out\<close> of one page returns 1: \<open>p\<close> leaves the queue, its
  words are in the slot, the entry of \<open>v\<close> becomes the (invalid) swap entry of the slot and no other entry changes.  If moreover
  some free page lies above \<open>p\<close> or no page is free (\<open>insertable\<close>), \<open>p\<close> is free again, and \<open>swap_in\<close> of \<open>v\<close> then returns 0 with
  a page that was free and now holds the words \<open>p\<close> held, and changes no mapping; if not, freeing \<open>p\<close> breaks the free list.
\<close>

theorem swap_out_in:
  assumes "mm \<noteq> 0" and "kva_frame s (pgdir (mms s mm)) = Inr d" and "minv s F" and "pt_wf (npage s) (pmem s) d F"
    and "fifo_rep mm s (p # ps)" and "max_swap_offset s \<le> 7"
    and "v = pra_vaddr (page_of s p)" and "v < USERTOP" and "bit (leaf (pmem s) d v) 0" and "user_page s d F p"
  shows "if max_swap_offset s \<le> swap_slot v then swap_out mm 1 0 s = Inl (Panic ''invalid swap_entry_t'')
    else \<exists>s1. swap_out mm 1 0 s = Inr (s1, 1) \<and> fifo_rep mm s1 ps \<and> on_disk s1 (swap_slot v) (pmem s (p + nbase)) \<and>
      \<not> bit (swap_entry v) 0 \<and>
      (\<forall>la. la < USERTOP \<longrightarrow> leaf (pmem s1) d la = (if PPN la = PPN v then swap_entry v else leaf (pmem s) d la)) \<and>
      (if insertable F p
       then minv s1 (insert p F) \<and>
         (\<exists>s2 r. swap_in mm v s1 = Inr (s2, r, 0) \<and> r \<in> insert p F \<and> minv s2 (insert p F - {r}) \<and>
           (\<forall>i<512. pmem s2 (r + nbase) i = pmem s (p + nbase) i) \<and>
           (\<forall>la. la < USERTOP \<longrightarrow> leaf (pmem s2) d la = leaf (pmem s1) d la))
       else \<forall>F'. \<not> minv s1 F')"
proof (cases "max_swap_offset s \<le> swap_slot v")
  case True
  with swap_out_one_no_slot [OF assms(1,2,4,5,7,9,8)] show ?thesis by (simp add: swap_out_def)
next
  case False
  have sw: "swappable s d F p v" using assms(7-10) by (simp add: swappable_def)
  from False have slot: "swap_slot v < max_swap_offset s" by simp
  obtain s1 g k where o: "swap_out_one mm 0 s = Inr (s1, True)" "walk (pmem s) d v = Some (g, k)"
    "pmem s1 = (pmem s)(g := (pmem s g)(k := swap_entry v))" "on_disk s1 (swap_slot v) (pmem s (p + nbase))"
    "fifo_rep mm s1 ps" "if insertable F p then minv s1 (insert p F) else \<forall>F'. \<not> minv s1 F'"
    "mms s1 = mms s" "npage s1 = npage s" "max_swap_offset s1 = max_swap_offset s"
    using swap_out_one_total [OF assms(1-5) sw slot assms(6)] by blast
  have "\<exists>s2 r. swap_in mm v s1 = Inr (s2, r, 0) \<and> r \<in> insert p F \<and> minv s2 (insert p F - {r}) \<and>
      (\<forall>i<512. pmem s2 (r + nbase) i = pmem s (p + nbase) i) \<and>
      (\<forall>la. la < USERTOP \<longrightarrow> leaf (pmem s2) d la = leaf (pmem s1) d la)" if "minv s1 (insert p F)"
    using swapped_back_in [OF assms(1-4) sw slot assms(6) o(2,3,4) that o(7-9)] .
  moreover have "\<forall>la. la < USERTOP \<longrightarrow> leaf (pmem s1) d la = (if PPN la = PPN v then swap_entry v else leaf (pmem s) d la)"
    unfolding o(3) using leaf_write [OF assms(4) o(2) assms(8)] by blast
  moreover have "swap_out mm 1 0 s = Inr (s1, 1)" using o(1) by (simp add: swap_out_def)
  ultimately show ?thesis using o(4,5,6) False swap_entry_invalid by auto
qed


section \<open>A queue with one page\<close>

lemma swap_demo:
  assumes la: "la < USERTOP"
  shows "\<exists>s F. kva_frame s (pgdir (mms s 64)) = Inr nbase \<and> minv s F \<and> pt_wf (npage s) (pmem s) nbase F \<and> fifo_rep 64 s [2] \<and>
    pra_vaddr (page_of s 2) = la \<and> max_swap_offset s = 7 \<and> bit (leaf (pmem s) nbase la) 0 \<and> user_page s nbase F 2 \<and> insertable F 2"
proof -
  obtain s F where s: "kva_frame s mem8_root = Inr nbase" "minv s F" "pt_wf (npage s) (pmem s) nbase F"
    "leaf (pmem s) nbase la = new_pte 2 (PTE_U OR PTE_V)" "bit (new_pte 2 (PTE_U OR PTE_V)) 0"
    "removable s nbase F (new_pte 2 (PTE_U OR PTE_V))" "insertable F 2" using mem8_mapped [OF la] by blast
  have "tbl (new_pte 2 (PTE_U OR PTE_V)) = 2 + nbase" by (rule new_pte_laws; simp add: perm_UV_high nbase_def)
  then have u: "user_page s nbase F 2" using s(6) by (simp add: removable_def)
  define m where "m = (mms s 64)\<lparr>pgdir := mem8_root\<rparr>"
  define t where "t = fst (fifo_init_mm 64 (s\<lparr>mms := (mms s)(64 := m), max_swap_offset := 7\<rparr>))"
  have "fifo_rep 64 t []" unfolding t_def by (rule fifo_start_ok)
  then obtain t' where t': "fifo_map_swappable 64 0 2 0 t = Inr (t', 0)" "fifo_rep 64 t' [2]"
    using fifo_add_ok [of 64 t "[]" 2 0 0] by auto
  then have e: "t' = s\<lparr>mms := mms t', max_swap_offset := 7, pra_link := pra_link t'\<rparr>" "pgdir (mms t' 64) = mem8_root"
    by (auto simp: fifo_map_swappable_def t_def fifo_init_mm_def m_def split: option.splits)
  let ?u = "upd_page 2 (\<lambda>p. p\<lparr>pra_vaddr := la\<rparr>) t'"
  have fl: "npage ?u = npage s" "pmem ?u = pmem s" "mms ?u = mms t'" "max_swap_offset ?u = 7"
    by (simp_all add: upd_page_def, (subst e(1), simp)+)
  have "minv t' F" using s(2) by (subst e(1)) (simp add: minv_def)
  then have "minv ?u F" by (subst minv_upd_page) simp_all
  moreover have "kva_frame ?u (pgdir (mms ?u 64)) = Inr nbase" using s(1) fl e(2) by (simp add: kva_frame_def)
  moreover have "fifo_rep 64 ?u [2]" using t'(2) by (simp add: fifo_rep_def upd_page_def)
  moreover have "fa t' = fa s" by (subst e(1)) simp
  then have "user_page ?u nbase F 2" using u unfolding user_page_def fl by (simp add: upd_page_def page_owned_def PageReserved_bit)
  ultimately show ?thesis using s fl by (intro exI [of _ ?u] exI [of _ F]) (simp add: page_of_def upd_page_def)
qed

theorem swap_out_in_witness:
  "\<exists>s s1 s2 r. swap_out 64 1 0 s = Inr (s1, 1) \<and> swap_in 64 0x1000 s1 = Inr (s2, r, 0) \<and>
    (\<forall>i<512. pmem s2 (r + nbase) i = pmem s (2 + nbase) i)"
proof -
  obtain s F where s: "kva_frame s (pgdir (mms s 64)) = Inr nbase" "minv s F" "pt_wf (npage s) (pmem s) nbase F" "fifo_rep 64 s [2]"
    "pra_vaddr (page_of s 2) = 0x1000" "max_swap_offset s = 7" "bit (leaf (pmem s) nbase 0x1000) 0" "user_page s nbase F 2" "insertable F 2"
    using swap_demo [of "0x1000"] by (auto simp: USERTOP_def)
  have v: "swap_slot 0x1000 = 2" "(0x1000 :: u64) < USERTOP" by (simp_all add: swap_slot_def PGSIZE_def USERTOP_def)
  from swap_out_in [OF _ s(1-4) _ s(5) [symmetric] v(2) s(7,8)] s(6,9) v(1) show ?thesis by auto
qed

text \<open>C40: no page of a user program can be swapped out.  The slot of a page is its virtual page number plus one and the
  disk has seven slots, so for every address from \<open>USERBASE\<close> on \<open>swap_out\<close> panics when it computes the
  offset of the slot, whatever the state of the disk.
\<close>

theorem swap_out_user_panics:
  assumes "mm \<noteq> 0" and "kva_frame s (pgdir (mms s mm)) = Inr d" and "pt_wf (npage s) (pmem s) d F"
    and "fifo_rep mm s (p # ps)" and "v = pra_vaddr (page_of s p)" and "bit (leaf (pmem s) d v) 0"
    and "USERBASE \<le> v" and "v < USERTOP" and "swapfs_init s0 = Inr s1" and "max_swap_offset s = max_swap_offset s1"
  shows "swap_out mm (Suc n) 0 s = Inl (Panic ''invalid swap_entry_t'')"
proof -
  have seven: "max_swap_offset s = 7"
    using assms(9,10) by (auto simp: swapfs_init_def ide_device_valid_def ide_device_size_def SWAP_DEV_NO_def MAX_IDE_def MAX_DISK_NSECS_def SECTSIZE_def)
  have "unat v \<ge> 0x200000" using assms(7) by (simp add: USERBASE_def word_le_nat_alt)
  then have "7 < swap_slot v" using unat_page_no [OF assms(8)] by (simp add: swap_slot_def)
  with seven swap_out_one_no_slot [OF assms(1-6,8)] show ?thesis by (simp add: swap_out_def)
qed

theorem swap_out_user_panics_witness:
  "\<exists>s. swap_out 64 1 0 s = Inl (Panic ''invalid swap_entry_t'')"
proof -
  obtain s F where s: "kva_frame s (pgdir (mms s 64)) = Inr nbase" "minv s F" "pt_wf (npage s) (pmem s) nbase F" "fifo_rep 64 s [2]"
    "pra_vaddr (page_of s 2) = 0x200000" "max_swap_offset s = 7" "bit (leaf (pmem s) nbase 0x200000) 0"
    using swap_demo [OF mem8_user] by blast
  have "swapfs_init s = Inr (s\<lparr>max_swap_offset := 7\<rparr>)"
    by (simp add: swapfs_init_def ide_device_valid_def ide_device_size_def SWAP_DEV_NO_def MAX_IDE_def MAX_DISK_NSECS_def SECTSIZE_def)
  from swap_out_user_panics [OF _ s(1,3,4) s(5) [symmetric] s(7) _ mem8_user this, of 0] s(6) show ?thesis
    by (auto simp: USERBASE_def)
qed

end
