(* ===== verification/Ranges.thy ===== *)
theory Ranges
  imports Swap
begin

text \<open>
  The operations of kern/mm/pmm.c on ranges of addresses: \<open>unmap_range\<close>, with which an address space gives its pages
  back, and \<open>copy_range\<close>, with which fork copies them.  Ranges are page aligned, so the loops are followed by page number.
\<close>

section \<open>Page numbers\<close>

definition va :: "nat \<Rightarrow> u64" where "va i = of_nat (4096 * i)"

lemma va_unat: "i \<le> 2 ^ 20 \<Longrightarrow> unat (va i) = 4096 * i"
  unfolding va_def by (rule unat_of_nat_small) simp

lemma va_less: "i \<le> 2 ^ 20 \<Longrightarrow> j \<le> 2 ^ 20 \<Longrightarrow> va i < va j \<longleftrightarrow> i < j"
  by (simp add: word_less_nat_alt va_unat)

lemma va_user: "i < 2 ^ 19 \<Longrightarrow> va i < USERTOP"
  by (simp add: word_less_nat_alt va_unat USERTOP_def)

lemma va_zero: "i \<le> 2 ^ 20 \<Longrightarrow> va i = 0 \<longleftrightarrow> i = 0"
  by (simp add: word_unat_eq_iff va_unat)

lemma va_Suc: "va i + PGSIZE = va (Suc i)"
  by (simp add: va_def PGSIZE_def)

lemma va_PPN: "i \<le> 2 ^ 20 \<Longrightarrow> unat (PPN (va i)) = i"
  by (simp add: unat_index va_unat)

lemma va_PPN_eq: "i \<le> 2 ^ 20 \<Longrightarrow> j \<le> 2 ^ 20 \<Longrightarrow> PPN (va i) = PPN (va j) \<longleftrightarrow> i = j"
  using va_PPN by (metis)

lemma user_va: "la < USERTOP \<Longrightarrow> PPN la = PPN (va (unat la div 4096)) \<and> unat la div 4096 < 2 ^ 19"
proof -
  assume "la < USERTOP"
  then have "unat la div 4096 < 2 ^ 19" using unat_user [of la] by simp
  moreover from this have "unat (PPN la) = unat (PPN (va (unat la div 4096)))" by (simp add: unat_index va_unat)
  ultimately show ?thesis by (simp add: word_unat_eq_iff)
qed

lemma of_nat_mod_u64: "x < 2 ^ 64 \<Longrightarrow> n < 2 ^ 64 \<Longrightarrow> (of_nat x :: u64) mod of_nat n = of_nat (x mod n)"
proof -
  assume x: "x < 2 ^ 64" and n: "n < 2 ^ 64"
  have "x mod n < 2 ^ 64" using x mod_less_eq_dividend [of x n] by linarith
  with x n show ?thesis by (simp only: word_unat_eq_iff unat_mod unat_of_nat_small)
qed

lemma va_next_table: "i < 2 ^ 19 \<Longrightarrow> ROUNDDOWN (va i + PTSIZE) PTSIZE = va (512 * (i div 512 + 1))"
proof -
  assume "i < 2 ^ 19"
  then have lt: "4096 * (i + 512) < 2 ^ 64" by simp
  have e: "va i + PTSIZE = of_nat (4096 * (i + 512))" "PTSIZE = of_nat (4096 * 512)"
    by (simp_all add: va_def PTSIZE_def PGSIZE_def)
  have "(va i + PTSIZE) mod PTSIZE = of_nat (4096 * (i + 512) mod (4096 * 512))"
    unfolding e(1) unfolding e(2) using lt by (intro of_nat_mod_u64) simp_all
  also have "4096 * (i + 512) mod (4096 * 512) = 4096 * (i mod 512)" by (metis mod_add_self2 mult_mod_right)
  finally have "ROUNDDOWN (va i + PTSIZE) PTSIZE = of_nat (4096 * (i + 512)) - of_nat (4096 * (i mod 512))"
    unfolding ROUNDDOWN_def e(1) by simp
  also have "\<dots> = of_nat (4096 * (i + 512) - 4096 * (i mod 512))" by (simp add: of_nat_diff)
  also have "4096 * (i + 512) - 4096 * (i mod 512) = 4096 * (512 * (i div 512 + 1))"
  proof -
    have "4096 * (512 * q + r + 512) - 4096 * r = 4096 * (512 * (q + 1))" for q r :: nat by simp
    from this [of "i div 512" "i mod 512"] show ?thesis by simp
  qed
  finally show ?thesis by (simp only: va_def)
qed

text \<open>The entry of a page number.\<close>

abbreviation lf :: "(nat \<Rightarrow> nat \<Rightarrow> u64) \<Rightarrow> nat \<Rightarrow> nat \<Rightarrow> u64" where "lf m d i \<equiv> leaf m d (va i)"

lemma leaf_page: "la < USERTOP \<Longrightarrow> leaf m d la = lf m d (unat la div 4096)"
proof -
  assume la: "la < USERTOP"
  then have p: "PPN la = PPN (va (unat la div 4096))" "va (unat la div 4096) < USERTOP" using user_va [OF la] va_user by blast+
  then have "upath la = upath (va (unat la div 4096)) \<and> unat (PTX la) = unat (PTX (va (unat la div 4096)))"
    using same_page [OF la p(2)] by blast
  then show ?thesis by (simp add: leaf_def walk_def)
qed

lemma table_missing:
  assumes "walk m d (va i) = None" and "i \<le> k" and "k < 512 * (i div 512 + 1)" and "i < 2 ^ 19"
  shows "lf m d k = 0"
proof -
  have "k div 512 = i div 512" using assms(2,3) by (simp add: div_nat_eqI)
  moreover have k: "k \<le> 2 ^ 20" "i \<le> 2 ^ 20" using assms by auto
  moreover have "4096 * x div 2 ^ 21 = x div 512" "4096 * x div 2 ^ 30 = x div 512 div 512" for x :: nat
    by (simp_all add: div_mult2_eq [symmetric] ac_simps) 
  ultimately have "upath (va k) = upath (va i)" by (simp add: upath_def word_unat_eq_iff unat_index va_unat)
  then show ?thesis using assms(1) by (simp add: leaf_def walk_def)
qed


section \<open>Unmapping a range\<close>

text \<open>
  The pages \<open>i\<close> to \<open>j\<close> can be given up: every valid entry maps a page of its own that may be freed and lies below
  some free page.
\<close>

definition mapped :: "(nat \<Rightarrow> nat \<Rightarrow> u64) \<Rightarrow> nat \<Rightarrow> nat \<Rightarrow> bool" where
  "mapped m d k \<longleftrightarrow> bit (lf m d k) 0"

definition releasable :: "mstate \<Rightarrow> nat \<Rightarrow> nat set \<Rightarrow> nat \<Rightarrow> nat \<Rightarrow> bool" where
  "releasable s d F i j \<longleftrightarrow>
     (\<forall>k\<in>{i..<j}. mapped (pmem s) d k \<longrightarrow> nbase \<le> tbl (lf (pmem s) d k) \<and> user_page s d F (pg_of (lf (pmem s) d k)) \<and>
        (refs s (pg_of (lf (pmem s) d k)) = 1 \<longrightarrow> (\<exists>f\<in>F. pg_of (lf (pmem s) d k) < f))) \<and>
     inj_on (\<lambda>k. pg_of (lf (pmem s) d k)) {k \<in> {i..<j}. mapped (pmem s) d k}"

text \<open>The pages mapped in the range.\<close>

definition range_pages :: "mstate \<Rightarrow> nat \<Rightarrow> nat \<Rightarrow> nat \<Rightarrow> nat set" where
  "range_pages s d i j = (\<lambda>k. pg_of (lf (pmem s) d k)) ` {k \<in> {i..<j}. mapped (pmem s) d k}"

definition unmapped :: "mstate \<Rightarrow> nat \<Rightarrow> nat set \<Rightarrow> nat \<Rightarrow> nat \<Rightarrow> mstate \<Rightarrow> nat set \<Rightarrow> bool" where
  "unmapped s d F i j s' F' \<longleftrightarrow>
     s' = s\<lparr>fa := fa s', pmem := pmem s'\<rparr> \<and> minv s' F' \<and> pt_wf (npage s') (pmem s') d F' \<and>
     tables (pmem s') d = tables (pmem s) d \<and> (\<forall>p. page_owned (fa s') p = page_owned (fa s) p) \<and>
     F' = F \<union> {p \<in> range_pages s d i j. refs s p = 1} \<and>
     (\<forall>k<2 ^ 19. lf (pmem s') d k = (if i \<le> k \<and> k < j \<and> mapped (pmem s) d k then 0 else lf (pmem s) d k)) \<and>
     (\<forall>p. refs s' p = (if p \<in> range_pages s d i j then refs s p - 1 else refs s p))"

lemma unmapped_none:
  assumes "minv s F" and "pt_wf (npage s) (pmem s) d F" and "\<forall>k. i \<le> k \<and> k < j \<longrightarrow> \<not> mapped (pmem s) d k"
  shows "unmapped s d F i j s F"
proof -
  have "range_pages s d i j = {}" using assms(3) by (auto simp: range_pages_def)
  then show ?thesis using assms by (auto simp: unmapped_def)
qed

lemma range_pages_split: "i \<le> k \<Longrightarrow> k \<le> j \<Longrightarrow> range_pages s d i j = range_pages s d i k \<union> range_pages s d k j"
proof -
  assume "i \<le> k" and "k \<le> j"
  then have "{l \<in> {i..<j}. mapped (pmem s) d l} = {l \<in> {i..<k}. mapped (pmem s) d l} \<union> {l \<in> {k..<j}. mapped (pmem s) d l}" by auto
  then show ?thesis unfolding range_pages_def by (simp only: image_Un)
qed

lemma unmapped_trans:
  assumes 1: "unmapped s d F i k s1 F1" and 2: "unmapped s1 d F1 k j s2 F2" and ik: "i \<le> k" "k \<le> j" "j \<le> 2 ^ 19"
    and dj: "range_pages s d i k \<inter> range_pages s d k j = {}"
  shows "unmapped s d F i j s2 F2"
proof -
  note u1 = 1 [unfolded unmapped_def] and u2 = 2 [unfolded unmapped_def]
  have lf1: "lf (pmem s1) d l = lf (pmem s) d l" "mapped (pmem s1) d l = mapped (pmem s) d l" if "k \<le> l" "l < 2 ^ 19" for l
    using u1 that by (auto simp: mapped_def)
  then have r: "range_pages s1 d k j = range_pages s d k j" unfolding range_pages_def using ik by (intro image_cong) auto
  have m1: "mapped (pmem s1) d l \<longleftrightarrow> mapped (pmem s) d l \<and> \<not> (i \<le> l \<and> l < k)" if "l < 2 ^ 19" for l
    using u1 that by (auto simp: mapped_def)
  have ru: "range_pages s d i j = range_pages s d i k \<union> range_pages s d k j" by (rule range_pages_split [OF ik(1,2)])
  have rf1: "refs s1 p = refs s p" if "p \<in> range_pages s d k j" for p using u1 dj that by auto
  have "refs s2 p = (if p \<in> range_pages s d i j then refs s p - 1 else refs s p)" for p
    using u1 u2 dj unfolding r ru by auto
  moreover have "F2 = F \<union> {p \<in> range_pages s d i j. refs s p = 1}"
  proof -
    have "F2 = F \<union> {p \<in> range_pages s d i k. refs s p = 1} \<union> {p \<in> range_pages s d k j. refs s1 p = 1}" using u1 u2 r by simp
    moreover have "{p \<in> range_pages s d k j. refs s1 p = 1} = {p \<in> range_pages s d k j. refs s p = 1}" using rf1 by auto
    ultimately show ?thesis unfolding ru by auto
  qed
  moreover have "lf (pmem s2) d l = (if i \<le> l \<and> l < j \<and> mapped (pmem s) d l then 0 else lf (pmem s) d l)" if "l < 2 ^ 19" for l
    using u1 u2 m1 [OF that] that ik by (cases "l < k") auto
  moreover have "s2 = s\<lparr>fa := fa s2, pmem := pmem s2\<rparr>" 
    by (subst u2 [THEN conjunct1], subst u1 [THEN conjunct1]) simp
  moreover have "minv s2 F2" "pt_wf (npage s2) (pmem s2) d F2" using u2 by blast+
  moreover have "tables (pmem s2) d = tables (pmem s) d" "\<forall>p. page_owned (fa s2) p = page_owned (fa s) p" using u1 u2 by metis+
  ultimately show ?thesis unfolding unmapped_def by blast
qed

text \<open>One page.\<close>

lemma range_pages_one: "range_pages s d i (Suc i) = (if mapped (pmem s) d i then {pg_of (lf (pmem s) d i)} else {})"
proof -
  have "{k \<in> {i..<Suc i}. mapped (pmem s) d k} = (if mapped (pmem s) d i then {i} else {})" by auto
  then show ?thesis by (simp add: range_pages_def)
qed

lemma unmap_one:
  assumes inv: "minv s F" and wf: "pt_wf (npage s) (pmem s) d F" and i: "i < j" "j \<le> 2 ^ 19"
    and rl: "releasable s d F i j" and w: "walk (pmem s) d (va i) = Some (g, k)"
  shows "\<exists>s' F'. (if rd s (g, k) \<noteq> 0 then page_remove_pte pd (va i) (g, k) s else Inr s) = Inr s' \<and> unmapped s d F i (Suc i) s' F'"
proof (cases "mapped (pmem s) d i")
  case False
  then have nv: "\<not> bit (rd s (g, k)) 0" using walk_user(3) [OF w] by (simp add: mapped_def rd_def)
  have "unmapped s d F i (Suc i) s F" using False by (intro unmapped_none inv wf) (auto simp: le_less_Suc_eq)
  with nv show ?thesis by (intro exI [of _ s] exI [of _ F]) (simp add: page_remove_pte_def and_PTE_V)
next
  case True
  let ?v = "lf (pmem s) d i"
  have v: "rd s (g, k) = ?v" "bit ?v 0" using walk_user(3) [OF w] True by (auto simp: rd_def mapped_def)
  then have nz: "rd s (g, k) \<noteq> 0" by auto
  have la: "va i < USERTOP" using i by (intro va_user) simp
  have u: "nbase \<le> tbl ?v" "user_page s d F (pg_of ?v)" "refs s (pg_of ?v) = 1 \<Longrightarrow> insertable F (pg_of ?v)"
    using rl True i by (auto simp: releasable_def insertable_def)
  obtain f where f: "page_remove_pte pd (va i) (g, k) s = Inr (wr (g, k) 0 (s\<lparr>fa := f\<rparr>))" "minv (s\<lparr>fa := f\<rparr>) (drop_free s F (pg_of ?v))"
    "\<forall>p. page_owned f p = page_owned (fa s) p \<and> ref (pages f p) = (if p = pg_of ?v then refs s p - 1 else refs s p)"
    using page_remove_pte_ok [OF inv v u(1,2)] u(3) by blast
  let ?s = "wr (g, k) 0 (s\<lparr>fa := f\<rparr>)" and ?F = "drop_free s F (pg_of ?v)"
  have "pt_wf (npage s) (pmem s) d ?F" using u wf by (auto simp: drop_free_def user_page_def intro: pt_wf_add)
  then have t: "pt_wf (npage s) (pmem ?s) d ?F" "tables (pmem ?s) d = tables (pmem s) d"
    using tables_write [OF _ w la] by (auto simp: wr_def)
  have "lf (pmem ?s) d l = (if l = i then 0 else lf (pmem s) d l)" if "l < 2 ^ 19" for l
    using leaf_write [OF wf w la va_user [OF that], of 0] va_PPN_eq [of l i] that i by (simp add: wr_def)
  then have "unmapped s d F i (Suc i) ?s ?F"
    using t f(2,3) True unfolding unmapped_def range_pages_one
    by (auto simp: wr_def minv_def drop_free_def le_less_Suc_eq)
  with nz f(1) show ?thesis by auto
qed

lemma releasable_rest:
  assumes rl: "releasable s d F i j" and un: "unmapped s d F i k s1 F1" and ik: "i \<le> k" "k \<le> j" "j \<le> 2 ^ 19"
  shows "releasable s1 d F1 k j" and "range_pages s d i k \<inter> range_pages s d k j = {}"
proof -
  note u = un [unfolded unmapped_def]
  have inj: "inj_on (\<lambda>l. pg_of (lf (pmem s) d l)) {l \<in> {i..<j}. mapped (pmem s) d l}" using rl by (simp add: releasable_def)
  have "(\<lambda>l. pg_of (lf (pmem s) d l)) ` ({l \<in> {i..<k}. mapped (pmem s) d l} \<inter> {l \<in> {k..<j}. mapped (pmem s) d l}) = range_pages s d i k \<inter> range_pages s d k j"
    unfolding range_pages_def by (rule inj_on_image_Int [OF inj]) (use ik in auto)
  moreover have "{l \<in> {i..<k}. mapped (pmem s) d l} \<inter> {l \<in> {k..<j}. mapped (pmem s) d l} = {}" by auto
  ultimately show dj: "range_pages s d i k \<inter> range_pages s d k j = {}" by (simp only: image_empty)
  have e: "lf (pmem s1) d l = lf (pmem s) d l" "mapped (pmem s1) d l = mapped (pmem s) d l" if "k \<le> l" "l < j" for l
    using u that ik by (auto simp: mapped_def)
  have np: "npage s1 = npage s" using arg_cong [OF u [THEN conjunct1], of npage] by simp
  have "nbase \<le> tbl (lf (pmem s1) d l) \<and> user_page s1 d F1 (pg_of (lf (pmem s1) d l)) \<and>
      (refs s1 (pg_of (lf (pmem s1) d l)) = 1 \<longrightarrow> (\<exists>f\<in>F1. pg_of (lf (pmem s1) d l) < f))"
    if l: "l \<in> {k..<j}" "mapped (pmem s1) d l" for l
  proof -
    have m: "l \<in> {i..<j}" "mapped (pmem s) d l" using l e ik by auto
    then have r: "nbase \<le> tbl (lf (pmem s) d l)" "user_page s d F (pg_of (lf (pmem s) d l))"
      "refs s (pg_of (lf (pmem s) d l)) = 1 \<Longrightarrow> \<exists>f\<in>F. pg_of (lf (pmem s) d l) < f"
      using rl by (auto simp: releasable_def)
    have "pg_of (lf (pmem s) d l) \<in> range_pages s d k j" using l m by (auto simp: range_pages_def)
    then have "pg_of (lf (pmem s) d l) \<notin> range_pages s d i k" using dj by blast
    with r u np e [of l] l show ?thesis by (auto simp: user_page_def)
  qed
  moreover have "inj_on (\<lambda>l. pg_of (lf (pmem s1) d l)) {l \<in> {k..<j}. mapped (pmem s1) d l}"
  proof (rule inj_onI)
    fix x y assume "x \<in> {l \<in> {k..<j}. mapped (pmem s1) d l}" "y \<in> {l \<in> {k..<j}. mapped (pmem s1) d l}"
      and "pg_of (lf (pmem s1) d x) = pg_of (lf (pmem s1) d y)"
    then show "x = y" using inj_onD [OF inj, of x y] e [of x] e [of y] ik by auto
  qed
  ultimately show "releasable s1 d F1 k j" by (simp add: releasable_def)
qed

lemma unmap_loop_ok:
  assumes "kva_frame s pd = Inr d" and "minv s F" and "pt_wf (npage s) (pmem s) d F" and "i < j" and "j \<le> 2 ^ 19"
    and "releasable s d F i j"
  shows "\<exists>s' F'. unmap_loop pd (va i) (va j) s = Some (Inr s') \<and> unmapped s d F i j s' F'"
  using assms
proof (induction "j - i" arbitrary: i s F rule: less_induct)
  case less
  note prem = less.prems
  have la: "va i < USERTOP" using prem(4,5) by (intro va_user) simp
  have get: "get_pte pd (va i) False s = Inr (s, walk (pmem s) d (va i))"
    using get_pte_find [OF prem(1,3) upath_user [OF la], of False] by (simp add: get_pte_def)
  obtain k s1 F1 where k: "i < k" "k \<le> 2 ^ 20" and st: "unmap_loop pd (va i) (va j) s =
      (if k < j then unmap_loop pd (va k) (va j) s1 else Some (Inr s1))" and un: "unmapped s d F i (min k j) s1 F1"
  proof (cases "walk (pmem s) d (va i)")
    case None
    let ?k = "512 * (i div 512 + 1)"
    have ik: "i < ?k" "?k \<le> 2 ^ 20" using prem(4,5) by (auto simp: less_mult_imp_div_less) 
    have "\<not> mapped (pmem s) d l" if "i \<le> l" "l < min ?k j" for l
      using table_missing [OF None that(1)] that prem(4,5) by (auto simp: mapped_def)
    then have "unmapped s d F i (min ?k j) s F" by (intro unmapped_none prem) auto
    moreover have "unmap_loop pd (va i) (va j) s = (if ?k < j then unmap_loop pd (va ?k) (va j) s else Some (Inr s))"
      using get None ik prem(4,5) va_less [of ?k j] va_zero [of ?k] va_next_table [of i]
      by (subst unmap_loop.simps) simp
    ultimately show ?thesis using that [of ?k] ik by blast
  next
    case (Some gk)
    obtain g q where gq: "gk = (g, q)" by fastforce
    obtain s1 F1 where o: "(if rd s (g, q) \<noteq> 0 then page_remove_pte pd (va i) (g, q) s else Inr s) = Inr s1" "unmapped s d F i (Suc i) s1 F1"
      using unmap_one [OF prem(2,3,4,5,6)] Some gq by blast
    have "unmap_loop pd (va i) (va j) s = (if Suc i < j then unmap_loop pd (va (Suc i)) (va j) s1 else Some (Inr s1))"
      using get Some gq o(1) prem(4,5) va_less [of "Suc i" j] va_zero [of "Suc i"] va_Suc [of i]
      by (subst unmap_loop.simps) simp
    then show ?thesis using that [of "Suc i"] o(2) prem(4,5) by (auto simp: min_def)
  qed
  show ?case
  proof (cases "k < j")
    case False
    then have "min k j = j" by simp
    with False st un show ?thesis by auto
  next
    case True
    then have u: "unmapped s d F i k s1 F1" using un by (simp add: min_def)
    note u' = u [unfolded unmapped_def]
    have "kva_frame s1 pd = Inr d" using prem(1) arg_cong [OF u' [THEN conjunct1], of npage] by (simp add: kva_frame_def)
    moreover have "minv s1 F1" "pt_wf (npage s1) (pmem s1) d F1" using u' by blast+
    moreover have "j - k < j - i" "releasable s1 d F1 k j" using k True releasable_rest(1) [OF prem(6) u] prem(5) by auto
    ultimately obtain s' F' where s': "unmap_loop pd (va k) (va j) s1 = Some (Inr s')" "unmapped s1 d F1 k j s' F'"
      using less.hyps [of k s1 F1] True prem(5) by blast
    have "unmapped s d F i j s' F'"
      using unmapped_trans [OF u s'(2)] releasable_rest(2) [OF prem(6) u] k True prem(5) by simp
    with st True s'(1) show ?thesis by auto
  qed
qed


lemma va_mod: "i \<le> 2 ^ 20 \<Longrightarrow> va i mod PGSIZE = 0"
  by (simp add: word_unat_eq_iff unat_mod va_unat PGSIZE_def)

lemma range_asserts_ok: "512 \<le> i \<Longrightarrow> i < j \<Longrightarrow> j \<le> 2 ^ 19 \<Longrightarrow> range_asserts (va i) (va j) = Inr ()"
  using va_mod [of i] va_mod [of j] va_less [of i j]
  by (simp add: range_asserts_def assertR_def USER_ACCESS_def USERBASE_def USERTOP_def word_le_nat_alt va_unat)

lemma va_range: "i \<le> 2 ^ 20 \<Longrightarrow> j \<le> 2 ^ 20 \<Longrightarrow> va i \<le> la \<and> la < va j \<longleftrightarrow> i \<le> unat la div 4096 \<and> unat la div 4096 < j"
  by (auto simp: word_le_nat_alt word_less_nat_alt va_unat less_eq_div_iff_mult_less_eq div_less_iff_less_mult mult.commute)

section \<open>Copying a range\<close>

lemma bindR_right: "bindR r Inr = r"
  by (cases r) simp_all

lemma page_frame_id: "minv s F \<Longrightarrow> p + nbase < npage s \<Longrightarrow> bindR (page2kva s p) (kva_frame s) = Inr (p + nbase)"
  using page_frame [of s F p Inr] by (simp add: bindR_right)

text \<open>What copying the pages \<open>i\<close> to \<open>j\<close> from the tables of \<open>d\<close> to those of \<open>e\<close> does; \<open>h\<close> gives the new page of a page number.\<close>

abbreviation frames :: "nat set \<Rightarrow> nat set" where "frames F \<equiv> (\<lambda>i. i + nbase) ` F"

definition page_copy :: "mstate \<Rightarrow> nat \<Rightarrow> nat \<Rightarrow> mstate \<Rightarrow> nat \<Rightarrow> nat \<Rightarrow> bool" where
  "page_copy s d e s' k p \<longleftrightarrow> lf (pmem s') e k = new_pte p (lf (pmem s) d k AND PTE_USER) \<and>
     pmem s' (p + nbase) = pmem s (tbl (lf (pmem s) d k)) \<and> p + nbase \<notin> tables (pmem s') e"

definition copied :: "mstate \<Rightarrow> nat \<Rightarrow> nat \<Rightarrow> nat set \<Rightarrow> nat \<Rightarrow> nat \<Rightarrow> mstate \<Rightarrow> nat set \<Rightarrow> (nat \<Rightarrow> nat) \<Rightarrow> bool" where
  "copied s d e F i j s' F' h \<longleftrightarrow>
     s' = s\<lparr>fa := fa s', pmem := pmem s'\<rparr> \<and> F' \<subseteq> F \<and> card F \<le> card F' + 3 * (j - i) \<and> minv s' F' \<and>
     pt_wf (npage s') (pmem s') e F' \<and> tables (pmem s') e \<subseteq> tables (pmem s) e \<union> frames (F - F') \<and>
     (\<forall>g. g \<notin> frames F \<longrightarrow> g \<notin> tables (pmem s) e \<longrightarrow> pmem s' g = pmem s g) \<and>
     (\<forall>k\<in>{k \<in> {i..<j}. mapped (pmem s) d k}. h k \<in> F - F' \<and> page_copy s d e s' k (h k)) \<and>
     inj_on h {k \<in> {i..<j}. mapped (pmem s) d k} \<and>
     (\<forall>k<2 ^ 19. \<not> (i \<le> k \<and> k < j \<and> mapped (pmem s) d k) \<longrightarrow> lf (pmem s') e k = lf (pmem s) e k)"

text \<open>The two address spaces: tables apart, source pages in use and no tables of the target, the target range empty.\<close>

definition copyable :: "mstate \<Rightarrow> nat \<Rightarrow> nat \<Rightarrow> nat set \<Rightarrow> nat \<Rightarrow> nat \<Rightarrow> bool" where
  "copyable s d e F i j \<longleftrightarrow> pt_wf (npage s) (pmem s) d F \<and> pt_wf (npage s) (pmem s) e F \<and>
     tables (pmem s) d \<inter> tables (pmem s) e = {} \<and>
     (\<forall>k\<in>{i..<j}. \<not> mapped (pmem s) e k) \<and>
     (\<forall>k\<in>{i..<j}. mapped (pmem s) d k \<longrightarrow> nbase \<le> tbl (lf (pmem s) d k) \<and> tbl (lf (pmem s) d k) < npage s \<and>
        tbl (lf (pmem s) d k) - nbase \<notin> F \<and> tbl (lf (pmem s) d k) \<notin> tables (pmem s) e)"

text \<open>The source is not touched.\<close>

lemma tables_frames: "pt_wf np m d F \<Longrightarrow> g \<in> tables m d \<Longrightarrow> g \<notin> frames F"
  using pt_wf_tables [of g m d np F] by (auto simp: table_frame_def)

lemma node_same:
  assumes "\<forall>g\<in>tables m d. m' g = m g"
  shows "q \<in> tpaths \<Longrightarrow> node m' d q = node m d q"
proof (induction q)
  case (Cons i q)
  then have q: "q \<in> tpaths" by (blast intro: tpaths_tl)
  show ?case
  proof (cases "node m d q")
    case (Some f)
    then have "f \<in> tables m d" using q by (auto simp: tables_def)
    then show ?thesis using Cons.IH [OF q] Some assms by simp
  qed (use Cons.IH [OF q] in simp)
qed simp

lemma source_same:
  assumes c: "copyable s d e F i j" and f: "\<forall>g. g \<notin> frames F \<longrightarrow> g \<notin> tables (pmem s) e \<longrightarrow> pmem s' g = pmem s g"
  shows "tables (pmem s') d = tables (pmem s) d" and "F' \<subseteq> F \<Longrightarrow> pt_wf (npage s) (pmem s') d F'"
    and "la < USERTOP \<Longrightarrow> walk (pmem s') d la = walk (pmem s) d la" and "la < USERTOP \<Longrightarrow> leaf (pmem s') d la = leaf (pmem s) d la"
proof -
  have wf: "pt_wf (npage s) (pmem s) d F" and dj: "tables (pmem s) d \<inter> tables (pmem s) e = {}" using c by (auto simp: copyable_def)
  have same: "\<forall>g\<in>tables (pmem s) d. pmem s' g = pmem s g" using f tables_frames [OF wf] dj by blast
  note n = node_same [OF same]
  show "tables (pmem s') d = tables (pmem s) d" using n by (auto simp: tables_def)
  show "F' \<subseteq> F \<Longrightarrow> pt_wf (npage s) (pmem s') d F'"
    using pt_wf_cong [of "pmem s'" d "pmem s" "npage s" F'] n pt_wf_mono [OF wf] by blast
  show w: "la < USERTOP \<Longrightarrow> walk (pmem s') d la = walk (pmem s) d la" for la using n upath_user by (simp add: walk_def)
  show "la < USERTOP \<Longrightarrow> leaf (pmem s') d la = leaf (pmem s) d la"
    using w [of la] walk_table [of "pmem s" d la] same by (auto simp: leaf_def split: option.splits)
qed

lemma copied_none:
  assumes "minv s F" and "pt_wf (npage s) (pmem s) e F" and "\<forall>k. i \<le> k \<and> k < j \<longrightarrow> \<not> mapped (pmem s) d k"
  shows "copied s d e F i j s F h"
proof -
  have "{k \<in> {i..<j}. mapped (pmem s) d k} = {}" using assms(3) by auto
  then show ?thesis using assms(1,2) unfolding copied_def by (simp only: inj_on_empty) auto
qed

text \<open>A frame that is no table of the target is written, then mapped there.\<close>

lemma copy_insert_ok:
  assumes to: "kva_frame s to = Inr e" and ext: "pt_ext e s F s1 F1" and w: "walk (pmem s1) e (va i) \<noteq> None" and i: "i < 2 ^ 19"
    and nm: "\<not> bit (lf (pmem s) e i) 0" and p: "p \<in> F1" "minv (s1\<lparr>fa := f\<rparr>) (F1 - {p})"
    and src: "x \<notin> frames F" "x \<notin> tables (pmem s) e" and v: "x = tbl (lf (pmem s) d i)" "perm = lf (pmem s) d i AND PTE_USER"
    and mp: "mapped (pmem s) d i" and cd: "card F \<le> card F1 + 2"
  shows "\<exists>s'. page_insert to p (va i) perm (copy_frame (p + nbase) x (s1\<lparr>fa := f\<rparr>)) = Inr (s', 0) \<and>
    copied s d e F i (Suc i) s' (F1 - {p}) (\<lambda>_. p)"
proof -
  note x1 = pt_extD [OF ext] and np1 = pt_ext_npage [OF ext]
  let ?G = "F1 - {p}" and ?s3 = "copy_frame (p + nbase) x (s1\<lparr>fa := f\<rparr>)"
  have la: "va i < USERTOP" by (rule va_user [OF i])
  have pt: "p + nbase \<notin> tables (pmem s1) e" using tables_frames [OF x1(4)] p(1) by blast
  have pm: "pmem ?s3 = (pmem s1)(p + nbase := pmem s x)" using x1(8) src by (simp add: copy_frame_def)
  have np: "npage ?s3 = npage s" "minv ?s3 ?G" using np1 p(2) by (simp_all add: copy_frame_def minv_def)
  note nd = node_other_frame [OF pt]
  have wf3: "pt_wf (npage ?s3) (pmem ?s3) e ?G" and tb3: "tables (pmem ?s3) e = tables (pmem s1) e"
    using pt_wf_cong [of "pmem ?s3" e "pmem s1" "npage s" ?G] nd pt_wf_mono [OF x1(4), of ?G] unfolding np pm by (auto simp: tables_def)
  have lf3: "lf (pmem ?s3) e k = lf (pmem s) e k" if "k < 2 ^ 19" for k
    using leaf_other_frame [OF pt va_user [OF that]] x1(5) [OF upath_user [OF va_user [OF that]]] by (simp add: pm)
  have "kva_frame ?s3 to = Inr e" using to np(1) by (simp add: kva_frame_def)
  moreover have "walk (pmem ?s3) e (va i) \<noteq> None" using w nd [OF upath_user [OF la]] by (simp add: walk_def pm)
  ultimately obtain s4 where s4: "page_insert to p (va i) perm ?s3 = Inr (s4, 0)" "minv s4 ?G" "pt_wf (npage s4) (pmem s4) e ?G"
    "maps_page ?s3 s4 e (va i) p perm" "s4 = ?s3\<lparr>fa := fa s4, pmem := pmem s4\<rparr>" "tables (pmem s4) e \<subseteq> tables (pmem ?s3) e"
    "\<forall>g. g \<notin> frames ?G \<longrightarrow> g \<notin> tables (pmem ?s3) e \<longrightarrow> pmem s4 g = pmem ?s3 g"
    using page_insert_empty [OF _ np(2) wf3 la, of to p perm] nm lf3 [OF i] by fastforce
  have "s1\<lparr>fa := a, pmem := m\<rparr> = s\<lparr>fa := a, pmem := m\<rparr>" for a m by (subst x1(1)) simp
  then have st: "s4 = s\<lparr>fa := fa s4, pmem := pmem s4\<rparr>" by (subst s4(5)) (simp add: copy_frame_def)
  have lf4: "lf (pmem s4) e k = (if k = i then new_pte p perm else lf (pmem s) e k)" if "k < 2 ^ 19" for k
    using s4(4) va_user [OF that] lf3 [OF that] va_PPN_eq [of k i] that i unfolding maps_page_def by simp
  have pG: "p + nbase \<notin> frames ?G" "p + nbase \<notin> tables (pmem s4) e" using s4(6) pt unfolding tb3 by auto
  have pc: "page_copy s d e s4 i p"
    unfolding page_copy_def using lf4 [OF i] s4(7) pG pt unfolding tb3 by (simp add: v [symmetric] pm)
  have tb: "tables (pmem s4) e \<subseteq> tables (pmem s) e \<union> frames (F - ?G)" using s4(6) x1(7) unfolding tb3 by blast
  have frm: "pmem s4 g = pmem s g" if "g \<notin> frames F" "g \<notin> tables (pmem s) e" for g
  proof -
    have "g \<notin> frames ?G" "g \<notin> tables (pmem s1) e" "g \<noteq> p + nbase" using that x1(2,7) p(1) by blast+
    then show ?thesis using s4(7) x1(8) [OF that] unfolding tb3 by (simp add: pm)
  qed
  have "card F1 = card ?G + 1" using card_Suc_Diff1 [OF minv_finite [OF x1(3)] p(1)] by simp
  then have "card F \<le> card ?G + 3 * (Suc i - i)" using cd by simp
  moreover have "{k \<in> {i..<Suc i}. mapped (pmem s) d k} = {i}" using mp by auto
  ultimately have "copied s d e F i (Suc i) s4 ?G (\<lambda>_. p)"
    unfolding copied_def using st x1(2) s4(2,3) tb frm pc p(1) lf4 mp by auto
  with s4(1) show ?thesis by blast
qed

lemma copy_one_ok:
  assumes fr: "kva_frame s from = Inr d" "kva_frame s to = Inr e" and inv: "minv s F" and c: "copyable s d e F i j"
    and i: "i < j" "j \<le> 2 ^ 19" and mp: "mapped (pmem s) d i" and mem: "3 \<le> card F"
  shows "\<exists>s' F' h. copy_one to from (va i) s = Inr (s', Some (va (Suc i))) \<and> copied s d e F i (Suc i) s' F' h"
proof -
  have la: "va i < USERTOP" using i by (intro va_user) simp
  have wfd: "pt_wf (npage s) (pmem s) d F" and wfe: "pt_wf (npage s) (pmem s) e F"
    and nme: "\<not> bit (lf (pmem s) e i) 0" using c i by (auto simp: copyable_def mapped_def)
  let ?v = "lf (pmem s) d i" and ?perm = "lf (pmem s) d i AND PTE_USER"
  have v: "bit ?v 0" "nbase \<le> tbl ?v" "tbl ?v < npage s" "tbl ?v - nbase \<notin> F" "tbl ?v \<notin> tables (pmem s) e"
    using c i mp by (auto simp: copyable_def mapped_def)
  obtain g q where w: "walk (pmem s) d (va i) = Some (g, q)" "pmem s g q = ?v" using leaf_valid_walk [OF v(1)] by blast
  have get: "get_pte from (va i) False s = Inr (s, Some (g, q))"
    using get_pte_find [OF fr(1) wfd upath_user [OF la], of False] w(1) by (simp add: get_pte_def)
  obtain s1 F1 r where 1: "get_pte to (va i) True s = Inr (s1, r)" "pt_ext e s F s1 F1" "card F \<le> card F1 + 2"
    "case r of None \<Rightarrow> card F < 2 | Some p \<Rightarrow> walk (pmem s1) e (va i) = Some p"
    using get_pte_create [OF fr(2) inv wfe upath_user [OF la]] mem by auto
  then obtain gp where gp: "r = Some gp" "walk (pmem s1) e (va i) = Some gp" using mem by (cases r) auto
  note x1 = pt_extD [OF 1(2)] and np1 = pt_ext_npage [OF 1(2)]
  have "g \<in> tables (pmem s) d" by (rule walk_table [OF w(1) la])
  then have "pmem s1 g = pmem s g" using x1(8) tables_frames [OF wfd] c by (auto simp: copyable_def)
  then have rd: "rd s1 (g, q) = ?v" "rd s (g, q) = ?v" using w(2) by (simp_all add: rd_def)
  have "F1 \<noteq> {}" using 1(3) mem by auto
  then obtain f p where a: "alloc_page s1 = Inr (s1\<lparr>fa := f\<rparr>, Some p)" "p \<in> F1" "minv (s1\<lparr>fa := f\<rparr>) (F1 - {p})"
    using alloc_page_some [OF x1(3)] by blast
  let ?s2 = "s1\<lparr>fa := f\<rparr>" and ?G = "F1 - {p}"
  let ?s3 = "copy_frame (p + nbase) (tbl ?v) ?s2"
  have pn: "p + nbase < npage s1" "p \<in> F" using minv_bound [OF x1(3) a(2)] a(2) x1(2) by auto
  have tv: "tbl ?v = tbl ?v - nbase + nbase" using v(2) by simp
  have pte: "pte2page s1 ?v = Inr (tbl ?v - nbase)" using v np1 by (intro pte2page_ok) auto
  have src: "bindR (page2kva ?s2 (tbl ?v - nbase)) (kva_frame ?s2) = Inr (tbl ?v)"
    using page_frame_id [OF a(3), of "tbl ?v - nbase"] v np1 tv by simp
  have dst: "bindR (page2kva ?s2 p) (kva_frame ?s2) = Inr (p + nbase)" using page_frame_id [OF a(3)] pn by simp
  have x: "tbl ?v \<notin> frames F" using v(2,4) by auto
  obtain s' where s': "page_insert to p (va i) ?perm ?s3 = Inr (s', 0)" "copied s d e F i (Suc i) s' ?G (\<lambda>_. p)"
    using copy_insert_ok [OF fr(2) 1(2) _ _ nme a(2,3) x v(5) refl refl mp 1(3)] gp(2) i by auto
  have "copy_one to from (va i) s = Inr (s', Some (va (Suc i)))"
    using get v(1) 1(1) gp(1) a(1) pte src dst s'(1) by (simp add: copy_one_def rd and_PTE_V va_Suc Let_def assertR_def)
  with s'(2) show ?thesis by blast
qed

text \<open>Copies of adjacent ranges.\<close>

lemma page_copy_later:
  assumes 1: "copied s d e F i k s1 F1 h" and 2: "copied s1 d e F1 k j s2 F2 h'" and l: "l \<in> {i..<k}" "mapped (pmem s) d l" and k: "k \<le> 2 ^ 19"
  shows "page_copy s d e s2 l (h l)"
proof -
  note c1 = 1 [unfolded copied_def] and c2 = 2 [unfolded copied_def]
  have p: "h l \<in> F - F1" "page_copy s d e s1 l (h l)" using c1 l by auto
  then have nt: "h l + nbase \<notin> frames F1" "h l + nbase \<notin> tables (pmem s1) e" by (auto simp: page_copy_def)
  moreover have "lf (pmem s2) e l = lf (pmem s1) e l" using c2 l k by auto
  moreover have "h l + nbase \<notin> tables (pmem s2) e" using nt c2 by blast
  ultimately show ?thesis using p(2) c2 by (auto simp: page_copy_def)
qed

lemma copied_trans:
  assumes cp: "copyable s d e F i j" and 1: "copied s d e F i k s1 F1 h" and 2: "copied s1 d e F1 k j s2 F2 h'"
    and ik: "i \<le> k" "k \<le> j" "j \<le> 2 ^ 19"
  shows "copied s d e F i j s2 F2 (\<lambda>l. if l < k then h l else h' l)"
proof -
  let ?h = "\<lambda>l. if l < k then h l else h' l" and ?K = "{l \<in> {i..<j}. mapped (pmem s) d l}"
  note c1 = 1 [unfolded copied_def] and c2 = 2 [unfolded copied_def]
  have lfd: "lf (pmem s1) d l = lf (pmem s) d l" if "l < 2 ^ 19" for l
    using source_same(4) [OF cp _ va_user [OF that]] c1 by blast
  have md: "mapped (pmem s1) d l = mapped (pmem s) d l" if "l < 2 ^ 19" for l using lfd [OF that] by (simp add: mapped_def)
  have new: "?h l \<in> F - F2 \<and> page_copy s d e s2 l (?h l)" if l: "l \<in> ?K" for l
  proof (cases "l < k")
    case True
    then have "h l \<in> F - F1" using c1 l by auto
    then show ?thesis using True page_copy_later [OF 1 2] l ik c2 by auto
  next
    case False
    then have l': "l \<in> {k..<j}" "l < 2 ^ 19" "mapped (pmem s1) d l" using l ik md [of l] by auto
    then have q: "h' l \<in> F1 - F2" "page_copy s1 d e s2 l (h' l)" using c2 by auto
    have src: "tbl (lf (pmem s) d l) \<notin> frames F" "tbl (lf (pmem s) d l) \<notin> tables (pmem s) e"
      using cp l by (auto simp: copyable_def)
    then have "pmem s1 (tbl (lf (pmem s) d l)) = pmem s (tbl (lf (pmem s) d l))" using c1 by blast
    then show ?thesis using q c1 False lfd [OF l'(2)] by (auto simp: page_copy_def)
  qed
  moreover have "inj_on ?h ?K"
  proof (rule inj_onI)
    fix x y assume xy: "x \<in> ?K" "y \<in> ?K" and e: "?h x = ?h y"
    have side: "l < k \<longrightarrow> h l \<notin> F1" "\<not> l < k \<longrightarrow> h' l \<in> F1" if "l \<in> ?K" for l using that c1 c2 md [of l] ik by auto
    show "x = y"
    proof (cases "x < k")
      case True
      with e side [OF xy(1)] side [OF xy(2)] have "y < k" "h x = h y" by (auto split: if_splits)
      with True xy c1 show ?thesis by (auto dest: inj_onD)
    next
      case False
      with e side [OF xy(1)] side [OF xy(2)] have y: "\<not> y < k" "h' x = h' y" by (auto split: if_splits)
      have "inj_on h' {l \<in> {k..<j}. mapped (pmem s1) d l}" using c2 by blast
      with False y xy md [of x] md [of y] ik show ?thesis by (auto dest: inj_onD)
    qed
  qed
  moreover have "pmem s2 g = pmem s g" if "g \<notin> frames F" "g \<notin> tables (pmem s) e" for g
  proof -
    have "g \<notin> frames F1" "g \<notin> tables (pmem s1) e" using that c1 by blast+
    then show ?thesis using that c1 c2 by simp
  qed
  moreover have "tables (pmem s2) e \<subseteq> tables (pmem s) e \<union> frames (F - F2)" "F2 \<subseteq> F"
  proof -
    have t: "tables (pmem s1) e \<subseteq> tables (pmem s) e \<union> frames (F - F1)" "tables (pmem s2) e \<subseteq> tables (pmem s1) e \<union> frames (F1 - F2)"
      "F1 \<subseteq> F" "F2 \<subseteq> F1" using c1 c2 by simp_all
    then show "tables (pmem s2) e \<subseteq> tables (pmem s) e \<union> frames (F - F2)" by blast
    show "F2 \<subseteq> F" using t by blast
  qed
  moreover have "lf (pmem s2) e l = lf (pmem s) e l" if "l < 2 ^ 19" "\<not> (i \<le> l \<and> l < j \<and> mapped (pmem s) d l)" for l
    using c1 c2 md [OF that(1)] that ik by auto
  moreover have "s2 = s\<lparr>fa := fa s2, pmem := pmem s2\<rparr>" by (subst c2 [THEN conjunct1], subst c1 [THEN conjunct1]) simp
  moreover have "card F \<le> card F1 + 3 * (k - i)" "card F1 \<le> card F2 + 3 * (j - k)" using c1 c2 by blast+
  then have "card F \<le> card F2 + 3 * (j - i)" using ik by simp
  moreover have "minv s2 F2" "pt_wf (npage s2) (pmem s2) e F2" using c2 by blast+
  ultimately show ?thesis unfolding copied_def by blast
qed

lemma copyable_rest:
  assumes cp: "copyable s d e F i j" and co: "copied s d e F i k s1 F1 h" and ik: "i \<le> k" "k \<le> j" "j \<le> 2 ^ 19"
  shows "copyable s1 d e F1 k j"
proof -
  note c = co [unfolded copied_def]
  have fr: "\<forall>g. g \<notin> frames F \<longrightarrow> g \<notin> tables (pmem s) e \<longrightarrow> pmem s1 g = pmem s g" and sub: "F1 \<subseteq> F"
    and te: "tables (pmem s1) e \<subseteq> tables (pmem s) e \<union> frames (F - F1)" using c by simp_all
  note same = source_same [OF cp fr]
  have np: "npage s1 = npage s" using arg_cong [OF c [THEN conjunct1], of npage] by simp
  have wfd: "pt_wf (npage s) (pmem s) d F" and dj: "tables (pmem s) d \<inter> tables (pmem s) e = {}" using cp by (auto simp: copyable_def)
  have lfd: "lf (pmem s1) d l = lf (pmem s) d l" "mapped (pmem s1) d l = mapped (pmem s) d l" if "l \<in> {k..<j}" for l
    using same(4) [OF va_user] that ik by (auto simp: mapped_def)
  have "tables (pmem s1) d \<inter> tables (pmem s1) e = {}" using dj te tables_frames [OF wfd] unfolding same(1) by blast
  moreover have "\<not> mapped (pmem s1) e l" if "l \<in> {k..<j}" for l
  proof -
    have "lf (pmem s1) e l = lf (pmem s) e l" using c that ik by auto
    then show ?thesis using cp that ik by (auto simp: copyable_def mapped_def)
  qed
  moreover have "nbase \<le> tbl (lf (pmem s1) d l) \<and> tbl (lf (pmem s1) d l) < npage s1 \<and> tbl (lf (pmem s1) d l) - nbase \<notin> F1 \<and>
      tbl (lf (pmem s1) d l) \<notin> tables (pmem s1) e" if l: "l \<in> {k..<j}" "mapped (pmem s1) d l" for l
  proof -
    have v: "nbase \<le> tbl (lf (pmem s) d l)" "tbl (lf (pmem s) d l) < npage s" "tbl (lf (pmem s) d l) - nbase \<notin> F"
        "tbl (lf (pmem s) d l) \<notin> tables (pmem s) e"
      using cp l lfd [OF l(1)] ik by (auto simp: copyable_def)
    then have "tbl (lf (pmem s) d l) \<notin> frames F" by auto
    then show ?thesis using v sub te unfolding lfd(1) [OF l(1)] np by blast
  qed
  moreover have "pt_wf (npage s1) (pmem s1) d F1" "pt_wf (npage s1) (pmem s1) e F1" using same(2) [OF sub] np c by simp_all
  ultimately show ?thesis unfolding copyable_def by blast
qed

lemma copy_one_skip:
  assumes fr: "kva_frame s from = Inr d" and c: "copyable s d e F i j" and i: "i < j" "j \<le> 2 ^ 19" and n: "\<not> mapped (pmem s) d i"
  shows "copy_one to from (va i) s = Inr (s, Some (va (if walk (pmem s) d (va i) = None then 512 * (i div 512 + 1) else Suc i)))"
proof -
  have la: "va i < USERTOP" using i by (intro va_user) simp
  have "get_pte from (va i) False s = Inr (s, walk (pmem s) d (va i))"
    using get_pte_find [OF fr _ upath_user [OF la], of F False] c by (simp add: get_pte_def copyable_def)
  moreover have "\<not> bit (rd s gk) 0" if "walk (pmem s) d (va i) = Some gk" for gk
    using that n by (simp add: mapped_def leaf_def rd_def)
  ultimately show ?thesis using va_next_table [of i] i va_Suc [of i]
    by (auto simp: copy_one_def and_PTE_V split: option.splits)
qed

lemma copy_loop_ok:
  assumes "kva_frame s from = Inr d" and "kva_frame s to = Inr e" and "minv s F" and "i < j" and "j \<le> 2 ^ 19"
    and "copyable s d e F i j" and "3 * (j - i) \<le> card F"
  shows "\<exists>s' F' h. copy_loop to from (va i) (va j) s = Some (Inr (s', 0)) \<and> copied s d e F i j s' F' h"
  using assms
proof (induction "j - i" arbitrary: i s F rule: less_induct)
  case less
  note prem = less.prems
  have step: "\<exists>k s1 F1 h. i < k \<and> k \<le> 2 ^ 20 \<and> copy_one to from (va i) s = Inr (s1, Some (va k)) \<and> copied s d e F i (min k j) s1 F1 h"
  proof (cases "mapped (pmem s) d i")
    case True
    then obtain s1 F1 h where "copy_one to from (va i) s = Inr (s1, Some (va (Suc i)))" "copied s d e F i (Suc i) s1 F1 h"
      using copy_one_ok [OF prem(1,2,3,6,4,5)] prem(4,7) by fastforce
    moreover have "min (Suc i) j = Suc i" using prem(4) by simp
    ultimately show ?thesis using prem(4,5) by (intro exI [of _ "Suc i"]) auto
  next
    case False
    let ?k = "if walk (pmem s) d (va i) = None then 512 * (i div 512 + 1) else Suc i"
    have k: "i < ?k" "?k \<le> 2 ^ 20" using prem(4,5) by (auto simp: less_mult_imp_div_less)
    have "\<not> mapped (pmem s) d l" if "i \<le> l" "l < min ?k j" for l
      using False table_missing [of "pmem s" d i l] that prem(4,5) by (auto simp: mapped_def le_less_Suc_eq split: if_splits)
    then have "copied s d e F i (min ?k j) s F id" using prem(3,6) by (intro copied_none) (auto simp: copyable_def)
    then show ?thesis using copy_one_skip [OF prem(1,6,4,5) False] k by blast
  qed
  then obtain k s1 F1 h where k: "i < k" "k \<le> 2 ^ 20" and one: "copy_one to from (va i) s = Inr (s1, Some (va k))"
    and co: "copied s d e F i (min k j) s1 F1 h" by blast
  have st: "copy_loop to from (va i) (va j) s = (if k < j then copy_loop to from (va k) (va j) s1 else Some (Inr (s1, 0)))"
    using one k prem(5) va_less [of k j] va_zero [of k] by (subst copy_loop.simps) simp
  show ?case
  proof (cases "k < j")
    case False
    then have "min k j = j" by simp
    with False st co show ?thesis by auto
  next
    case True
    then have c: "copied s d e F i k s1 F1 h" using co by (simp add: min_def)
    note c' = c [unfolded copied_def]
    have np: "npage s1 = npage s" using arg_cong [OF c' [THEN conjunct1], of npage] by simp
    have "kva_frame s1 from = Inr d" "kva_frame s1 to = Inr e" using prem(1,2) np by (simp_all add: kva_frame_def)
    moreover have "minv s1 F1" "card F \<le> card F1 + 3 * (k - i)" using c' by blast+
    moreover from this have "3 * (j - k) \<le> card F1" using prem(7) k True by simp
    moreover have "j - k < j - i" "copyable s1 d e F1 k j" using k True copyable_rest [OF prem(6) c] prem(5) by auto
    ultimately obtain s' F' h' where s': "copy_loop to from (va k) (va j) s1 = Some (Inr (s', 0))" "copied s1 d e F1 k j s' F' h'"
      using less.hyps [of k s1 F1] True prem(5) by blast
    have "copied s d e F i j s' F' (\<lambda>l. if l < k then h l else h' l)"
      using copied_trans [OF prem(6) c s'(2)] k True prem(5) by simp
    with st True s'(1) show ?thesis by auto
  qed
qed

section \<open>Properties of the range operations\<close>

text \<open>C15: \<open>unmap_range\<close> on a page aligned user range.  Under the conditions that every page mapped in the
  range is an allocated page and no page table, is mapped only once in the range, and, when the range holds
  its last reference, lies below some page that is free already (else \<open>default_free_pages\<close> breaks the free
  list), the call returns: exactly the valid entries of the range are cleared and every other entry is
  unchanged, each page mapped in the range has lost one reference, and the pages whose last reference it was,
  and no others, are free.\<close>

theorem unmap_range_correct:
  assumes "kva_frame s pd = Inr d" and "minv s F" and "pt_wf (npage s) (pmem s) d F"
    and "512 \<le> i" and "i < j" and "j \<le> 2 ^ 19"
    and pages: "\<forall>k\<in>{i..<j}. mapped (pmem s) d k \<longrightarrow>
      nbase \<le> tbl (lf (pmem s) d k) \<and> user_page s d F (pg_of (lf (pmem s) d k))"
    and below: "\<forall>k\<in>{i..<j}. mapped (pmem s) d k \<and> refs s (pg_of (lf (pmem s) d k)) = 1 \<longrightarrow>
      (\<exists>f\<in>F. pg_of (lf (pmem s) d k) < f)"
    and once: "inj_on (\<lambda>k. pg_of (lf (pmem s) d k)) {k \<in> {i..<j}. mapped (pmem s) d k}"
  shows "\<exists>s' F'. unmap_range pd (va i) (va j) s = Inr s' \<and> minv s' F' \<and> pt_wf (npage s') (pmem s') d F' \<and>
    F' = F \<union> {p \<in> range_pages s d i j. refs s p = 1} \<and>
    (\<forall>la. la < USERTOP \<longrightarrow> leaf (pmem s') d la =
       (if va i \<le> la \<and> la < va j \<and> bit (leaf (pmem s) d la) 0 then 0 else leaf (pmem s) d la)) \<and>
    (\<forall>p. refs s' p = (if p \<in> range_pages s d i j then refs s p - 1 else refs s p))"
proof -
  obtain s' F' where s': "unmap_loop pd (va i) (va j) s = Some (Inr s')" and u: "unmapped s d F i j s' F'"
    using unmap_loop_ok [OF assms(1-3,5,6)] pages below once unfolding releasable_def by blast
  note u' = u [unfolded unmapped_def]
  have "leaf (pmem s') d la = (if va i \<le> la \<and> la < va j \<and> bit (leaf (pmem s) d la) 0 then 0 else leaf (pmem s) d la)"
    if la: "la < USERTOP" for la
  proof -
    have "unat la div 4096 < 2 ^ 19" using user_va [OF la] by blast
    then show ?thesis using u' va_range [of i j la] assms(5,6) unfolding leaf_page [OF la] mapped_def by auto
  qed
  moreover have "unmap_range pd (va i) (va j) s = Inr s'" using s' range_asserts_ok assms(4-6) by (simp add: unmap_range_def)
  ultimately show ?thesis using u' by blast
qed

text \<open>C10: \<open>copy_range\<close>, the memory part of fork.  With three free pages for each page of a page aligned user range, the call
  returns 0.  The source keeps its translations and its contents; every page mapped in the range of the source is
  mapped at the same address of the target, with the user permission bits of the source entry, to a page of its own
  that was free and holds a copy of the words of the source page; every other entry of the target is unchanged.\<close>

theorem copy_range_correct:
  assumes "kva_frame s from = Inr d" and "kva_frame s to = Inr e" and "minv s F" and "copyable s d e F i j"
    and "512 \<le> i" and "i < j" and "j \<le> 2 ^ 19" and "3 * (j - i) \<le> card F" and "K = {k \<in> {i..<j}. mapped (pmem s) d k}"
  shows "\<exists>s' F' h. copy_range to from (va i) (va j) s = Inr (s', 0) \<and> F' \<subseteq> F \<and> minv s' F' \<and>
    (\<forall>la. la < USERTOP \<longrightarrow> leaf (pmem s') d la = leaf (pmem s) d la) \<and> inj_on h K \<and>
    (\<forall>k\<in>K. h k \<in> F - F' \<and> lf (pmem s') e k = new_pte (h k) (lf (pmem s) d k AND PTE_USER) \<and>
       pmem s' (h k + nbase) = pmem s (tbl (lf (pmem s) d k)) \<and>
       pmem s' (tbl (lf (pmem s) d k)) = pmem s (tbl (lf (pmem s) d k))) \<and>
    (\<forall>k<2 ^ 19. k \<notin> K \<longrightarrow> lf (pmem s') e k = lf (pmem s) e k)"
proof -
  obtain s' F' h where s': "copy_loop to from (va i) (va j) s = Some (Inr (s', 0))" and c: "copied s d e F i j s' F' h"
    using copy_loop_ok [OF assms(1-3,6,7,4,8)] by blast
  note c' = c [unfolded copied_def]
  have fr: "\<forall>g. g \<notin> frames F \<longrightarrow> g \<notin> tables (pmem s) e \<longrightarrow> pmem s' g = pmem s g" using c' by blast
  have "pmem s' (tbl (lf (pmem s) d k)) = pmem s (tbl (lf (pmem s) d k))" if "k \<in> K" for k
  proof -
    have "nbase \<le> tbl (lf (pmem s) d k)" "tbl (lf (pmem s) d k) - nbase \<notin> F" "tbl (lf (pmem s) d k) \<notin> tables (pmem s) e"
      using assms(4) that unfolding assms(9) copyable_def by auto
    moreover from this have "tbl (lf (pmem s) d k) \<notin> frames F" by auto
    ultimately show ?thesis using fr by blast
  qed
  moreover have "copy_range to from (va i) (va j) s = Inr (s', 0)" using s' range_asserts_ok assms(5-7) by (simp add: copy_range_def)
  moreover have "\<forall>k\<in>K. h k \<in> F - F' \<and> page_copy s d e s' k (h k)" "inj_on h K" "F' \<subseteq> F" "minv s' F'"
    "\<forall>k<2 ^ 19. k \<notin> K \<longrightarrow> lf (pmem s') e k = lf (pmem s) e k" using c' unfolding assms(9) by auto
  moreover have "\<forall>la. la < USERTOP \<longrightarrow> leaf (pmem s') d la = leaf (pmem s) d la" using source_same(4) [OF assms(4) fr] by blast
  ultimately show ?thesis unfolding page_copy_def by blast
qed

lemma node_zero_root: "m e = (\<lambda>_. 0) \<Longrightarrow> node m e q = (if q = [] then Some e else None)"
  by (induction q) (auto split: option.splits)

text \<open>
  The small memory with one page mapped at \<open>USERBASE\<close> under the root in frame \<open>nbase\<close>, an empty root in the next frame
  and three free pages.
\<close>

lemma mem8_two_spaces:
  "\<exists>s F. kva_frame s mem8_root = Inr nbase \<and> kva_frame s (mem8_root + 4096) = Inr (Suc nbase) \<and> minv s F \<and> 3 \<le> card F \<and>
     pt_wf (npage s) (pmem s) nbase F \<and> lf (pmem s) nbase 512 = new_pte 2 (PTE_U OR PTE_V) \<and>
     releasable s nbase F 512 513 \<and> copyable s nbase (Suc nbase) F 512 513"
proof -
  let ?pte = "new_pte 2 (PTE_U OR PTE_V)"
  obtain f where f: "minv (mem8_state f) {3..<8}" "pt_wf (nbase + 8) (\<lambda>_ _. 0) nbase {3..<8}" "\<forall>i<8. page_owned f i"
    using mem8_ok by blast
  have wf: "pt_wf (npage (mem8_state f)) (pmem (mem8_state f)) nbase {3..<8}" using f by (simp add: mem8_fields)
  have la: "va 512 < USERTOP" by (rule va_user) simp
  have "\<not> bit (leaf (pmem (mem8_state f)) nbase (va 512)) 0" by (simp add: mem8_fields mem8_leaf)
  from page_insert_empty [OF mem8_root_frame f(1) wf la _ _ this, of 2 "PTE_U OR PTE_V"]
  obtain s F where s: "F \<subseteq> {3..<8}" "5 \<le> card F + 2" "minv s F" "pt_wf (npage s) (pmem s) nbase F"
    "maps_page (mem8_state f) s nbase (va 512) 2 (PTE_U OR PTE_V)" "s = (mem8_state f)\<lparr>fa := fa s, pmem := pmem s\<rparr>"
    "\<forall>i. page_owned (fa s) i = page_owned f i" "tables (pmem s) nbase \<subseteq> tables (\<lambda>_ _. 0) nbase \<union> frames ({3..<8} - F)"
    "\<forall>g. g \<notin> frames {3..<8} \<longrightarrow> g \<notin> tables (\<lambda>_ _. 0) nbase \<longrightarrow> pmem s g = (\<lambda>_. 0)"
    by (auto simp: mem8_fields)
  have t0: "tables (\<lambda>_ _. 0) nbase = {nbase}" by (auto simp: tables_def node_zero tpaths_def)
  have np: "npage s = nbase + 8" using arg_cong [OF s(6), of npage] by (simp add: mem8_fields)
  have lf: "lf (pmem s) nbase 512 = ?pte" using s(5) la by (simp add: maps_page_def)
  have n: "bit ?pte 0" "tbl ?pte = 2 + nbase" by (rule new_pte_laws; simp add: perm_UV_high nbase_def)+
  have "F \<noteq> {}" using s(2) by auto
  then have ex: "\<exists>x\<in>F. 2 < x" using s(1) by fastforce
  have one: "{512..<513} = {512 :: nat}" by auto
  have td: "Suc nbase \<notin> tables (pmem s) nbase" "2 + nbase \<notin> tables (pmem s) nbase" using s(8) unfolding t0 by auto
  have "user_page s nbase F 2" using s(1,7) f(3) np td(2) by (auto simp: user_page_def)
  then have "releasable s nbase F 512 513"
    unfolding releasable_def one using lf n ex by (auto simp: mapped_def inj_on_def)
  moreover have ze: "node (pmem s) (Suc nbase) q = (if q = [] then Some (Suc nbase) else None)" for q
    using s(9) unfolding t0 by (intro node_zero_root) auto
  have te: "tables (pmem s) (Suc nbase) = {Suc nbase}" by (auto simp: tables_def ze tpaths_def simp del: node.simps)
  have "pt_wf (npage s) (pmem s) (Suc nbase) F" using s(1) np by (auto simp: pt_wf_def ze table_frame_def simp del: node.simps)
  then have "copyable s nbase (Suc nbase) F 512 513"
    unfolding copyable_def one te using s(1,4) lf n td np
    by (auto simp: mapped_def leaf_def [of _ "Suc nbase"] walk_def ze upath_def simp del: node.simps)
  moreover have "kva_frame s mem8_root = Inr nbase" "kva_frame s (mem8_root + 4096) = Inr (Suc nbase)"
    using np by (simp_all add: kva_frame_def mem8_root_def PPN_def PTXSHIFT_def nbase_def)
  ultimately show ?thesis using s(2-4) lf by (intro exI [of _ s] exI [of _ F]) auto
qed

theorem unmap_range_correct_witness:
  "\<exists>s s'. bit (leaf (pmem s) nbase 0x200000) 0 \<and> unmap_range mem8_root 0x200000 0x201000 s = Inr s' \<and>
     leaf (pmem s') nbase 0x200000 = 0"
proof -
  obtain s F where s: "kva_frame s mem8_root = Inr nbase" "minv s F" "pt_wf (npage s) (pmem s) nbase F"
    "lf (pmem s) nbase 512 = new_pte 2 (PTE_U OR PTE_V)" "releasable s nbase F 512 513"
    using mem8_two_spaces by blast
  have v: "va 512 = 0x200000" "va 513 = 0x201000" by (simp_all add: va_def)
  have b: "bit (new_pte 2 (PTE_U OR PTE_V)) 0" by (rule new_pte_laws; simp add: perm_UV_high nbase_def)
  from unmap_range_correct [OF s(1-3), of 512 513] s(5) [unfolded releasable_def] obtain s' where "unmap_range mem8_root 0x200000 0x201000 s = Inr s'"
    "\<forall>la. la < USERTOP \<longrightarrow> leaf (pmem s') nbase la =
       (if 0x200000 \<le> la \<and> la < 0x201000 \<and> bit (leaf (pmem s) nbase la) 0 then 0 else leaf (pmem s) nbase la)"
    unfolding v by auto
  then show ?thesis using s(4) b mem8_user unfolding v by (intro exI [of _ s] exI [of _ s']) simp
qed

theorem copy_range_correct_witness:
  "\<exists>s s' p. copy_range (mem8_root + 4096) mem8_root 0x200000 0x201000 s = Inr (s', 0) \<and>
     bit (leaf (pmem s') (Suc nbase) 0x200000) 0 \<and> pmem s' (p + nbase) = pmem s (nbase + 2) \<and> p \<noteq> 2"
proof -
  obtain s F where s: "kva_frame s mem8_root = Inr nbase" "kva_frame s (mem8_root + 4096) = Inr (Suc nbase)" "minv s F" "3 \<le> card F"
    "lf (pmem s) nbase 512 = new_pte 2 (PTE_U OR PTE_V)" "copyable s nbase (Suc nbase) F 512 513"
    using mem8_two_spaces by blast
  have v: "va 512 = 0x200000" "va 513 = 0x201000" by (simp_all add: va_def)
  have n: "bit (new_pte 2 (PTE_U OR PTE_V)) 0" "tbl (new_pte 2 (PTE_U OR PTE_V)) = 2 + nbase"
    by (rule new_pte_laws; simp add: perm_UV_high nbase_def)+
  have K: "{k \<in> {512..<513}. mapped (pmem s) nbase k} = {512}" using s(5) n(1) by (auto simp: mapped_def)
  have "2 \<notin> F" using s(5,6) n K by (auto simp: copyable_def)
  from copy_range_correct [OF s(1-3,6) _ _ _ _ refl] s(4) obtain s' h where
    "copy_range (mem8_root + 4096) mem8_root (va 512) (va 513) s = Inr (s', 0)"
    "h (512 :: nat) \<in> F" "lf (pmem s') (Suc nbase) 512 = new_pte (h 512) (new_pte 2 (PTE_U OR PTE_V) AND PTE_USER)"
    "pmem s' (h 512 + nbase) = pmem s (2 + nbase)"
    unfolding K by (auto simp: s(5) n(2))
  moreover have "bit (new_pte p perm) 0" for p perm by (simp add: new_pte_def pte_create_valid)
  ultimately show ?thesis using \<open>2 \<notin> F\<close> unfolding v
    by (intro exI [of _ s] exI [of _ s'] exI [of _ "h 512"]) (auto simp: add.commute)
qed

end
