(* ===== verification/Slob_Inv.thy ===== *)
theory Slob_Inv
  imports Slob
begin

text \<open>
  The heap of kern/mm/kmalloc.c as a set of free bytes.  The circular list starts at \<open>arena\<close>, a block of one
  unit that lies below every heap page and is never handed out nor merged; after it come the free
  blocks in the order of their addresses.
\<close>

section \<open>Circular chains\<close>

primrec chain :: "(addr \<Rightarrow> addr) \<Rightarrow> addr list \<Rightarrow> addr \<Rightarrow> bool" where
  "chain nxt [] e \<longleftrightarrow> True"
| "chain nxt (x # xs) e \<longleftrightarrow> nxt x = hd (xs @ [e]) \<and> chain nxt xs e"

lemma chain_append: "chain nxt (xs @ ys) e \<longleftrightarrow> chain nxt xs (hd (ys @ [e])) \<and> chain nxt ys e"
  by (induction xs) (auto simp: hd_append)

lemma chain_last: "chain nxt (x # xs) e \<Longrightarrow> nxt (last (x # xs)) = e"
  by (induction xs arbitrary: x) auto

lemma chain_upd: "x \<notin> set xs \<Longrightarrow> chain (nxt(x := v)) xs e = chain nxt xs e"
  by (induction xs) auto

section \<open>Blocks in address order\<close>

primrec apart :: "(addr \<Rightarrow> int) \<Rightarrow> nat \<Rightarrow> addr list \<Rightarrow> bool" where
  "apart U lo [] \<longleftrightarrow> True"
| "apart U lo (b # bs) \<longleftrightarrow> lo \<le> b \<and> 1 \<le> U b \<and> apart U (b + 16 * nat (U b)) bs"

definition block :: "(addr \<Rightarrow> int) \<Rightarrow> addr \<Rightarrow> addr set" where
  "block U b = {b..<b + 16 * nat (U b)}"

definition blocks :: "(addr \<Rightarrow> int) \<Rightarrow> addr list \<Rightarrow> addr set" where
  "blocks U bs = (\<Union>b\<in>set bs. block U b)"

lemma blocks_simps [simp]: "blocks U [] = {}" "blocks U (b # bs) = block U b \<union> blocks U bs"
  "blocks U (xs @ ys) = blocks U xs \<union> blocks U ys"
  by (auto simp: blocks_def)

lemma apart_lo: "apart U lo bs \<Longrightarrow> b \<in> set bs \<Longrightarrow> lo \<le> b \<and> 1 \<le> U b"
  by (induction bs arbitrary: lo) fastforce+

lemma apart_mono: "apart U lo bs \<Longrightarrow> lo' \<le> lo \<Longrightarrow> apart U lo' bs"
  by (cases bs) auto

lemma apart_cong: "(\<And>b. b \<in> set bs \<Longrightarrow> U' b = U b) \<Longrightarrow> apart U' lo bs = apart U lo bs"
  by (induction bs arbitrary: lo) auto

lemma blocks_cong: "(\<And>b. b \<in> set bs \<Longrightarrow> U' b = U b) \<Longrightarrow> blocks U' bs = blocks U bs"
  by (simp add: blocks_def block_def)

text \<open>The end of the last block.\<close>

primrec top :: "(addr \<Rightarrow> int) \<Rightarrow> nat \<Rightarrow> addr list \<Rightarrow> nat" where
  "top U lo [] = lo"
| "top U lo (b # bs) = top U (b + 16 * nat (U b)) bs"

lemma apart_append: "apart U lo (xs @ ys) \<longleftrightarrow> apart U lo xs \<and> apart U (top U lo xs) ys"
  by (induction xs arbitrary: lo) auto

lemma top_append: "top U lo (xs @ ys) = top U (top U lo xs) ys"
  by (induction xs arbitrary: lo) auto

lemma top_cong: "(\<And>b. b \<in> set bs \<Longrightarrow> U' b = U b) \<Longrightarrow> top U' lo bs = top U lo bs"
  by (induction bs arbitrary: lo) auto

lemma top_ge: "apart U lo bs \<Longrightarrow> lo \<le> top U lo bs \<and> (\<forall>x\<in>blocks U bs. lo \<le> x \<and> x < top U lo bs)"
proof (induction bs arbitrary: lo)
  case (Cons b bs)
  from Cons.IH [of "b + 16 * nat (U b)"] Cons.prems show ?case by (fastforce simp: block_def)
qed simp

lemma top_snoc: "top U lo (xs @ [b]) = b + 16 * nat (U b)"
  by (simp add: top_append)

lemma apart_distinct: "apart U lo bs \<Longrightarrow> distinct bs"
proof (induction bs arbitrary: lo)
  case (Cons b bs)
  then show ?case using apart_lo [of U "b + 16 * nat (U b)" bs b] by auto
qed simp

lemma apart_mem: "apart U lo bs \<Longrightarrow> b \<in> set bs \<Longrightarrow> b \<in> blocks U bs"
  using apart_lo [of U lo bs b] by (force simp: blocks_def block_def)

text \<open>An address outside the blocks splits the list.\<close>

lemma apart_split:
  assumes "apart U lo bs" and "lo \<le> x" and "x \<notin> blocks U bs"
  shows "\<exists>us vs. bs = us @ vs \<and> top U lo us \<le> x \<and> (\<forall>u\<in>set us. u < x) \<and> (\<forall>v\<in>set vs. x < v)"
  using assms
proof (induction bs arbitrary: lo)
  case (Cons b bs)
  show ?case
  proof (cases "x < b")
    case True
    then have "\<forall>v\<in>set (b # bs). x < v" using Cons.prems(1) apart_lo [of U "b + 16 * nat (U b)" bs] by fastforce
    then show ?thesis using Cons.prems(2) by (intro exI [of _ "[]"] exI [of _ "b # bs"]) simp
  next
    case False
    then have x: "b + 16 * nat (U b) \<le> x" "x \<notin> blocks U bs" using Cons.prems(3) by (auto simp: block_def)
    with Cons.IH [of "b + 16 * nat (U b)"] Cons.prems(1) obtain us vs where "bs = us @ vs" "top U (b + 16 * nat (U b)) us \<le> x"
      "\<forall>u\<in>set us. u < x" "\<forall>v\<in>set vs. x < v" by auto
    moreover have "b < x" using x(1) Cons.prems(1) by (cases "nat (U b)") auto
    ultimately show ?thesis by (intro exI [of _ "b # us"] exI [of _ vs]) simp
  qed
qed simp


section \<open>The heap as a list of blocks\<close>

definition heap :: "addr \<Rightarrow> slob_state \<Rightarrow> addr list \<Rightarrow> bool" where
  "heap a h bs \<longleftrightarrow> chain (snext h) (a # bs) a \<and> units h a = 1 \<and> apart (units h) (a + 17) bs"

lemma chain_map: "chain nxt (x # xs) e \<longleftrightarrow> map nxt (x # xs) = xs @ [e]"
  by (induction xs arbitrary: x) auto

lemma heap_distinct: "heap a h bs \<Longrightarrow> distinct (a # bs)"
  using apart_distinct apart_lo by (fastforce simp: heap_def)

lemma heap_above: "heap a h bs \<Longrightarrow> b \<in> set bs \<Longrightarrow> a + 17 \<le> b \<and> 1 \<le> units h b"
  using apart_lo [of "units h" "a + 17" bs b] by (simp add: heap_def)

lemma chain_redirect:
  "chain nxt xs e \<Longrightarrow> distinct xs \<Longrightarrow> xs \<noteq> [] \<Longrightarrow> chain (nxt(last xs := v)) xs v"
proof (induction xs)
  case (Cons x ys)
  show ?case
  proof (cases "ys = []")
    case False
    have "chain (nxt(last ys := v)) ys v" using Cons.prems False by (intro Cons.IH) simp_all
    moreover have "last ys \<noteq> x" using Cons.prems(2) False last_in_set [of ys] by auto
    moreover note False
    ultimately show ?thesis using Cons.prems(1) by (simp add: hd_append fun_upd_other del: fun_upd_apply)
  qed simp
qed simp

lemma heap_nextD:
  assumes "heap a h (us @ vs)"
  shows "snext h (last (a # us)) = hd (vs @ [a])"
proof -
  from assms have "chain (snext h) (a # us) (hd (vs @ [a]))"
    using chain_append [of "snext h" "a # us" vs a] by (simp add: heap_def)
  then show ?thesis by (rule chain_last)
qed

text \<open>The block before \<open>c\<close> is the only one whose \<open>next\<close> field points to \<open>c\<close>.\<close>

lemma heap_pred:
  assumes "heap a h (us @ c # vs)" and "p \<in> set (a # us @ c # vs)" and "snext h p = c"
  shows "p = last (a # us)"
proof -
  have "map (snext h) (a # us @ c # vs) = (us @ c # vs) @ [a]"
    using assms(1) by (simp only: heap_def chain_map)
  moreover have "distinct ((us @ c # vs) @ [a])" using heap_distinct [OF assms(1)] by auto
  ultimately have "inj_on (snext h) (set (a # us @ c # vs))" by (metis distinct_map)
  moreover have "snext h (last (a # us)) = c" using heap_nextD [OF assms(1)] by simp
  moreover have "last (a # us) \<in> set (a # us @ c # vs)" using last_in_set [of "a # us"] by auto
  ultimately show ?thesis using assms(2,3) by (metis inj_onD)
qed

subsection \<open>Merging neighbours\<close>

definition coalesce :: "addr \<Rightarrow> slob_state \<Rightarrow> slob_state" where
  "coalesce x h = h\<lparr>units := (units h)(x := units h x + units h (snext h x)),
     snext := (snext h)(x := snext h (snext h x))\<rparr>"

lemma apart_coalesce:
  assumes "apart U lo (us @ x # y # vs)" and "x + 16 * nat (U x) = y"
  shows "apart (U(x := U x + U y)) lo (us @ x # vs)"
    and "blocks (U(x := U x + U y)) (us @ x # vs) = blocks U (us @ x # y # vs)"
proof -
  let ?U = "U(x := U x + U y)"
  have "distinct (us @ x # y # vs)" by (rule apart_distinct [OF assms(1)])
  then have cong: "apart ?U l us = apart U l us" "apart ?U l vs = apart U l vs" "top ?U l us = top U l us"
    "blocks ?U us = blocks U us" "blocks ?U vs = blocks U vs" for l
    by (auto intro!: apart_cong top_cong blocks_cong)
  have pos: "1 \<le> U x" "1 \<le> U y" using assms(1) by (auto simp: apart_append)
  then have e: "16 * nat (U x + U y) = 16 * nat (U x) + 16 * nat (U y)" by (simp add: nat_add_distrib)
  show "apart ?U lo (us @ x # vs)"
    using assms pos by (simp add: apart_append cong e add.assoc [symmetric])
  have "block ?U x = block U x \<union> block U y" using assms(2) by (auto simp: block_def e)
  then show "blocks ?U (us @ x # vs) = blocks U (us @ x # y # vs)" by (auto simp: cong)
qed

lemma heap_coalesce:
  assumes "heap a h (us @ x # y # vs)" and "x + 16 * nat (units h x) = y"
  shows "heap a (coalesce x h) (us @ x # vs)"
    and "blocks (units (coalesce x h)) (us @ x # vs) = blocks (units h) (us @ x # y # vs)"
proof -
  have ap: "apart (units h) (a + 17) (us @ x # y # vs)" using assms(1) by (simp add: heap_def)
  have d: "distinct (a # us @ x # y # vs)" by (rule heap_distinct [OF assms(1)])
  have xy: "snext h x = y" using heap_nextD [of a h "us @ [x]" "y # vs"] assms(1) by simp
  have ch: "chain (snext h) ((a # us) @ x # y # vs) a" using assms(1) by (simp add: heap_def)
  have "chain ((snext h)(x := snext h y)) ((a # us) @ x # vs) a"
    using ch d by (simp only: chain_append) (auto simp: chain_upd)
  then show "heap a (coalesce x h) (us @ x # vs)"
    using apart_coalesce(1) [OF ap assms(2)] assms(1) d by (auto simp: heap_def coalesce_def xy)
  show "blocks (units (coalesce x h)) (us @ x # vs) = blocks (units h) (us @ x # y # vs)"
    using apart_coalesce(2) [OF ap assms(2)] by (simp add: coalesce_def xy)
qed

subsection \<open>Linking a block\<close>

definition hook :: "addr \<Rightarrow> addr \<Rightarrow> slob_state \<Rightarrow> slob_state" where
  "hook b cur h = h\<lparr>snext := (snext h)(b := snext h cur, cur := b)\<rparr>"

lemma heap_hook:
  assumes h: "heap a h (us @ vs)" and b: "top (units h) (a + 17) us \<le> b" "1 \<le> units h b"
    and out: "b \<notin> set (a # us @ vs)" "\<forall>v\<in>set vs. b + 16 * nat (units h b) \<le> v"
  shows "heap a (hook b (last (a # us)) h) (us @ b # vs)"
proof -
  let ?l = "last (a # us)"
  have d: "distinct (a # us @ vs)" by (rule heap_distinct [OF h])
  have ap: "apart (units h) (a + 17) us" "apart (units h) (top (units h) (a + 17) us) vs" and ua: "units h a = 1"
    using h by (auto simp: heap_def apart_append)
  have "apart (units h) (b + 16 * nat (units h b)) vs" using ap(2) out(2) by (cases vs) auto
  with ap b have ap': "apart (units h) (a + 17) (us @ b # vs)" by (simp add: apart_append)
  have n: "snext h ?l = hd (vs @ [a])" by (rule heap_nextD [OF h])
  have "chain (snext h) (a # us) (hd (vs @ [a]))" "chain (snext h) vs a"
    using h chain_append [of "snext h" "a # us" vs a] by (auto simp: heap_def)
  moreover have "?l \<notin> set vs" using d last_in_set [of "a # us"] by auto
  moreover have "distinct (a # us)" using d by simp
  ultimately have "chain ((snext h)(?l := b)) (a # us) b \<and> chain ((snext h)(?l := b)) vs a"
    by (metis chain_redirect chain_upd list.discI)
  then have "chain ((snext h)(?l := b, b := hd (vs @ [a]))) ((a # us) @ b # vs) a"
    using out(1) last_in_set [of "a # us"] by (simp only: chain_append) (auto simp: chain_upd)
  moreover have "b \<noteq> ?l" using out(1) last_in_set [of "a # us"] by auto
  then have "(snext h)(?l := b, b := hd (vs @ [a])) = snext (hook b ?l h)" unfolding hook_def n by (simp add: fun_upd_twist)
  ultimately have "chain (snext (hook b ?l h)) (a # us @ b # vs) a" by (simp only: append_Cons)
  moreover have "units (hook b ?l h) = units h" by (simp add: hook_def)
  ultimately show ?thesis using ap' ua unfolding heap_def by (simp only: simp_thms)
qed


lemma unit_add_pos: "0 \<le> n \<Longrightarrow> unit_add b n = b + 16 * nat n"
  by (simp add: unit_add_def SLOB_UNIT_def nat_add_distrib nat_mult_distrib)

text \<open>\<open>slob_free\<close> after the search: hook the block in, merge it with the next one, then with the one before it.\<close>

lemma slob_link_eq:
  assumes "h = slob s" and "b \<noteq> cur" and "snext h cur \<noteq> b" and "0 \<le> units h b" and "0 \<le> units h cur"
    and "b + 16 * nat (units h b) = snext h cur \<Longrightarrow> snext h cur \<noteq> cur"
  shows "slob_link b cur s =
    s\<lparr>slob := (let h1 = hook b cur h;
                 h2 = (if b + 16 * nat (units h b) = snext h cur then coalesce b h1 else h1);
                 h3 = (if cur + 16 * nat (units h cur) = b then coalesce cur h2 else h2)
             in h3\<lparr>slobfree := cur\<rparr>)\<rparr>"
  using assms unit_add_pos [of "units h b" b] unit_add_pos [of "units h cur" cur]
  by (auto simp: slob_link_def Let_def set_units_def set_snext_def set_slobfree_def hook_def coalesce_def fun_upd_twist)

subsection \<open>Finding the place of a block\<close>

definition stops :: "(addr \<Rightarrow> addr) \<Rightarrow> addr \<Rightarrow> addr \<Rightarrow> bool" where
  "stops nxt b x \<longleftrightarrow> x < b \<and> b < nxt x \<or> nxt x \<le> x \<and> (x < b \<or> b < nxt x)"

lemma slob_find_stop: "stops nxt b x \<Longrightarrow> slob_find nxt b x = Some x"
  by (subst slob_find.simps) (auto simp: stops_def)

lemma slob_find_step: "\<not> stops nxt b x \<Longrightarrow> slob_find nxt b x = slob_find nxt b (nxt x)"
  by (subst slob_find.simps) (auto simp: stops_def)

lemma slob_find_walk:
  "chain nxt xs e \<Longrightarrow> \<forall>x\<in>set xs. \<not> stops nxt b x \<Longrightarrow> slob_find nxt b (hd (xs @ [e])) = slob_find nxt b e"
  by (induction xs) (auto simp: slob_find_step)

lemma apart_sorted: "apart U lo bs \<Longrightarrow> sorted_wrt (<) bs"
proof (induction bs arbitrary: lo)
  case (Cons b bs)
  then show ?case using apart_lo [of U "b + 16 * nat (U b)" bs] by fastforce
qed simp

lemma sorted_le_last: "sorted_wrt (<) (xs :: nat list) \<Longrightarrow> x \<in> set xs \<Longrightarrow> x \<le> last xs"
  by (induction xs) (auto simp: less_imp_le)

lemma heap_sorted: "heap a h bs \<Longrightarrow> sorted_wrt (<) (a # bs)"
  using apart_sorted heap_above by (fastforce simp: heap_def)

lemma heap_next_cases:
  assumes h: "heap a h bs" and x: "x \<in> set (a # bs)"
  shows "snext h x = a \<and> (\<forall>y\<in>set (a # bs). y \<le> x) \<or>
    snext h x \<in> set bs \<and> x < snext h x \<and> (\<forall>y\<in>set (a # bs). y \<le> x \<or> snext h x \<le> y)"
proof -
  obtain ys zs where e: "a # bs = ys @ x # zs" using x by (meson split_list)
  have "chain (snext h) (ys @ x # zs) a" using h unfolding heap_def e by simp
  then have n: "snext h x = hd (zs @ [a])" by (simp add: chain_append)
  have s: "sorted_wrt (<) (ys @ x # zs)" using heap_sorted [OF h] unfolding e .
  show ?thesis
  proof (cases zs)
    case Nil
    with s n show ?thesis unfolding e by (auto simp: sorted_wrt_append)
  next
    case (Cons z zs')
    then have "z \<in> set bs" using e by (cases ys) auto
    with Cons s n show ?thesis unfolding e by (auto simp: sorted_wrt_append)
  qed
qed

lemma stops_iff:
  assumes "heap a h bs" and "x \<in> set (a # bs)" and "b \<notin> set (a # bs)" and "a < b"
  shows "stops (snext h) b x \<longleftrightarrow> x < b \<and> (\<forall>y\<in>set (a # bs). y \<le> x \<or> b < y)"
  using heap_next_cases [OF assms(1,2)]
proof (elim disjE conjE)
  assume n: "snext h x = a" "\<forall>y\<in>set (a # bs). y \<le> x"
  then have "a \<le> x" by simp
  with n assms(4) show ?thesis unfolding stops_def n(1) by auto
next
  assume n: "snext h x \<in> set bs" "x < snext h x" "\<forall>y\<in>set (a # bs). y \<le> x \<or> snext h x \<le> y"
  then show ?thesis unfolding stops_def by (metis leD less_le_trans list.set_intros(2) not_le)
qed

lemma chain_rotate:
  assumes "chain nxt (a # bs) a" and "a # bs = ys @ f # zs"
  shows "chain nxt (f # zs @ ys) f" 
proof -
  have c: "chain nxt ys f" "chain nxt (f # zs) a" using assms by (simp_all add: chain_append)
  show ?thesis
  proof (cases ys)
    case Nil with c assms(2) show ?thesis by simp
  next
    case (Cons y ys')
    then have "y = a" using assms(2) by simp
    with c Cons show ?thesis using chain_append [of nxt "f # zs" ys f] by simp
  qed
qed

lemma slob_find_ok:
  assumes h: "heap a h (us @ vs)" and f: "f \<in> set (a # us @ vs)"
    and lo: "\<forall>u\<in>set us. u < b" and hi: "\<forall>v\<in>set vs. b < v" and a: "a < b"
  shows "slob_find (snext h) b f = Some (last (a # us))"
proof -
  let ?t = "last (a # us)" and ?bs = "us @ vs"
  have nb: "b \<notin> set (a # ?bs)" using lo hi a by auto
  have t: "?t \<in> set (a # us)" by (rule last_in_set) simp
  have "sorted_wrt (<) (a # us)" using heap_sorted [OF h] by (simp add: sorted_wrt_append)
  then have "\<forall>y\<in>set (a # us). y \<le> ?t" using sorted_le_last by blast
  then have mx: "\<forall>y\<in>set (a # ?bs). y \<le> ?t \<or> b < y" using hi by auto
  have lt: "?t < b" using t lo a by auto
  have iff: "stops (snext h) b x \<longleftrightarrow> x = ?t" if "x \<in> set (a # ?bs)" for x
  proof -
    have "?t \<in> set (a # ?bs)" using t by auto
    then show ?thesis using mx lt stops_iff [OF h that nb a] that by (meson le_antisym order.asym)
  qed
  obtain ys zs where e: "a # ?bs = ys @ f # zs" using f by (meson split_list)
  have c: "chain (snext h) (f # zs @ ys) f" using h unfolding heap_def by (blast intro: chain_rotate [OF _ e])
  have s: "set (f # zs @ ys) = set (a # ?bs)" using arg_cong [OF e, of set] by auto
  have "?t \<in> set (f # zs @ ys)" using s t by auto
  then obtain ps qs where p: "f # zs @ ys = ps @ ?t # qs" "?t \<notin> set ps" by (meson split_list_first)
  have "chain (snext h) ps ?t" using c unfolding p(1) by (simp add: chain_append)
  moreover have "\<forall>x\<in>set ps. \<not> stops (snext h) b x" using iff p s by (metis in_set_conv_decomp append.assoc append_Cons)
  ultimately have "slob_find (snext h) b (hd (ps @ [?t])) = slob_find (snext h) b ?t" by (rule slob_find_walk)
  moreover have "hd (ps @ [?t]) = f" using p(1) by (cases ps) auto
  moreover have "stops (snext h) b ?t" using iff [of ?t] t by auto
  ultimately show ?thesis using slob_find_stop by metis
qed

section \<open>Freeing\<close>

definition slob_rep :: "addr \<Rightarrow> slob_state \<Rightarrow> addr set \<Rightarrow> bool" where
  "slob_rep a h A \<longleftrightarrow> (\<exists>bs. heap a h bs \<and> slobfree h \<in> set (a # bs) \<and> A = blocks (units h) bs)"

text \<open>Beside the free bytes, that some free block has room for \<open>k\<close> units.\<close>

definition slob_room :: "addr \<Rightarrow> slob_state \<Rightarrow> addr set \<Rightarrow> int \<Rightarrow> bool" where
  "slob_room a h A k \<longleftrightarrow> (\<exists>bs. heap a h bs \<and> slobfree h \<in> set (a # bs) \<and> A = blocks (units h) bs \<and> (\<exists>x\<in>set bs. k \<le> units h x))"

lemma slob_room_rep: "slob_room a h A k \<Longrightarrow> slob_rep a h A"
  by (auto simp: slob_room_def slob_rep_def)

lemma slob_repI: "heap a h bs \<Longrightarrow> slobfree h \<in> set (a # bs) \<Longrightarrow> slob_rep a h (blocks (units h) bs)"
  by (auto simp: slob_rep_def)

lemma heap_free_cong [simp]: "heap a (h\<lparr>slobfree := x\<rparr>) bs = heap a h bs"
  "heap a (h\<lparr>bigblocks := y\<rparr>) bs = heap a h bs" "heap a (h\<lparr>bbs := B\<rparr>) bs = heap a h bs"
  by (simp_all add: heap_def)

lemma heap_units_cong:
  assumes "heap a h bs" and "x \<notin> set (a # bs)"
  shows "heap a (h\<lparr>units := (units h)(x := v)\<rparr>) bs" "blocks ((units h)(x := v)) bs = blocks (units h) bs"
proof -
  have e: "((units h)(x := v)) b = units h b" if "b \<in> set bs" for b using that assms(2) by auto
  have "apart ((units h)(x := v)) (a + 17) bs" using assms(1) apart_cong [of bs "(units h)(x := v)" "units h" "a + 17", OF e] unfolding heap_def by blast
  then show "heap a (h\<lparr>units := (units h)(x := v)\<rparr>) bs" using assms by (simp add: heap_def)
  show "blocks ((units h)(x := v)) bs = blocks (units h) bs" by (rule blocks_cong [OF e])
qed

text \<open>The two merges of \<open>slob_free\<close>, on the list with the block hooked in.\<close>

lemma heap_merge:
  assumes h: "heap a h (us @ b # vs)" and n: "n = hd (vs @ [a])"
  defines "h' \<equiv> (if b + 16 * nat (units h b) = n then coalesce b h else h)"
  shows "\<exists>vs'. heap a h' (us @ b # vs') \<and> blocks (units h') (us @ b # vs') = blocks (units h) (us @ b # vs) \<and>
    units h b \<le> units h' b"
proof (cases "b + 16 * nat (units h b) = n")
  case True
  have "a + 17 \<le> b" using heap_above [OF h] by simp
  with True n obtain vs' where "vs = n # vs'" by (cases vs) auto
  moreover from this have "snext h b = n" "1 \<le> units h n"
    using heap_nextD [of a h "us @ [b]" vs] heap_above [OF h, of n] h by auto
  ultimately show ?thesis using True h heap_coalesce [of a h us b n vs']
    unfolding h'_def by (intro exI [of _ vs']) (simp add: coalesce_def)
next
  case False
  with h show ?thesis unfolding h'_def by (intro exI [of _ vs]) simp
qed

lemma heap_merge_prev:
  assumes h: "heap a h (us @ b # vs)" and c: "c = last (a # us)"
  defines "h' \<equiv> (if c + 16 * nat (units h c) = b then coalesce c h else h)"
  shows "\<exists>bs. heap a h' bs \<and> blocks (units h') bs = blocks (units h) (us @ b # vs) \<and> c \<in> set (a # bs) \<and>
    (\<exists>x\<in>set bs. units h b \<le> units h' x)"
proof (cases "c + 16 * nat (units h c) = b")
  case True
  have "a + 17 \<le> b" "units h a = 1" using heap_above [OF h] h by (auto simp: heap_def)
  with True have "c \<noteq> a" by auto
  with c have "us \<noteq> []" by auto
  with c obtain us' where us: "us = us' @ [c]" by (metis append_butlast_last_id last_ConsR)
  then have hc: "heap a h (us' @ c # b # vs)" using h by simp
  then have "snext h c = b" "1 \<le> units h c" using heap_nextD [of a h "us' @ [c]" "b # vs"] heap_above [OF hc, of c] by auto
  with True us hc heap_coalesce [of a h us' c b vs] show ?thesis
    unfolding h'_def by (intro exI [of _ "us' @ c # vs"]) (simp add: coalesce_def)
next
  case False
  moreover have "c \<in> set (a # us)" unfolding c by (rule last_in_set) simp
  ultimately show ?thesis using h unfolding h'_def by (intro exI [of _ "us @ b # vs"]) auto
qed

text \<open>What the small object allocator leaves alone: the big blocks, and the headers outside of \<open>X\<close>.\<close>

definition heap_frame :: "addr set \<Rightarrow> slob_state \<Rightarrow> slob_state \<Rightarrow> bool" where
  "heap_frame X h h' \<longleftrightarrow> bigblocks h' = bigblocks h \<and> bbs h' = bbs h \<and> (\<forall>x. x \<notin> X \<longrightarrow> units h' x = units h x)"

lemma heap_frame_trans:
  "heap_frame X h h1 \<Longrightarrow> heap_frame Y h1 h2 \<Longrightarrow> X \<subseteq> Z \<Longrightarrow> Y \<subseteq> Z \<Longrightarrow> heap_frame Z h h2"
  unfolding heap_frame_def by (metis subsetD)

lemma heap_frame_basic: "heap_frame X h h"
  "heap_frame X h (h\<lparr>slobfree := y\<rparr>)" "heap_frame {x} h (h\<lparr>units := (units h)(x := v)\<rparr>)" "heap_frame X h (h\<lparr>snext := g\<rparr>)"
  by (simp_all add: heap_frame_def hook_def coalesce_def)

lemma slob_link_ok:
  assumes rep: "slob_rep a (slob s) A" and b: "a + 17 \<le> b" "1 \<le> slob_units s b"
    and out: "block (slob_units s) b \<inter> A = {}"
  shows "\<exists>cur h. slob_find (slob_next s) b (slobfree (slob s)) = Some cur \<and> slob_link b cur s = s\<lparr>slob := h\<rparr> \<and>
    slob_room a h (A \<union> block (slob_units s) b) (slob_units s b) \<and> heap_frame (A \<union> block (slob_units s) b) (slob s) h"
proof -
  let ?h = "slob s"
  obtain bs where bs: "heap a ?h bs" "slobfree ?h \<in> set (a # bs)" "A = blocks (units ?h) bs"
    using rep by (auto simp: slob_rep_def)
  have bb: "b \<in> block (units ?h) b" using b(2) by (simp add: block_def)
  with out have nA: "b \<notin> A" by auto
  then obtain us vs where uv: "bs = us @ vs" "top (units ?h) (a + 17) us \<le> b" "\<forall>u\<in>set us. u < b" "\<forall>v\<in>set vs. b < v"
    using apart_split [of "units ?h" "a + 17" bs b] bs b(1) by (auto simp: heap_def)
  define cur where "cur = last (a # us)"
  have h: "heap a ?h (us @ vs)" using bs uv(1) by simp
  have c: "cur \<in> set (a # us)" unfolding cur_def by (rule last_in_set) simp
  have n: "snext ?h cur = hd (vs @ [a])" unfolding cur_def by (rule heap_nextD [OF h])
  have nb: "b \<notin> set (a # us @ vs)" using uv b(1) by auto
  have find: "slob_find (snext ?h) b (slobfree ?h) = Some cur"
    unfolding cur_def by (rule slob_find_ok [OF h]) (use bs uv b in auto)
  have "b + 16 * nat (units ?h b) \<le> v" if "v \<in> set vs" for v
  proof -
    have "v \<in> A" unfolding bs(3) using apart_mem [of "units ?h" "a + 17" bs v] bs(1) uv(1) that by (auto simp: heap_def)
    then have "v \<notin> block (units ?h) b" using out by auto
    then show ?thesis using uv(4) that by (auto simp: block_def)
  qed
  then have hk: "heap a (hook b cur ?h) (us @ b # vs)" unfolding cur_def by (intro heap_hook h uv(2) b(2) nb) blast
  obtain vs' h2 where h2: "h2 = (if b + 16 * nat (units ?h b) = snext ?h cur then coalesce b (hook b cur ?h) else hook b cur ?h)"
    and m: "heap a h2 (us @ b # vs')" "blocks (units h2) (us @ b # vs') = blocks (units ?h) (us @ b # vs)"
      "units ?h b \<le> units h2 b"
    using heap_merge [OF hk n] by (auto simp: hook_def)
  have "b \<noteq> cur" using c nb by auto
  then have uc: "units h2 cur = units ?h cur" unfolding h2 by (simp add: coalesce_def hook_def)
  obtain bs' h3 where h3: "h3 = (if cur + 16 * nat (units ?h cur) = b then coalesce cur h2 else h2)"
    and m': "heap a h3 bs'" "blocks (units h3) bs' = blocks (units ?h) (us @ b # vs)" "cur \<in> set (a # bs')" "\<exists>x\<in>set bs'. units h2 b \<le> units h3 x"
    using heap_merge_prev [OF m(1) cur_def] uc m(2) by auto
  have n': "snext ?h cur \<in> set vs \<or> snext ?h cur = a" unfolding n by (cases vs) auto
  have "0 \<le> units ?h cur" using c heap_above [OF h, of cur] h by (auto simp: heap_def)
  moreover have "snext ?h cur \<noteq> cur" if "b + 16 * nat (units ?h b) = snext ?h cur"
    using n' that b(1) c heap_distinct [OF h] by auto
  moreover have "snext ?h cur \<noteq> b" using n' nb by auto
  ultimately have "slob_link b cur s = s\<lparr>slob := h3\<lparr>slobfree := cur\<rparr>\<rparr>"
    using slob_link_eq [OF refl \<open>b \<noteq> cur\<close>] b(2) unfolding h2 h3 Let_def by simp
  moreover have "slob_room a (h3\<lparr>slobfree := cur\<rparr>) (A \<union> block (units ?h) b) (units ?h b)"
    using m' m(3) order_trans uv(1) unfolding slob_room_def bs(3) by (intro exI [of _ bs']) (fastforce simp: ac_simps)
  moreover have "heap_frame (A \<union> block (units ?h) b) ?h (h3\<lparr>slobfree := cur\<rparr>)"
  proof -
    have "heap_frame {b} ?h h2" unfolding h2 by (simp add: heap_frame_def hook_def coalesce_def)
    moreover have "heap_frame A h2 h3"
    proof (cases "cur + 16 * nat (units ?h cur) = b")
      case True
      then have "cur \<noteq> a" using b(1) h by (auto simp: heap_def)
      then have "cur \<in> A" using c bs uv(1) apart_mem [of "units ?h" "a + 17" bs cur] by (auto simp: heap_def)
      then show ?thesis unfolding h3 by (auto simp: heap_frame_def coalesce_def)
    qed (simp add: h3 heap_frame_basic)
    ultimately have "heap_frame (A \<union> block (units ?h) b) ?h h3" using bb by (auto intro: heap_frame_trans)
    then show ?thesis by (simp add: heap_frame_def)
  qed
  ultimately show ?thesis using find by blast
qed

lemma slob_rep_units:
  assumes "slob_rep a h A" and "x \<notin> A" and "x \<noteq> a"
  shows "slob_rep a (h\<lparr>units := (units h)(x := v)\<rparr>) A"
proof -
  obtain bs where bs: "heap a h bs" "slobfree h \<in> set (a # bs)" "A = blocks (units h) bs"
    using assms(1) by (auto simp: slob_rep_def)
  have "x \<notin> set (a # bs)"
    using assms(2,3) bs apart_mem [of "units h" "a + 17" bs x] by (auto simp: heap_def)
  with bs heap_units_cong [OF bs(1)] show ?thesis unfolding slob_rep_def by (intro exI [of _ bs]) simp
qed

lemma local_intr_pair:
  "local_intr_save s = (fl, t) \<Longrightarrow> t = s\<lparr>sstatus := sstatus t\<rparr> \<and> local_intr_restore fl (t\<lparr>slob := h\<rparr>) = s\<lparr>slob := h\<rparr>"
  using intr_save_restore [of "sstatus s"]
  by (auto simp: local_intr_save_def local_intr_restore_def split: prod.splits)

lemma slob_free_ok:
  assumes rep: "slob_rep a (slob s) A" and b: "a + 17 \<le> b" and u: "u = (if sz \<noteq> 0 then SLOB_UNITS sz else slob_units s b)" "1 \<le> u"
    and out: "{b..<b + 16 * nat u} \<inter> A = {}"
  shows "\<exists>h. slob_free b sz s = Inr (s\<lparr>slob := h\<rparr>) \<and> slob_room a h (A \<union> {b..<b + 16 * nat u}) u \<and>
    heap_frame (A \<union> {b..<b + 16 * nat u}) (slob s) h"
proof -
  define s1 where "s1 = (if sz \<noteq> 0 then set_units b (SLOB_UNITS sz) s else s)"
  obtain fl t where t: "local_intr_save s1 = (fl, t)" by fastforce
  note tp = local_intr_pair [OF t]
  have st: "slob t = slob s1" using tp by (metis mstate.select_convs(14) mstate.surjective mstate.update_convs(4))
  have bb: "b \<in> {b..<b + 16 * nat u}" using u(2) by simp
  then have "b \<notin> A" "b \<noteq> a" using out b by (blast, simp)
  then have r1: "slob_rep a (slob t) A" using rep slob_rep_units unfolding st s1_def by (simp add: set_units_def)
  have blk: "block (slob_units t) b = {b..<b + 16 * nat u}" "slob_units t b = u"
    using u(1) unfolding st s1_def by (auto simp: block_def set_units_def)
  obtain cur h where h: "slob_find (slob_next t) b (slobfree (slob t)) = Some cur" "slob_link b cur t = t\<lparr>slob := h\<rparr>"
    "slob_room a h (A \<union> {b..<b + 16 * nat u}) u" "heap_frame (A \<union> {b..<b + 16 * nat u}) (slob t) h"
    using slob_link_ok [OF r1 b] u(2) out unfolding blk by blast
  have fr: "heap_frame {b} (slob s) (slob t)" unfolding st s1_def using heap_frame_basic by (auto simp: set_units_def)
  have "slob_free b sz s = Inr (s1\<lparr>slob := h\<rparr>)"
    using b h(1,2) tp [of h] t unfolding slob_free_def s1_def [symmetric] Let_def returned_def by simp
  also have "s1\<lparr>slob := h\<rparr> = s\<lparr>slob := h\<rparr>" by (simp add: s1_def set_units_def)
  finally show ?thesis using h(3) heap_frame_trans [OF fr h(4)] bb by blast
qed

end
