(* ===== verification/Slob_Alloc.thy ===== *)
theory Slob_Alloc
  imports Slob_Inv
begin

text \<open>
  Allocation in kern/mm/kmalloc.c against the view of \<open>Slob_Inv\<close>: \<open>slob_alloc\<close> takes the first block of the
  circular order that has room, from \<open>slobfree\<close> on, cuts the requested units off its front, and
  extends the heap by a page when no block fits.
\<close>

section \<open>Taking units from a block\<close>

lemma apart_remove:
  assumes "apart U lo (us @ c # vs)"
  shows "apart U lo (us @ vs)" and "blocks U (us @ vs) \<inter> block U c = {}" and "\<forall>v\<in>set vs. c + 16 * nat (U c) \<le> v"
    and "top U lo us \<le> c"
proof -
  let ?e = "c + 16 * nat (U c)"
  have a: "apart U lo us" "top U lo us \<le> c" "apart U ?e vs" using assms by (auto simp: apart_append)
  then show "apart U lo (us @ vs)" using apart_mono [OF a(3), of "top U lo us"] by (simp add: apart_append)
  show "blocks U (us @ vs) \<inter> block U c = {}"
    using top_ge [OF a(1)] top_ge [OF a(3)] a(2) by (fastforce simp: block_def)
  show "\<forall>v\<in>set vs. ?e \<le> v" using apart_lo [OF a(3)] by blast
  show "top U lo us \<le> c" by (rule a(2))
qed

lemma heap_unlink:
  assumes "heap a h (us @ c # vs)"
  shows "heap a (h\<lparr>snext := (snext h)(last (a # us) := snext h c)\<rparr>) (us @ vs)"
proof -
  let ?l = "last (a # us)"
  have ch: "chain (snext h) (a # us) c" "chain (snext h) vs a" "snext h c = hd (vs @ [a])"
    using assms chain_append [of "snext h" "a # us" "c # vs" a] by (auto simp: heap_def)
  have d: "distinct (a # us @ c # vs)" by (rule heap_distinct [OF assms])
  then have "?l \<notin> set vs" "distinct (a # us)" using last_in_set [of "a # us"] by auto
  then have "chain ((snext h)(?l := snext h c)) (a # us) (snext h c)" "chain ((snext h)(?l := snext h c)) vs a"
    using ch chain_redirect [of "snext h" "a # us" c "snext h c"] chain_upd by (blast, metis chain_upd)
  then have "chain ((snext h)(?l := snext h c)) ((a # us) @ vs) a" unfolding chain_append using ch(3) by metis
  then have "chain ((snext h)(?l := snext h c)) (a # us @ vs) a" by (simp only: append_Cons)
  then show ?thesis using assms apart_remove(1) unfolding heap_def by auto
qed

lemma slob_take_exact:
  "slob_units s c = n \<Longrightarrow> slob_take n 0 al p c s =
    (s\<lparr>slob := (slob s)\<lparr>snext := (slob_next s)(p := slob_next s c), slobfree := p\<rparr>\<rparr>, c)"
  by (simp add: slob_take_def set_snext_def set_slobfree_def)

definition cut :: "addr \<Rightarrow> addr \<Rightarrow> int \<Rightarrow> slob_state \<Rightarrow> slob_state" where
  "cut p c n h = h\<lparr>units := (units h)(c + 16 * nat n := units h c - n, c := n),
     snext := (snext h)(p := c + 16 * nat n, c + 16 * nat n := snext h c), slobfree := p\<rparr>"

lemma slob_take_split:
  assumes "n < slob_units s c" and "0 < n" and "c \<noteq> p"
  shows "slob_take n 0 al p c s = (s\<lparr>slob := cut p c n (slob s)\<rparr>, c)"
  using assms unit_add_pos [of n c]
  by (simp add: slob_take_def set_snext_def set_slobfree_def set_units_def Let_def cut_def)

text \<open>The rest of a block that is too large replaces it in the list.\<close>

lemma heap_cut:
  assumes h: "heap a h (us @ c # vs)" and n: "1 \<le> n" "n < units h c" and p: "p = last (a # us)"
  shows "slob_rep a (cut p c n h) (blocks (units h) (us @ c # vs) - {c..<c + 16 * nat n})"
    and "heap_frame (blocks (units h) (us @ c # vs)) h (cut p c n h)"
proof -
  let ?U = "units h" and ?g = "(snext h)(p := snext h c)"
  define r where "r = c + 16 * nat n"
  let ?U1 = "?U(r := ?U c - n)"
  let ?h1 = "h\<lparr>snext := ?g, units := ?U1\<rparr>"
  have ap: "apart ?U (a + 17) (us @ c # vs)" using h by (simp add: heap_def)
  have un: "heap a (h\<lparr>snext := ?g\<rparr>) (us @ vs)" unfolding p by (rule heap_unlink [OF h])
  have pin: "p \<in> set (a # us)" unfolding p by (rule last_in_set) simp
  have d: "distinct (a # us @ c # vs)" by (rule heap_distinct [OF h])
  have r: "c < r" "r < c + 16 * nat (?U c)" "r + 16 * nat (?U c - n) = c + 16 * nat (?U c)"
    using n by (auto simp: r_def nat_diff_distrib)
  then have rc: "r \<in> block ?U c" "c \<in> block ?U c" and "r \<noteq> a" using heap_above [OF h, of c] by (auto simp: block_def)
  then have rn: "r \<notin> set (a # us @ vs)"
    using apart_remove(2) [OF ap] apart_mem [OF apart_remove(1) [OF ap], of r] by auto
  have U1: "blocks ?U1 (us @ vs) = blocks ?U (us @ vs)" "top ?U1 (a + 17) us = top ?U (a + 17) us"
    using heap_units_cong(2) [OF un rn] rn by (simp, intro top_cong) auto
  have "heap a ?h1 (us @ vs)" using heap_units_cong(1) [OF un rn] by simp
  then have "heap a (hook r (last (a # us)) ?h1) (us @ r # vs)"
    by (rule heap_hook) (use n r U1 rn apart_remove(3,4) [OF ap] in \<open>auto simp del: last.simps\<close>)
  then have hk: "heap a (hook r p ?h1) (us @ r # vs)" unfolding p .
  have cn: "c \<notin> set (a # us @ r # vs)" using d r by auto
  have "r \<noteq> p" "c \<noteq> p" using pin rn cn by auto
  then have cut: "cut p c n h = (hook r p ?h1)\<lparr>units := ?U1(c := n), slobfree := p\<rparr>"
    by (simp add: cut_def r_def [symmetric] hook_def fun_upd_twist [of r p])
  have "blocks (?U1(c := n)) (us @ r # vs) = blocks ?U1 (us @ r # vs)" using cn by (intro blocks_cong) auto
  also have "\<dots> = blocks ?U (us @ vs) \<union> {r..<c + 16 * nat (?U c)}" using U1(1) r by (auto simp: block_def)
  also have "\<dots> = blocks ?U (us @ c # vs) - {c..<r}" using apart_remove(2) [OF ap] r by (auto simp: block_def)
  finally show "slob_rep a (cut p c n h) (blocks ?U (us @ c # vs) - {c..<c + 16 * nat n})"
    using slob_repI [of a "cut p c n h" "us @ r # vs"] heap_units_cong(1) [OF hk cn, of n] pin
    unfolding cut by (auto simp: hook_def r_def)
  show "heap_frame (blocks ?U (us @ c # vs)) h (cut p c n h)"
    using rc by (auto simp: heap_frame_def cut_def r_def)
qed

lemma slob_take_ok:
  assumes h: "heap a (slob s) (us @ c # vs)" and n: "1 \<le> n" "n \<le> slob_units s c" and p: "p = last (a # us)"
  shows "\<exists>h'. slob_take n 0 al p c s = (s\<lparr>slob := h'\<rparr>, c) \<and>
    slob_rep a h' (blocks (slob_units s) (us @ c # vs) - {c..<c + 16 * nat n}) \<and> units h' c = n \<and>
    {c..<c + 16 * nat n} \<subseteq> blocks (slob_units s) (us @ c # vs) \<and>
    heap_frame (blocks (slob_units s) (us @ c # vs)) (slob s) h'"
proof -
  let ?h = "slob s" and ?U = "slob_units s" and ?g = "(slob_next s)(p := slob_next s c)"
  have ap: "apart ?U (a + 17) (us @ c # vs)" using h by (simp add: heap_def)
  have un: "heap a (?h\<lparr>snext := ?g\<rparr>) (us @ vs)" unfolding p by (rule heap_unlink [OF h])
  have pin: "p \<in> set (a # us)" unfolding p by (rule last_in_set) simp
  have d: "distinct (a # us @ c # vs)" by (rule heap_distinct [OF h])
  have le: "16 * nat n \<le> 16 * nat (?U c)" using n by simp
  have sub: "{c..<c + 16 * nat n} \<subseteq> block ?U c" "c \<in> block ?U c" using le n by (auto simp: block_def)
  show ?thesis
  proof (cases "?U c = n")
    case True
    let ?h' = "?h\<lparr>snext := ?g, slobfree := p\<rparr>"
    have "slob_rep a ?h' (blocks ?U (us @ vs))" using slob_repI [of a ?h' "us @ vs"] un pin by auto
    moreover have "blocks ?U (us @ c # vs) - {c..<c + 16 * nat n} = blocks ?U (us @ vs)"
      using apart_remove(2) [OF ap] True by (auto simp: block_def)
    ultimately show ?thesis using slob_take_exact [OF True, of al p] sub True by (auto simp: heap_frame_def)
  next
    case False
    then have lt: "n < ?U c" using n by simp
    have "c \<noteq> p" using d pin by auto
    then show ?thesis using heap_cut [OF h n(1) lt p] slob_take_split [OF lt, of p al] n sub(1)
      by (intro exI [of _ "cut p c n ?h"]) (auto simp: cut_def)
  qed
qed


section \<open>The search\<close>

lemma no_align [simp]: "slob_delta 0 c = 0" "slob_aligned 0 c = 0"
  by (simp_all add: slob_delta_def slob_aligned_def)

lemma alloc_fits:
  assumes "n \<le> slob_units s c"
  shows "slob_alloc_loop sz 0 n fl p c s =
    (let r = slob_take n 0 0 p c s in Some (Inr (local_intr_restore fl (fst r), snd r)))"
  using assms by (subst slob_alloc_loop.simps) simp

lemma alloc_skip:
  assumes "slob_units s c < n" and "c \<noteq> slobfree (slob s)"
  shows "slob_alloc_loop sz 0 n fl p c s = slob_alloc_loop sz 0 n fl c (slob_next s c) s"
  using assms by (subst slob_alloc_loop.simps) simp

lemma alloc_walk:
  "chain (slob_next s) xs e \<Longrightarrow> \<forall>x\<in>set xs. slob_units s x < n \<and> x \<noteq> slobfree (slob s) \<Longrightarrow>
   slob_alloc_loop sz 0 n fl p (hd (xs @ [e])) s = slob_alloc_loop sz 0 n fl (last (p # xs)) e s"
proof (induction xs arbitrary: p)
  case (Cons x xs)
  then have "slob_alloc_loop sz 0 n fl p x s = slob_alloc_loop sz 0 n fl x (hd (xs @ [e])) s"
    using alloc_skip by simp
  with Cons show ?case by simp
qed simp

text \<open>The first block with room after \<open>slobfree\<close>, with the block before it, or none.\<close>

lemma alloc_search:
  assumes h: "heap a (slob s) bs" and f: "f = slobfree (slob s)" "f \<in> set (a # bs)" and n: "2 \<le> n"
    and fit: "\<exists>x\<in>set bs. n \<le> slob_units s x"
  shows "\<exists>us c vs. bs = us @ c # vs \<and> n \<le> slob_units s c \<and>
    slob_alloc_loop sz 0 n fl f (slob_next s f) s = slob_alloc_loop sz 0 n fl (last (a # us)) c s"
proof -
  obtain ys zs where e: "a # bs = ys @ f # zs" using f(2) by (meson split_list)
  let ?rs = "(zs @ ys) @ [f]"
  have c: "chain (slob_next s) (f # zs @ ys) f"
    using h unfolding heap_def by (blast intro: chain_rotate [OF _ e])
  have d: "distinct (f # zs @ ys)" using heap_distinct [OF h] unfolding e by auto
  have s: "set ?rs = set (a # bs)" unfolding e by auto
  then obtain x where x: "x \<in> set ?rs" "n \<le> slob_units s x" using fit by auto
  obtain ps c qs where p: "?rs = ps @ c # qs" "n \<le> slob_units s c" "\<forall>x\<in>set ps. \<not> n \<le> slob_units s x"
    using split_list_first_prop [of ?rs "\<lambda>x. n \<le> slob_units s x"] x by blast
  have "ps @ butlast (c # qs) = zs @ ys" using arg_cong [OF p(1), of butlast] by (simp add: butlast_append)
  then have sub: "set ps \<subseteq> set (zs @ ys)" by (metis set_append Un_upper1)
  have "chain (slob_next s) ?rs (slob_next s f)" by (subst chain_append) (use c in simp)
  then have ch: "chain (slob_next s) ps c" unfolding p(1) chain_append by simp
  have hd: "slob_next s f = hd (ps @ [c])" using c p(1) by (cases ps) auto
  have all: "\<forall>x\<in>set ps. slob_units s x < n \<and> x \<noteq> slobfree (slob s)" using p(3) sub d f(1) by auto
  have "slob_alloc_loop sz 0 n fl f (slob_next s f) s = slob_alloc_loop sz 0 n fl (last (f # ps)) c s"
    unfolding hd by (rule alloc_walk [OF ch all])
  moreover have "c \<noteq> a" "c \<in> set ?rs" unfolding p(1) using p(2) h n by (auto simp: heap_def)
  then have "c \<in> set bs" unfolding s by simp
  then obtain us vs where uv: "bs = us @ c # vs" by (meson split_list)
  moreover have "last (f # ps) = last (a # us)"
  proof (rule heap_pred)
    show "heap a (slob s) (us @ c # vs)" using h uv by simp
    have "last (f # ps) \<in> set (f # ps)" by (rule last_in_set) simp
    moreover have "set (f # ps) \<subseteq> set ?rs" using sub by auto
    ultimately show "last (f # ps) \<in> set (a # us @ c # vs)" unfolding s uv by blast
    show "slob_next s (last (f # ps)) = c" using ch hd by (intro chain_last) simp
  qed
  ultimately show ?thesis using p(2) by metis
qed

text \<open>No block has room: the search comes back to \<open>slobfree\<close>.\<close>

lemma alloc_miss:
  assumes h: "heap a (slob s) bs" and f: "f = slobfree (slob s)" "f \<in> set (a # bs)"
    and fit: "\<forall>x\<in>set (a # bs). slob_units s x < n"
  shows "\<exists>p. slob_alloc_loop sz 0 n fl f (slob_next s f) s = slob_alloc_loop sz 0 n fl p f s"
proof -
  obtain ys zs where e: "a # bs = ys @ f # zs" using f(2) by (meson split_list)
  have c: "chain (slob_next s) (f # zs @ ys) f"
    using h unfolding heap_def by (blast intro: chain_rotate [OF _ e])
  have "distinct (f # zs @ ys)" using heap_distinct [OF h] unfolding e by auto
  moreover have "set (zs @ ys) \<subseteq> set (a # bs)" unfolding e by auto
  ultimately have "\<forall>x\<in>set (zs @ ys). slob_units s x < n \<and> x \<noteq> slobfree (slob s)" using fit f(1) by auto
  with alloc_walk [of s "zs @ ys" f n sz fl f] c show ?thesis by auto
qed

lemma alloc_hit_ok:
  assumes room: "slob_room a (slob t) A n" and n: "2 \<le> n" and sv: "local_intr_save s = (fl, t)"
  shows "\<exists>c h'. slob_alloc_loop sz 0 n fl (slobfree (slob t)) (slob_next t (slobfree (slob t))) t = Some (Inr (s\<lparr>slob := h'\<rparr>, c)) \<and>
    slob_rep a h' (A - {c..<c + 16 * nat n}) \<and> units h' c = n \<and> a + 17 \<le> c \<and>
    {c..<c + 16 * nat n} \<subseteq> A \<and> heap_frame A (slob t) h'"
proof -
  obtain bs where h: "heap a (slob t) bs" "slobfree (slob t) \<in> set (a # bs)" and A: "A = blocks (slob_units t) bs"
    and fit: "\<exists>x\<in>set bs. n \<le> slob_units t x" using room by (auto simp: slob_room_def)
  obtain us c vs where u: "bs = us @ c # vs" "n \<le> slob_units t c"
    and l: "slob_alloc_loop sz 0 n fl (slobfree (slob t)) (slob_next t (slobfree (slob t))) t = slob_alloc_loop sz 0 n fl (last (a # us)) c t"
    using alloc_search [OF h(1) refl h(2) n fit] by blast
  have "1 \<le> n" using n by simp
  then obtain h' where h': "slob_take n 0 0 (last (a # us)) c t = (t\<lparr>slob := h'\<rparr>, c)"
    "slob_rep a h' (A - {c..<c + 16 * nat n})" "units h' c = n"
    "{c..<c + 16 * nat n} \<subseteq> A" "heap_frame A (slob t) h'"
    using slob_take_ok [of a t us c vs n _ 0] h(1) u unfolding A by blast
  moreover have "a + 17 \<le> c" using heap_above [OF h(1), of c] u(1) by simp
  ultimately show ?thesis using l alloc_fits [OF u(2)] local_intr_pair [OF sv] by (auto simp: Let_def)
qed

section \<open>A page for the heap\<close>

definition pg_addr :: "nat \<Rightarrow> addr" where "pg_addr p = unat (page2pa p + va_pa_offset)"

definition page_bytes :: "nat set \<Rightarrow> addr set" where
  "page_bytes F = (\<Union>p\<in>F. {pg_addr p..<pg_addr p + 4096})"

lemma pg_addr_eq:
  assumes "p + nbase < 0x88000"
  shows "pg_addr p = 0xFFFFFFFFC0000000 + 4096 * p"
proof -
  have "page2pa p + va_pa_offset = of_nat (0xFFFFFFFFC0000000 + 4096 * p)"
    by (simp add: page2pa_def page2ppn_def nbase_def va_pa_offset_def KERNBASE_def PGSHIFT_def push_bit_eq_mult algebra_simps)
  moreover have "0xFFFFFFFFC0000000 + 4096 * p < 2 ^ 64" using assms by (simp add: nbase_def)
  ultimately show ?thesis unfolding pg_addr_def by (simp only: unat_of_nat_small)
qed

lemma minv_range: "minv s F \<Longrightarrow> p \<in> F \<Longrightarrow> p + nbase < 0x88000"
  using minv_bound by (fastforce simp: minv_def)

lemma minv_slob [simp]: "minv (s\<lparr>slob := h\<rparr>) F = minv s F" "minv (s\<lparr>sstatus := w\<rparr>) F = minv s F"
  by (simp_all add: minv_def)

lemma slob_page_some:
  assumes "minv s F" and "F \<noteq> {}"
  shows "\<exists>f p. slob_get_free_pages 0 s = Inr (s\<lparr>fa := f\<rparr>, pg_addr p) \<and> p \<in> F \<and> minv (s\<lparr>fa := f\<rparr>) (F - {p}) \<and> pg_addr p \<noteq> 0"
proof -
  obtain f p where p: "alloc_page s = Inr (s\<lparr>fa := f\<rparr>, Some p)" "p \<in> F" "minv (s\<lparr>fa := f\<rparr>) (F - {p})"
    using alloc_page_some [OF assms] by blast
  have r: "p + nbase < 0x88000" "p + nbase < npage s" using minv_range minv_bound assms(1) p(2) by auto
  then have "page2kva (s\<lparr>fa := f\<rparr>) p = Inr (page2pa p + va_pa_offset)"
    using PPN_page2pa [of p] by (simp add: page2kva_def KADDR_def page2ppn_def)
  with p(1) have "slob_get_free_pages 0 s = Inr (s\<lparr>fa := f\<rparr>, pg_addr p)"
    by (simp add: slob_get_free_pages_def alloc_page_def pg_addr_def)
  moreover have "pg_addr p \<noteq> 0" using r(1) pg_addr_eq [of p] by simp
  ultimately show ?thesis using p by blast
qed

text \<open>
  No page is free.  With swapping off \<open>alloc_page\<close> returns NULL; with swapping on and no
  \<open>check_mm_struct\<close>, as in the running kernel, \<open>swap_out\<close> follows a NULL pointer.
\<close>

definition no_page :: "mstate \<Rightarrow> (mstate \<times> addr) res" where
  "no_page s = (if swap_init_ok s then Inl (BadPtr ''mm'') else Inr (s, 0))"

lemma slob_page_none:
  assumes inv: "minv s {}" and sw: "swap_init_ok s \<longrightarrow> check_mm_struct s = 0"
  shows "slob_get_free_pages 0 s = no_page s"
proof (cases "swap_init_ok s")
  case False
  with inv show ?thesis using alloc_page_none [of s] by (simp add: slob_get_free_pages_def alloc_page_def no_page_def)
next
  case True
  have "default_alloc_pages (fa s) 1 = Inr (fa s, None)"
    using inv dpmm.alloc_none [of "npage s - nbase" "fa s" "{}" 1] by (simp add: minv_def)
  then have "alloc_pages 1 s = Inl (BadPtr ''mm'')" using True sw
    by (simp add: alloc_pages_def alloc_pages_loop.simps [of "Suc 0" s] pmm_alloc_eq swap_out_def swap_out_one_def
        fifo_swap_out_victim_def)
  with True show ?thesis by (simp add: slob_get_free_pages_def no_page_def)
qed

section \<open>slob\_alloc\<close>

text \<open>The heap \<open>A\<close> beside the free pages \<open>F\<close>.\<close>

definition kheap :: "addr \<Rightarrow> mstate \<Rightarrow> nat set \<Rightarrow> addr set \<Rightarrow> bool" where
  "kheap a s F A \<longleftrightarrow> minv s F \<and> slob_rep a (slob s) A \<and> A \<inter> page_bytes F = {} \<and> (\<forall>p\<in>F. a + 17 \<le> pg_addr p)"

lemma page_bytes_mono: "F \<subseteq> G \<Longrightarrow> page_bytes F \<subseteq> page_bytes G"
  by (auto simp: page_bytes_def)

lemma page_bytes_disjoint:
  assumes "minv s F" and "G \<subseteq> F" and "H \<subseteq> F" and "G \<inter> H = {}"
  shows "page_bytes G \<inter> page_bytes H = {}"
proof -
  have "{pg_addr p..<pg_addr p + 4096} \<inter> {pg_addr q..<pg_addr q + 4096} = {}" if "p \<in> G" "q \<in> H" for p q
  proof -
    have "p + nbase < 0x88000" "q + nbase < 0x88000" "p \<noteq> q" using that assms minv_range [OF assms(1)] by auto
    then show ?thesis using pg_addr_eq by auto
  qed
  then show ?thesis unfolding page_bytes_def by blast
qed

lemma kheap_add_page:
  assumes k: "kheap a s F A" and p: "p \<in> F" and m: "minv (s\<lparr>fa := f\<rparr>) (F - {p})"
  shows "\<exists>h. slob_free (pg_addr p) PAGE_SIZE (s\<lparr>fa := f\<rparr>) = Inr (s\<lparr>fa := f, slob := h\<rparr>) \<and>
    slob_room a h (A \<union> page_bytes {p}) 256 \<and> kheap a (s\<lparr>fa := f, slob := h\<rparr>) (F - {p}) (A \<union> page_bytes {p}) \<and>
    heap_frame (A \<union> page_bytes {p}) (slob s) h"
proof -
  have b: "page_bytes {p} = {pg_addr p..<pg_addr p + 16 * nat 256}" by (simp add: page_bytes_def)
  have u: "(256 :: int) = (if PAGE_SIZE \<noteq> 0 then SLOB_UNITS PAGE_SIZE else slob_units (s\<lparr>fa := f\<rparr>) (pg_addr p))"
    by (simp add: PAGE_SIZE_def SLOB_UNITS_def SLOB_UNIT_def)
  have sub: "page_bytes {p} \<subseteq> page_bytes F" "page_bytes (F - {p}) \<subseteq> page_bytes F" using p by (auto intro!: page_bytes_mono)
  then have "page_bytes {p} \<inter> A = {}" using k by (auto simp: kheap_def)
  then obtain h where h: "slob_free (pg_addr p) PAGE_SIZE (s\<lparr>fa := f\<rparr>) = Inr (s\<lparr>fa := f, slob := h\<rparr>)"
    "slob_room a h (A \<union> page_bytes {p}) 256" "heap_frame (A \<union> page_bytes {p}) (slob s) h"
    using slob_free_ok [of a "s\<lparr>fa := f\<rparr>" A "pg_addr p", OF _ _ u] k p unfolding b by (auto simp: kheap_def)
  moreover have "page_bytes {p} \<inter> page_bytes (F - {p}) = {}"
    using k p by (intro page_bytes_disjoint [of s F]) (auto simp: kheap_def)
  ultimately show ?thesis using k m sub slob_room_rep [OF h(2)] unfolding kheap_def by (intro exI [of _ h]) auto
qed

text \<open>The part of the loop that asks for a page.\<close>

definition slob_refill :: "nat \<Rightarrow> int \<Rightarrow> mstate \<Rightarrow> (mstate \<times> addr) res option" where
  "slob_refill sz n s = (case slob_get_free_pages 0 s of
      Inl e \<Rightarrow> Some (Inl e)
    | Inr (s, pg) \<Rightarrow>
        if pg = 0 then Some (Inr (s, 0))
        else (case slob_free pg PAGE_SIZE s of
           Inl e \<Rightarrow> Some (Inl e)
         | Inr s \<Rightarrow> (let (fl, t) = local_intr_save s; cur = slobfree (slob t)
                    in slob_alloc_loop sz 0 n fl cur (slob_next t cur) t)))"

lemma intr_save_slob: "local_intr_save s = (fl, t) \<Longrightarrow> slob t = slob s"
  by (auto simp: local_intr_save_def split: prod.splits)

lemma alloc_refill:
  assumes "slob_units t f < n" and "f = slobfree (slob t)" and sv: "local_intr_save s = (fl, t)" and "sz \<noteq> PAGE_SIZE"
  shows "slob_alloc_loop sz 0 n fl p f t = slob_refill sz n s"
proof -
  have "local_intr_restore fl t = s" using sv intr_save_restore [of "sstatus s"]
    by (auto simp: local_intr_save_def local_intr_restore_def split: prod.splits)
  with assms show ?thesis
    by (subst slob_alloc_loop.simps) (simp add: slob_refill_def Let_def split: prod.splits sum.splits)
qed

lemma slob_alloc_eq:
  assumes "sz + 16 < 4096" and "local_intr_save s = (fl, t)"
  shows "slob_alloc sz 0 s = (case slob_alloc_loop sz 0 (SLOB_UNITS sz) fl (slobfree (slob t)) (slob_next t (slobfree (slob t))) t of
     None \<Rightarrow> Inl Hang | Some r \<Rightarrow> r)"
  using assms by (simp add: slob_alloc_def SLOB_UNIT_def PAGE_SIZE_def assertR_def Let_def)

text \<open>The three outcomes: a block of the heap, a block of a page just added, or NULL.\<close>

definition slob_took :: "addr \<Rightarrow> mstate \<Rightarrow> nat set \<Rightarrow> addr set \<Rightarrow> int \<Rightarrow> mstate \<Rightarrow> nat set \<Rightarrow> addr \<Rightarrow> bool" where
  "slob_took a s F A n s' F' c \<longleftrightarrow> (\<exists>f h. s' = s\<lparr>fa := f, slob := h\<rparr>) \<and> F' \<subseteq> F \<and>
     kheap a s' F' ((A \<union> page_bytes (F - F')) - {c..<c + 16 * nat n}) \<and>
     {c..<c + 16 * nat n} \<subseteq> A \<union> page_bytes (F - F') \<and> slob_units s' c = n \<and> a + 17 \<le> c \<and>
     heap_frame (A \<union> page_bytes (F - F')) (slob s) (slob s')"

lemma slob_took_hit:
  assumes k: "kheap a s F A" and room: "slob_room a (slob s) A n" and n: "2 \<le> n" and sv: "local_intr_save s = (fl, t)"
  shows "\<exists>s' c. slob_alloc_loop sz 0 n fl (slobfree (slob t)) (slob_next t (slobfree (slob t))) t = Some (Inr (s', c)) \<and>
    slob_took a s F A n s' F c"
proof -
  have st: "slob t = slob s" by (rule intr_save_slob [OF sv])
  obtain c h' where h: "slob_alloc_loop sz 0 n fl (slobfree (slob t)) (slob_next t (slobfree (slob t))) t = Some (Inr (s\<lparr>slob := h'\<rparr>, c))"
    "slob_rep a h' (A - {c..<c + 16 * nat n})" "units h' c = n" "a + 17 \<le> c" "{c..<c + 16 * nat n} \<subseteq> A" "heap_frame A (slob s) h'"
    using alloc_hit_ok [of a t A n s fl sz] room n sv unfolding st by blast
  have "slob_took a s F A n (s\<lparr>slob := h'\<rparr>) F c"
    using h k unfolding slob_took_def kheap_def
    by (intro conjI exI [of _ "fa s"] exI [of _ h']) (auto simp: page_bytes_def)
  with h(1) show ?thesis by blast
qed

lemma slob_room_mono: "slob_room a h A k \<Longrightarrow> n \<le> k \<Longrightarrow> slob_room a h A n"
proof -
  assume "slob_room a h A k" and n: "n \<le> k"
  then obtain bs x where bs: "heap a h bs" "slobfree h \<in> set (a # bs)" "A = blocks (units h) bs" "x \<in> set bs" "k \<le> units h x"
    unfolding slob_room_def by blast
  moreover have "n \<le> units h x" using bs(5) n by simp
  ultimately show ?thesis unfolding slob_room_def by blast
qed

lemma slob_refill_ok:
  assumes k: "kheap a s F A" and n: "2 \<le> n" "n \<le> 256" and sw: "swap_init_ok s \<longrightarrow> check_mm_struct s = 0"
  shows "if F = {} then slob_refill sz n s = Some (no_page s)
    else \<exists>s' F' c. slob_refill sz n s = Some (Inr (s', c)) \<and> slob_took a s F A n s' F' c"
proof (cases "F = {}")
  case True
  then have "slob_get_free_pages 0 s = no_page s" using k sw by (intro slob_page_none) (auto simp: kheap_def)
  with True show ?thesis by (simp add: slob_refill_def no_page_def)
next
  case False
  obtain f p where p: "slob_get_free_pages 0 s = Inr (s\<lparr>fa := f\<rparr>, pg_addr p)" "p \<in> F" "minv (s\<lparr>fa := f\<rparr>) (F - {p})" "pg_addr p \<noteq> 0"
    using slob_page_some [of s F] k False unfolding kheap_def by blast
  obtain h where h: "slob_free (pg_addr p) PAGE_SIZE (s\<lparr>fa := f\<rparr>) = Inr (s\<lparr>fa := f, slob := h\<rparr>)"
    "slob_room a h (A \<union> page_bytes {p}) 256" "kheap a (s\<lparr>fa := f, slob := h\<rparr>) (F - {p}) (A \<union> page_bytes {p})"
    "heap_frame (A \<union> page_bytes {p}) (slob s) h"
    using kheap_add_page [OF k p(2,3)] by blast
  let ?s = "s\<lparr>fa := f, slob := h\<rparr>" and ?A = "A \<union> page_bytes {p}"
  obtain fl t where t: "local_intr_save ?s = (fl, t)" by fastforce
  have "slob_room a (slob ?s) ?A n" using slob_room_mono [OF h(2) n(2)] by simp
  then obtain s' c where c: "slob_alloc_loop sz 0 n fl (slobfree (slob t)) (slob_next t (slobfree (slob t))) t = Some (Inr (s', c))"
    "slob_took a ?s (F - {p}) ?A n s' (F - {p}) c"
    using slob_took_hit [OF h(3) _ n(1) t] by blast
  have "slob_refill sz n s = Some (Inr (s', c))" using p h(1) t c(1) by (simp add: slob_refill_def Let_def)
  moreover have "slob_took a s F A n s' (F - {p}) c"
  proof -
    have e: "F - (F - {p}) = {p}" "page_bytes (F - {p} - (F - {p})) = {}" using p(2) by (auto simp: page_bytes_def)
    have "heap_frame ?A (slob s) (slob s')"
      using c(2) h(4) heap_frame_trans [of ?A "slob s" h ?A] unfolding slob_took_def e by auto
    then show ?thesis using c(2) unfolding slob_took_def e by auto
  qed
  ultimately show ?thesis using False by auto
qed

lemma slob_alloc_ok:
  assumes k: "kheap a s F A" and sz: "16 < sz" "sz + 16 < 4096" and sw: "swap_init_ok s \<longrightarrow> check_mm_struct s = 0"
  shows "if F = {} \<and> \<not> slob_room a (slob s) A (SLOB_UNITS sz) then slob_alloc sz 0 s = no_page s
    else \<exists>s' F' c. slob_alloc sz 0 s = Inr (s', c) \<and> slob_took a s F A (SLOB_UNITS sz) s' F' c"
proof -
  let ?n = "SLOB_UNITS sz"
  have n: "2 \<le> ?n" "?n \<le> 256" using sz by (auto simp: SLOB_UNITS_def SLOB_UNIT_def)
  obtain fl t where t: "local_intr_save s = (fl, t)" by fastforce
  note al = slob_alloc_eq [OF sz(2) t]
  have st: "slob t = slob s" by (rule intr_save_slob [OF t])
  show ?thesis
  proof (cases "slob_room a (slob s) A ?n")
    case True
    then show ?thesis using slob_took_hit [OF k True n(1) t, of sz] unfolding al by fastforce
  next
    case False
    obtain bs where bs: "heap a (slob t) bs" "slobfree (slob t) \<in> set (a # bs)" "A = blocks (slob_units t) bs"
      using k unfolding st by (auto simp: kheap_def slob_rep_def)
    with False have "\<forall>x\<in>set bs. slob_units t x < ?n" unfolding st slob_room_def by force
    then have miss: "\<forall>x\<in>set (a # bs). slob_units t x < ?n" using bs(1) n by (auto simp: heap_def)
    then obtain p where "slob_alloc_loop sz 0 ?n fl (slobfree (slob t)) (slob_next t (slobfree (slob t))) t =
        slob_alloc_loop sz 0 ?n fl p (slobfree (slob t)) t"
      using alloc_miss [OF bs(1) refl bs(2)] by blast
    moreover have "sz \<noteq> PAGE_SIZE" using sz by (simp add: PAGE_SIZE_def)
    then have "slob_alloc_loop sz 0 ?n fl p (slobfree (slob t)) t = slob_refill sz ?n s"
      using miss bs(2) by (intro alloc_refill [OF _ refl t]) auto
    ultimately have "slob_alloc sz 0 s = (case slob_refill sz ?n s of None \<Rightarrow> Inl Hang | Some r \<Rightarrow> r)" unfolding al by simp
    with slob_refill_ok [OF k n sw, of sz] False show ?thesis by (cases "F = {}") auto
  qed
qed

end
