(* ===== verification/Slob_Correct.thy ===== *)
theory Slob_Correct
  imports Slob_Alloc
begin

text \<open>
  \<open>kmalloc\<close> and \<open>kfree\<close> of kern/mm/kmalloc.c for objects smaller than a page: the interface the rest of the
  kernel uses, as a locale over the set of live objects, and its interpretation on the heap.
\<close>

section \<open>The list of big blocks\<close>

primrec bigs :: "(addr \<Rightarrow> bigblock) \<Rightarrow> addr \<Rightarrow> addr list \<Rightarrow> bool" where
  "bigs B b [] \<longleftrightarrow> b = 0"
| "bigs B b (x # xs) \<longleftrightarrow> b = x \<and> x \<noteq> 0 \<and> bigs B (bb_next (B x)) xs"

lemma bb_scan_miss:
  "bigs B b xs \<Longrightarrow> \<forall>x\<in>set xs. bb_pages (B x) \<noteq> p \<Longrightarrow> bb_scan B p l b = Some None"
  by (induction xs arbitrary: b l) (auto simp: bb_scan.simps)

section \<open>Small objects\<close>

lemma page_bytes_split:
  assumes "kheap a s F A" and "F' \<subseteq> F"
  shows "page_bytes (F - F') \<subseteq> page_bytes F" and "page_bytes F' \<subseteq> page_bytes F" and "page_bytes (F - F') \<inter> page_bytes F' = {}"
proof -
  show "page_bytes (F - F') \<inter> page_bytes F' = {}"
    using assms by (intro page_bytes_disjoint [of s F]) (auto simp: kheap_def)
qed (use assms(2) in \<open>auto intro!: page_bytes_mono\<close>)

text \<open>The units of an object of \<open>sz\<close> bytes with its header.\<close>

definition obj_units :: "nat \<Rightarrow> nat" where "obj_units sz = (sz + 31) div 16"

lemma obj_units: "SLOB_UNITS (sz + SLOB_UNIT) = int (obj_units sz)" "sz + 16 \<le> 16 * obj_units sz"
  by (simp_all add: SLOB_UNITS_def SLOB_UNIT_def obj_units_def)

lemma kmalloc_small_ok:
  assumes k: "kheap a s F A" and sz: "1 \<le> sz" "sz < 4064" and sw: "swap_init_ok s \<longrightarrow> check_mm_struct s = 0"
  shows "if F = {} \<and> \<not> slob_room a (slob s) A (int (obj_units sz)) then kmalloc sz s = no_page s
    else \<exists>s' F' c. kmalloc sz s = Inr (s', c + 16) \<and> slob_took a s F A (int (obj_units sz)) s' F' c"
proof -
  have "kmalloc sz s = bindR (slob_alloc (sz + 16) 0 s) (\<lambda>(s, m). Inr (s, if m \<noteq> 0 then m + 16 else 0))"
    using sz unit_add_pos [of 1] by (simp add: kmalloc_def PAGE_SIZE_def SLOB_UNIT_def cong: if_cong)
  moreover have u: "SLOB_UNITS (sz + 16) = int (obj_units sz)" using obj_units(1) by (simp add: SLOB_UNIT_def)
  moreover have "c \<noteq> 0" if "slob_took a s F A n s' F' c" for n s' F' c using that by (auto simp: slob_took_def)
  moreover have "16 < sz + 16" "sz + 16 + 16 < 4096" using sz by auto
  note slob_alloc_ok [OF k this sw, unfolded u]
  ultimately show ?thesis
    by (cases "F = {} \<and> \<not> slob_room a (slob s) A (int (obj_units sz))") (force simp: no_page_def)+
qed

lemma kfree_small_ok:
  assumes k: "kheap a s F A" and c: "a + 17 \<le> c" "1 \<le> slob_units s c"
    and out: "{c..<c + 16 * nat (slob_units s c)} \<inter> (A \<union> page_bytes F) = {}"
    and bb: "bigs (bbs (slob s)) (bigblocks (slob s)) xs" "\<forall>x\<in>set xs. bb_pages (bbs (slob s) x) \<noteq> c + 16"
  shows "\<exists>h. kfree (c + 16) s = Inr (s\<lparr>slob := h\<rparr>) \<and> kheap a (s\<lparr>slob := h\<rparr>) F (A \<union> {c..<c + 16 * nat (slob_units s c)}) \<and>
    heap_frame (A \<union> {c..<c + 16 * nat (slob_units s c)}) (slob s) h"
proof -
  obtain h where h: "slob_free c 0 s = Inr (s\<lparr>slob := h\<rparr>)" "slob_room a h (A \<union> {c..<c + 16 * nat (slob_units s c)}) (slob_units s c)"
    "heap_frame (A \<union> {c..<c + 16 * nat (slob_units s c)}) (slob s) h"
    using slob_free_ok [of a s A c "slob_units s c" 0] k c out unfolding kheap_def by auto
  obtain fl t where t: "local_intr_save s = (fl, t)" by fastforce
  have "local_intr_restore fl t = s" using t intr_save_restore [of "sstatus s"]
    by (auto simp: local_intr_save_def local_intr_restore_def split: prod.splits)
  moreover have "unit_add (c + 16) (- 1) = c" by (simp add: unit_add_def SLOB_UNIT_def)
  ultimately have "kfree (c + 16) s = slob_free c 0 s"
    using bb_scan_miss [OF bb] t intr_save_slob [OF t] by (simp add: kfree_def)
  with h k out slob_room_rep [OF h(2)] show ?thesis unfolding kheap_def by (intro exI [of _ h]) auto
qed


section \<open>The interface of the heap\<close>

text \<open>Sequences of requests: \<open>L\<close> maps the pointers handed out and not yet given back to the sizes asked for.\<close>

inductive heap_calls ::
  "(nat \<Rightarrow> 's \<Rightarrow> ('s \<times> addr) res) \<Rightarrow> (addr \<Rightarrow> 's \<Rightarrow> 's res) \<Rightarrow> (nat \<Rightarrow> bool) \<Rightarrow>
   's \<Rightarrow> (addr \<rightharpoonup> nat) \<Rightarrow> 's \<Rightarrow> (addr \<rightharpoonup> nat) \<Rightarrow> bool"
  for malloc :: "nat \<Rightarrow> 's \<Rightarrow> ('s \<times> addr) res" and release :: "addr \<Rightarrow> 's \<Rightarrow> 's res" and fits :: "nat \<Rightarrow> bool" and s :: 's and L :: "addr \<rightharpoonup> nat" where
  start: "heap_calls malloc release fits s L s L"
| malloc: "heap_calls malloc release fits s L t M \<Longrightarrow> fits n \<Longrightarrow> malloc n t = Inr (u, p) \<Longrightarrow>
    heap_calls malloc release fits s L u (if p = 0 then M else M(p \<mapsto> n))"
| free: "heap_calls malloc release fits s L t M \<Longrightarrow> p \<in> insert 0 (dom M) \<Longrightarrow> release p t = Inr u \<Longrightarrow>
    heap_calls malloc release fits s L u (M(p := None))"

locale object_heap =
  fixes malloc :: "nat \<Rightarrow> 's \<Rightarrow> ('s \<times> addr) res"
    and release :: "addr \<Rightarrow> 's \<Rightarrow> 's res"
    and fits :: "nat \<Rightarrow> bool"
    and live :: "'s \<Rightarrow> (addr \<rightharpoonup> nat) \<Rightarrow> bool"
    and stocked :: "'s \<Rightarrow> bool"
  assumes live_null: "live s L \<Longrightarrow> L 0 = None"
    and live_apart: "live s L \<Longrightarrow> L p = Some m \<Longrightarrow> L q = Some n \<Longrightarrow> p \<noteq> q \<Longrightarrow> {p..<p + m} \<inter> {q..<q + n} = {}"
    and malloc_law: "live s L \<Longrightarrow> fits n \<Longrightarrow> malloc n s = Inr (s', p) \<Longrightarrow>
      L p = None \<and> live s' (if p = 0 then L else L(p \<mapsto> n))"
    and malloc_returns: "live s L \<Longrightarrow> fits n \<Longrightarrow> stocked s \<Longrightarrow> \<exists>s' p. malloc n s = Inr (s', p)"
    and release_law: "live s L \<Longrightarrow> p \<in> insert 0 (dom L) \<Longrightarrow> \<exists>s'. release p s = Inr s' \<and> live s' (L(p := None))"
begin

lemma calls_live: "heap_calls malloc release fits s L t M \<Longrightarrow> live s L \<Longrightarrow> live t M"
proof (induction rule: heap_calls.induct)
  case (malloc t M n u p)
  then show ?case using malloc_law [of t M n] by auto
next
  case (free t M p u)
  then show ?case using release_law [of t M p] by (metis sum.inject(2))
qed

lemma malloc_apart:
  assumes "live s L" and "fits n" and "malloc n s = Inr (s', p)" and "p \<noteq> 0" and "L q = Some m"
  shows "{p..<p + n} \<inter> {q..<q + m} = {}"
proof -
  have "L p = None" "live s' (L(p \<mapsto> n))" using malloc_law [OF assms(1-3)] assms(4) by auto
  moreover have "q \<noteq> p" using calculation(1) assms(5) by auto
  ultimately show ?thesis using live_apart [of s' "L(p \<mapsto> n)" p n q m] assms(5) by simp
qed

lemma calls_ok:
  assumes "live s L" and "heap_calls malloc release fits s L t M"
  shows "p \<noteq> q \<Longrightarrow> M p = Some m \<Longrightarrow> M q = Some n \<Longrightarrow> {p..<p + m} \<inter> {q..<q + n} = {}"
    and "fits n \<Longrightarrow> malloc n t = Inr (u, p) \<Longrightarrow> p \<noteq> 0 \<Longrightarrow> M q = Some m \<Longrightarrow> {p..<p + n} \<inter> {q..<q + m} = {}"
    and "fits n \<Longrightarrow> stocked t \<Longrightarrow> \<exists>u p. malloc n t = Inr (u, p)"
    and "p \<in> insert 0 (dom M) \<Longrightarrow> \<exists>u. release p t = Inr u"
proof -
  have l: "live t M" by (rule calls_live [OF assms(2,1)])
  show "p \<noteq> q \<Longrightarrow> M p = Some m \<Longrightarrow> M q = Some n \<Longrightarrow> {p..<p + m} \<inter> {q..<q + n} = {}"
    using live_apart [OF l] by blast
  show "fits n \<Longrightarrow> malloc n t = Inr (u, p) \<Longrightarrow> p \<noteq> 0 \<Longrightarrow> M q = Some m \<Longrightarrow> {p..<p + n} \<inter> {q..<q + m} = {}"
    by (rule malloc_apart [OF l])
  show "fits n \<Longrightarrow> stocked t \<Longrightarrow> \<exists>u p. malloc n t = Inr (u, p)" by (rule malloc_returns [OF l])
  show "p \<in> insert 0 (dom M) \<Longrightarrow> \<exists>u. release p t = Inr u" using release_law [OF l] by blast
qed

end

section \<open>The heap of the kernel\<close>

definition extent :: "addr \<Rightarrow> nat \<Rightarrow> addr set" where
  "extent p n = {p - 16..<p - 16 + 16 * obj_units n}"

definition live_obj :: "addr \<Rightarrow> slob_state \<Rightarrow> addr \<Rightarrow> nat \<Rightarrow> bool" where
  "live_obj a h p n \<longleftrightarrow> a + 33 \<le> p \<and> 1 \<le> n \<and> units h (p - 16) = int (obj_units n)"

definition big_ok :: "slob_state \<Rightarrow> addr set \<Rightarrow> bool" where
  "big_ok h X \<longleftrightarrow> (\<exists>xs. bigs (bbs h) (bigblocks h) xs \<and> (\<forall>x\<in>set xs. bb_pages (bbs h x) \<notin> X))"

definition extents :: "(addr \<rightharpoonup> nat) \<Rightarrow> addr set" where
  "extents L = {x. \<exists>p n. L p = Some n \<and> x \<in> extent p n}"

definition apart_objs :: "(addr \<rightharpoonup> nat) \<Rightarrow> bool" where
  "apart_objs L \<longleftrightarrow> (\<forall>p q m n. L p = Some m \<longrightarrow> L q = Some n \<longrightarrow> p \<noteq> q \<longrightarrow> extent p m \<inter> extent q n = {})"

definition heap_live :: "addr \<Rightarrow> mstate \<Rightarrow> (addr \<rightharpoonup> nat) \<Rightarrow> bool" where
  "heap_live a s L \<longleftrightarrow> (swap_init_ok s \<longrightarrow> check_mm_struct s = 0) \<and> (\<exists>F A. kheap a s F A \<and> big_ok (slob s) (A \<union> page_bytes F \<union> extents L) \<and>
     extents L \<inter> (A \<union> page_bytes F) = {}) \<and> (\<forall>p n. L p = Some n \<longrightarrow> live_obj a (slob s) p n) \<and> apart_objs L"

definition small :: "nat \<Rightarrow> bool" where "small n \<longleftrightarrow> 1 \<le> n \<and> n < 4064"

lemma extent_obj: "16 \<le> p \<Longrightarrow> {p..<p + n} \<subseteq> extent p n" "1 \<le> n \<Longrightarrow> 16 \<le> p \<Longrightarrow> p - 16 \<in> extent p n \<and> p \<in> extent p n"
  using obj_units(2) [of n] by (auto simp: extent_def)

lemma extents_upd: "L p = None \<Longrightarrow> extents (L(p \<mapsto> n)) = extents L \<union> extent p n"
  by (auto simp: extents_def) (metis option.distinct(1))

lemma big_ok_frame: "big_ok h X \<Longrightarrow> heap_frame Y h h' \<Longrightarrow> Z \<subseteq> X \<Longrightarrow> big_ok h' Z"
  by (auto simp: big_ok_def heap_frame_def)

lemma big_ok_mem: "big_ok h X \<Longrightarrow> p \<in> X \<Longrightarrow> \<exists>xs. bigs (bbs h) (bigblocks h) xs \<and> (\<forall>x\<in>set xs. bb_pages (bbs h x) \<noteq> p)"
  unfolding big_ok_def by metis

lemma live_obj_frame:
  "live_obj a h p n \<Longrightarrow> heap_frame Y h h' \<Longrightarrow> extent p n \<inter> Y = {} \<Longrightarrow> live_obj a h' p n"
  using extent_obj(2) [of n p] by (auto simp: live_obj_def heap_frame_def)

lemma extents_mem: "L p = Some n \<Longrightarrow> extent p n \<subseteq> extents L"
  by (auto simp: extents_def)

lemma extents_del:
  assumes "L p = Some n" and "apart_objs L"
  shows "extents (L(p := None)) = extents L - extent p n"
proof -
  have "x \<notin> extent p n" if "x \<in> extents (L(p := None))" for x
    using that assms unfolding extents_def apart_objs_def by (auto split: if_splits) (metis disjoint_iff)
  then have "extents (L(p := None)) \<inter> extent p n = {}" by blast
  moreover have "extents L = extents (L(p := None)) \<union> extent p n" using assms(1) extents_upd [of "L(p := None)" p n]
    by (simp add: fun_upd_idem)
  ultimately show ?thesis by blast
qed

lemma apart_objs_upd:
  "apart_objs L \<Longrightarrow> extents L \<inter> extent p n = {} \<Longrightarrow> apart_objs (L(p \<mapsto> n))"
  using extents_mem [of L] unfolding apart_objs_def by (simp add: disjoint_iff subset_iff) metis

lemma apart_objs_del: "apart_objs L \<Longrightarrow> apart_objs (L(p := None))"
  unfolding apart_objs_def by auto

lemma live_obj_pos: "live_obj a h p n \<Longrightarrow> p \<in> extent p n \<and> p - 16 \<in> extent p n"
  using extent_obj(2) [of n p] by (auto simp: live_obj_def)

lemma heap_live_took:
  assumes k: "kheap a s F A" and bb: "big_ok (slob s) (A \<union> page_bytes F \<union> extents L)"
    and out: "extents L \<inter> (A \<union> page_bytes F) = {}" and sw: "swap_init_ok s \<longrightarrow> check_mm_struct s = 0"
    and objs: "\<forall>p n. L p = Some n \<longrightarrow> live_obj a (slob s) p n" and ap: "apart_objs L"
    and n: "1 \<le> n" and tk: "slob_took a s F A (int (obj_units n)) s' F' c"
  shows "L (c + 16) = None" and "heap_live a s' (L(c + 16 \<mapsto> n))"
proof -
  let ?p = "c + 16" and ?A = "A \<union> page_bytes (F - F')" and ?L = "L(c + 16 \<mapsto> n)"
  obtain f h where s': "s' = s\<lparr>fa := f, slob := h\<rparr>" and "F' \<subseteq> F"
    and k': "kheap a s' F' (?A - extent ?p n)" and e: "extent ?p n \<subseteq> ?A" and c: "slob_units s' c = int (obj_units n)" "a + 17 \<le> c"
    and fr: "heap_frame ?A (slob s) (slob s')" using tk by (auto simp: slob_took_def extent_def)
  note pb = page_bytes_split [OF k \<open>F' \<subseteq> F\<close>]
  have lo: "live_obj a (slob s') ?p n" using c n by (simp add: live_obj_def)
  have dj: "extents L \<inter> ?A = {}" using out pb by blast
  have "?p \<in> ?A" using live_obj_pos [OF lo] e by blast
  then show np: "L ?p = None" using dj extents_mem [of L ?p] live_obj_pos objs by (cases "L ?p") blast+
  have ext: "extents ?L = extents L \<union> extent ?p n" by (rule extents_upd [of L ?p, OF np])
  have "live_obj a (slob s') q m" if "?L q = Some m" for q m
  proof (cases "q = ?p")
    case False
    then have q: "L q = Some m" using that by simp
    moreover have "extent q m \<inter> ?A = {}" using extents_mem [of L, OF q] dj by blast
    ultimately show ?thesis using objs live_obj_frame [OF _ fr] by blast
  qed (use that lo in simp)
  moreover have "apart_objs ?L" using ap e dj by (intro apart_objs_upd) auto
  moreover have "big_ok (slob s') ((?A - extent ?p n) \<union> page_bytes F' \<union> extents ?L)"
    by (rule big_ok_frame [OF bb fr]) (use e pb ext in blast)
  moreover have "extents ?L \<inter> ((?A - extent ?p n) \<union> page_bytes F') = {}"
    using k e dj out pb unfolding ext kheap_def by blast
  ultimately show "heap_live a s' ?L" using k' sw unfolding heap_live_def s' by auto
qed

lemma heap_liveE:
  assumes "heap_live a s L"
  obtains F A where "kheap a s F A" and "big_ok (slob s) (A \<union> page_bytes F \<union> extents L)"
    and "extents L \<inter> (A \<union> page_bytes F) = {}" and "swap_init_ok s \<longrightarrow> check_mm_struct s = 0"
    and "\<forall>p n. L p = Some n \<longrightarrow> live_obj a (slob s) p n" and "apart_objs L"
  using assms unfolding heap_live_def by blast

lemma heap_live_null: "heap_live a s L \<Longrightarrow> L 0 = None"
  by (cases "L 0") (auto simp: heap_live_def live_obj_def dest: spec [of _ 0])

text \<open>\<open>kmalloc\<close> is sure to return when swapping is off or a page is free.\<close>

definition heap_stocked :: "mstate \<Rightarrow> bool" where
  "heap_stocked s \<longleftrightarrow> \<not> swap_init_ok s \<or> nr_free (fa s) \<noteq> 0"

lemma kheap_nr_free: "kheap a s F A \<Longrightarrow> nr_free (fa s) = 0 \<longleftrightarrow> F = {}"
  using dpmm.nr_card [of "npage s - nbase" "fa s" F] minv_finite [of s F]
  by (auto simp: kheap_def minv_def default_nr_free_pages_def)

lemma heap_live_malloc:
  assumes live: "heap_live a s L" and sz: "small n"
  shows "kmalloc n s = Inr (s', p) \<Longrightarrow> L p = None \<and> heap_live a s' (if p = 0 then L else L(p \<mapsto> n))"
    and "heap_stocked s \<Longrightarrow> \<exists>s' p. kmalloc n s = Inr (s', p)"
proof -
  obtain F A where l: "kheap a s F A" "big_ok (slob s) (A \<union> page_bytes F \<union> extents L)"
    "extents L \<inter> (A \<union> page_bytes F) = {}" "swap_init_ok s \<longrightarrow> check_mm_struct s = 0"
    "\<forall>p n. L p = Some n \<longrightarrow> live_obj a (slob s) p n" "apart_objs L" by (rule heap_liveE [OF live])
  have n: "1 \<le> n" "n < 4064" using sz by (auto simp: small_def)
  consider (took) t F' c where "kmalloc n s = Inr (t, c + 16)" "slob_took a s F A (int (obj_units n)) t F' c"
    | (full) "kmalloc n s = no_page s" "F = {}"
    using kmalloc_small_ok [OF l(1) n l(4)] by (auto split: if_splits)
  note cs = this
  show "L p = None \<and> heap_live a s' (if p = 0 then L else L(p \<mapsto> n))" if r: "kmalloc n s = Inr (s', p)"
    using cs
  proof cases
    case took
    with heap_live_took [OF l n(1) took(2)] r show ?thesis by auto
  next
    case full
    then show ?thesis using r live heap_live_null [OF live] by (auto simp: no_page_def split: if_splits)
  qed
  show "\<exists>s' p. kmalloc n s = Inr (s', p)" if "heap_stocked s"
    using cs that kheap_nr_free [OF l(1)] by cases (auto simp: no_page_def heap_stocked_def)
qed

lemma heap_live_free:
  assumes live: "heap_live a s L" and p: "L p = Some n"
  shows "\<exists>s'. kfree p s = Inr s' \<and> heap_live a s' (L(p := None))"
proof -
  obtain F A where k: "kheap a s F A" and bb: "big_ok (slob s) (A \<union> page_bytes F \<union> extents L)"
    and out: "extents L \<inter> (A \<union> page_bytes F) = {}" and sw: "swap_init_ok s \<longrightarrow> check_mm_struct s = 0"
    and objs: "\<forall>p n. L p = Some n \<longrightarrow> live_obj a (slob s) p n" and ap: "apart_objs L" by (rule heap_liveE [OF live])
  let ?L = "L(p := None)"
  have lo: "live_obj a (slob s) p n" using objs p by blast
  define c where "c = p - 16"
  have c: "p = c + 16" "a + 17 \<le> c" "slob_units s c = int (obj_units n)" "1 \<le> slob_units s c"
    and e: "extent p n = {c..<c + 16 * nat (slob_units s c)}"
    using lo obj_units(2) [of n] by (auto simp: c_def live_obj_def extent_def)
  have pe: "extent p n \<subseteq> extents L" by (rule extents_mem [of L, OF p])
  obtain xs where xs: "bigs (bbs (slob s)) (bigblocks (slob s)) xs" "\<forall>x\<in>set xs. bb_pages (bbs (slob s) x) \<noteq> p"
    using big_ok_mem [OF bb] live_obj_pos [OF lo] pe by blast
  obtain h where h: "kfree p s = Inr (s\<lparr>slob := h\<rparr>)" "kheap a (s\<lparr>slob := h\<rparr>) F (A \<union> extent p n)" "heap_frame (A \<union> extent p n) (slob s) h"
    using kfree_small_ok [OF k c(2,4) _ xs(1)] xs(2) out pe unfolding c(1) [symmetric] e [symmetric] by blast
  have ext: "extents ?L = extents L - extent p n" by (rule extents_del [of L, OF p ap])
  have "live_obj a h q m" if "?L q = Some m" for q m
  proof -
    have q: "L q = Some m" using that by (auto split: if_splits)
    moreover have "extent q m \<inter> (A \<union> extent p n) = {}"
      using extents_mem [of L, OF q] extents_mem [of ?L, OF that] out unfolding ext by blast
    ultimately show ?thesis using objs live_obj_frame [OF _ h(3)] by blast
  qed
  moreover have "big_ok h ((A \<union> extent p n) \<union> page_bytes F \<union> extents ?L)"
    by (rule big_ok_frame [OF bb h(3)]) (use pe ext in blast)
  moreover have "extents ?L \<inter> ((A \<union> extent p n) \<union> page_bytes F) = {}" using out unfolding ext by blast
  moreover note apart_objs_del [OF ap, of p]
  ultimately have "heap_live a (s\<lparr>slob := h\<rparr>) ?L" using h(2) sw unfolding heap_live_def by auto
  with h(1) show ?thesis by blast
qed

interpretation kheap: object_heap kmalloc kfree small "heap_live a" heap_stocked
  for a :: addr
proof unfold_locales
  fix s s' L p q m n
  assume live: "heap_live a s L"
  show "L 0 = None" by (rule heap_live_null [OF live])
  show "{p..<p + m} \<inter> {q..<q + n} = {}" if "L p = Some m" "L q = Some n" "p \<noteq> q"
  proof -
    have "live_obj a (slob s) p m" "live_obj a (slob s) q n" using live that unfolding heap_live_def by blast+
    then have "16 \<le> p" "16 \<le> q" by (auto simp: live_obj_def)
    then show ?thesis using live that extent_obj(1) [of p m] extent_obj(1) [of q n] unfolding heap_live_def apart_objs_def by blast
  qed
  show "L p = None \<and> heap_live a s' (if p = 0 then L else L(p \<mapsto> n))" if "small n" "kmalloc n s = Inr (s', p)"
    by (rule heap_live_malloc(1) [OF live that])
  show "\<exists>s' p. kmalloc n s = Inr (s', p)" if "small n" "heap_stocked s"
    by (rule heap_live_malloc(2) [OF live that])
  show "\<exists>s'. kfree p s = Inr s' \<and> heap_live a s' (L(p := None))" if "p \<in> insert 0 (dom L)"
  proof (cases "p = 0")
    case True
    then show ?thesis using live heap_live_null [OF live] by (simp add: kfree_def fun_upd_idem)
  next
    case False
    then show ?thesis using that heap_live_free [OF live] by blast
  qed
qed


section \<open>Giving a new object back\<close>

lemma kfree_took:
  assumes k: "kheap a s F A" and bb: "big_ok (slob s) (A \<union> page_bytes F)" and sz: "1 \<le> sz"
    and took: "slob_took a s F A (int (obj_units sz)) s' F' c"
  shows "\<exists>s''. kfree (c + 16) s' = Inr s'' \<and> kheap a s'' F' (A \<union> page_bytes (F - F'))"
proof -
  let ?A = "A \<union> page_bytes (F - F')" and ?e = "extent (c + 16) sz"
  note tk = took [unfolded slob_took_def]
  have e: "?e = {c..<c + 16 * nat (slob_units s' c)}" and c: "a + 17 \<le> c" "1 \<le> slob_units s' c"
    using tk obj_units(2) [of sz] by (auto simp: extent_def)
  have sub: "?e \<subseteq> ?A" and fr: "heap_frame ?A (slob s) (slob s')" and k': "kheap a s' F' (?A - ?e)" and F': "F' \<subseteq> F"
    using tk by (auto simp: extent_def)
  note pb = page_bytes_split [OF k F']
  have "big_ok (slob s') ?A" by (rule big_ok_frame [OF bb fr]) (use pb in blast)
  moreover have "c + 16 \<in> ?A" using extent_obj(2) [of sz "c + 16"] sz sub by auto
  ultimately obtain xs where xs: "bigs (bbs (slob s')) (bigblocks (slob s')) xs" "\<forall>x\<in>set xs. bb_pages (bbs (slob s') x) \<noteq> c + 16"
    using big_ok_mem by blast
  have "?e \<inter> (?A - ?e \<union> page_bytes F') = {}" using sub pb k unfolding kheap_def by blast
  then obtain h where "kfree (c + 16) s' = Inr (s'\<lparr>slob := h\<rparr>)" "kheap a (s'\<lparr>slob := h\<rparr>) F' (?A - ?e \<union> ?e)"
    using kfree_small_ok [OF k' c _ xs] unfolding e by blast
  moreover have "?A - ?e \<union> ?e = ?A" using sub by blast
  ultimately show ?thesis by auto
qed

section \<open>Properties\<close>

text \<open>The heap as it starts, with an arena at address 16, beside five free pages.\<close>

definition heap8 :: "free_state \<Rightarrow> mstate" where
  "heap8 f = (mem8_state f)\<lparr>slob := slob_start 16 (slob (mem8_state f))\<rparr>"

lemma heap8_ok: "\<exists>f. kheap 16 (heap8 f) {3..<8} {} \<and> \<not> swap_init_ok (heap8 f) \<and> heap_live 16 (heap8 f) Map.empty"
proof -
  obtain f where f: "minv (mem8_state f) {3..<8}" using mem8_ok by blast
  have "slob_rep 16 (slob (heap8 f)) {}"
    unfolding slob_rep_def by (rule exI [of _ "[]"]) (simp add: heap8_def slob_start_def heap_def)
  moreover have "33 \<le> pg_addr p" if "p \<in> {3..<8}" for p using pg_addr_eq [of p] that by (simp add: nbase_def)
  ultimately have k: "kheap 16 (heap8 f) {3..<8} {}" using f by (auto simp: kheap_def heap8_def)
  moreover have sw: "\<not> swap_init_ok (heap8 f)" by (simp add: heap8_def mem8_state_def)
  moreover have "big_ok (slob (heap8 f)) X" for X
    unfolding big_ok_def by (rule exI [of _ "[]"]) (simp add: heap8_def slob_start_def)
  ultimately show ?thesis unfolding heap_live_def by (intro exI [of _ f]) (auto simp: extents_def apart_objs_def)
qed

text \<open>C16: \<open>kmalloc\<close> of an object of less than a page less two headers, and \<open>kfree\<close>, with swapping off, or on with a NULL
  \<open>check_mm_struct\<close> as in the running kernel.  If no page is free and no free block of the heap is large enough for the object
  and its header, the call returns NULL and changes nothing when swapping is off, and follows a NULL pointer in \<open>swap_out\<close> when it
  is on.  In every other case it returns an object that, with the header before it, lies in bytes that were free, in the heap or in
  pages that \<open>kmalloc\<close> moved from the page allocator to the heap, and exactly the units of object and header leave the
  free bytes; \<open>kfree\<close> of the pointer returns and puts exactly these units back.
\<close>

theorem kmalloc_kfree:
  assumes "kheap a s F A" and "1 \<le> sz" and "sz < 4064" and "swap_init_ok s \<longrightarrow> check_mm_struct s = 0"
    and "big_ok (slob s) (A \<union> page_bytes F)"
  shows "if F = {} \<and> \<not> slob_room a (slob s) A (SLOB_UNITS (sz + SLOB_UNIT))
    then kmalloc sz s = (if swap_init_ok s then Inl (BadPtr ''mm'') else Inr (s, 0))
    else \<exists>s' p F' A' s''. kmalloc sz s = Inr (s', p) \<and> p \<noteq> 0 \<and> F' \<subseteq> F \<and> A' = A \<union> page_bytes (F - F') \<and>
       {p..<p + sz} \<subseteq> extent p sz \<and> extent p sz \<subseteq> A' \<and> kheap a s' F' (A' - extent p sz) \<and>
       kfree p s' = Inr s'' \<and> kheap a s'' F' A'"
proof (cases "F = {} \<and> \<not> slob_room a (slob s) A (int (obj_units sz))")
  case True
  with kmalloc_small_ok [OF assms(1-4)] show ?thesis by (simp add: obj_units(1) no_page_def)
next
  case False
  from kmalloc_small_ok [OF assms(1-4), unfolded if_not_P [OF False]] obtain s' F' c where
    m: "kmalloc sz s = Inr (s', c + 16)" "slob_took a s F A (int (obj_units sz)) s' F' c" by blast
  obtain s'' where "kfree (c + 16) s' = Inr s''" "kheap a s'' F' (A \<union> page_bytes (F - F'))"
    using kfree_took [OF assms(1,5,2) m(2)] by blast
  with m extent_obj(1) [of "c + 16" sz] show ?thesis unfolding obj_units(1) if_not_P [OF False]
    by (intro exI [of _ s'] exI [of _ "c + 16"] exI [of _ F'] exI [of _ "A \<union> page_bytes (F - F')"] exI [of _ s''])
      (auto simp: slob_took_def extent_def)
qed

theorem kmalloc_kfree_witness:
  "\<exists>f s' p s''. kmalloc 100 (heap8 f) = Inr (s', p) \<and> p \<noteq> 0 \<and> kfree p s' = Inr s''"
proof -
  obtain f where f: "kheap 16 (heap8 f) {3..<8} {}" "\<not> swap_init_ok (heap8 f)" "heap_live 16 (heap8 f) Map.empty" using heap8_ok by blast
  then have "big_ok (slob (heap8 f)) ({} \<union> page_bytes {3..<8})"
    unfolding big_ok_def by (intro exI [of _ "[]"]) (simp add: heap8_def slob_start_def)
  from kmalloc_kfree [OF f(1) _ _ _ this, of 100] f(2) show ?thesis by auto
qed

text \<open>C8: the heap under any sequence of calls, with swapping off, or on with a NULL \<open>check_mm_struct\<close> as in the running kernel.
  From a heap in which the live objects \<open>L\<close> lie apart from each other and from the
  free memory, after any sequence of \<open>kmalloc\<close> calls for small objects and \<open>kfree\<close> calls for live pointers (or NULL) that
  returned, two live objects never share a byte; a further \<open>kmalloc\<close> that returns a pointer other than NULL returns an object that
  overlaps no live one, and it does return (possibly NULL) if swapping is off or a page is free; \<open>kfree\<close> of a live pointer returns.
\<close>

theorem kmalloc_calls_safe:
  assumes "heap_live a s L" and "heap_calls kmalloc kfree small s L t M"
  shows "(\<forall>p q m n. M p = Some m \<longrightarrow> M q = Some n \<longrightarrow> p \<noteq> q \<longrightarrow> {p..<p + m} \<inter> {q..<q + n} = {}) \<and>
    (\<forall>n u p. small n \<longrightarrow> kmalloc n t = Inr (u, p) \<longrightarrow> p \<noteq> 0 \<longrightarrow>
       (\<forall>q m. M q = Some m \<longrightarrow> {p..<p + n} \<inter> {q..<q + m} = {})) \<and>
    (\<forall>n. small n \<longrightarrow> \<not> swap_init_ok t \<or> nr_free (fa t) \<noteq> 0 \<longrightarrow> (\<exists>u p. kmalloc n t = Inr (u, p))) \<and>
    (\<forall>p. p = 0 \<or> p \<in> dom M \<longrightarrow> (\<exists>u. kfree p t = Inr u))"
  using kheap.calls_ok [OF assms] unfolding heap_stocked_def insert_iff by (intro conjI allI impI; metis)

theorem kmalloc_calls_safe_witness:
  "\<exists>f s' p s'' q. kmalloc 100 (heap8 f) = Inr (s', p) \<and> p \<noteq> 0 \<and> kmalloc 30 s' = Inr (s'', q) \<and>
     (q \<noteq> 0 \<longrightarrow> {q..<q + 30} \<inter> {p..<p + 100} = {})"
proof -
  obtain f where f: "kheap 16 (heap8 f) {3..<8} {}" "\<not> swap_init_ok (heap8 f)" "heap_live 16 (heap8 f) Map.empty" using heap8_ok by blast
  have sm: "small 100" "small 30" by (simp_all add: small_def)
  obtain s' F' c where c: "kmalloc 100 (heap8 f) = Inr (s', c + 16)" and tk: "slob_took 16 (heap8 f) {3..<8} {} (int (obj_units 100)) s' F' c"
    using kmalloc_small_ok [OF f(1), of 100] f(2) by auto
  have sw: "\<not> swap_init_ok s'" using tk f(2) by (auto simp: slob_took_def)
  have "heap_calls kmalloc kfree small (heap8 f) Map.empty s' (if c + 16 = 0 then Map.empty else Map.empty(c + 16 \<mapsto> 100))"
    by (rule heap_calls.malloc) (rule heap_calls.start sm(1) c)+
  then have "heap_calls kmalloc kfree small (heap8 f) Map.empty s' [c + 16 \<mapsto> 100]" by simp
  note safe = kmalloc_calls_safe [OF f(3) this]
  obtain u q where q: "kmalloc 30 s' = Inr (u, q)" 
    using safe [THEN conjunct2, THEN conjunct2, THEN conjunct1, rule_format, OF sm(2)] sw by auto
  have "{q..<q + 30} \<inter> {c + 16..<c + 16 + 100} = {}" if "q \<noteq> 0"
    using safe [THEN conjunct2, THEN conjunct1, rule_format, OF sm(2) q that, of "c + 16" 100] by simp
  moreover have "c + 16 \<noteq> 0" by simp
  ultimately show ?thesis using c q by blast
qed

end
