(* ===== verification/Proc_State.thy ===== *)
theory Proc_State
  imports Vmm
begin

text \<open>
  The data of kern/process/proc.h and kern/trap/trap.h and the state of the whole kernel: the memory
  subsystem, the process structures, the list of all processes and the hash lists by pid, the
  counters of \<open>get_pid\<close>, and the processor's callee-saved registers.

  A \<open>struct proc_struct *\<close> is a heap address (0 is NULL).  Trap frames live on kernel stacks and are
  kept by their address in \<open>tfs\<close>.  What a suspended process has on its kernel stack is \<open>kont\<close>, the C
  frames that still have work to do once \<open>schedule\<close> returns, and \<open>sched_flag\<close>, the local \<open>intr_flag\<close> of that
  \<open>schedule\<close>.  Addresses of code and of linker symbols are parameters, fields that no operation changes.
\<close>

section \<open>Trap frames and contexts\<close>

datatype reg =
  R_zero | R_ra | R_sp | R_gp | R_tp | R_t0 | R_t1 | R_t2 | R_s0 | R_s1 | R_a0 | R_a1 | R_a2 | R_a3 | R_a4 | R_a5
| R_a6 | R_a7 | R_s2 | R_s3 | R_s4 | R_s5 | R_s6 | R_s7 | R_s8 | R_s9 | R_s10 | R_s11 | R_t3 | R_t4 | R_t5 | R_t6

record trapframe =
  gpr :: "reg \<Rightarrow> u64"
  tf_status :: u64
  tf_epc :: u64
  tf_tval :: u64
  tf_cause :: u64

definition zero_trapframe :: trapframe where
  "zero_trapframe = \<lparr>gpr = (\<lambda>_. 0), tf_status = 0, tf_epc = 0, tf_tval = 0, tf_cause = 0\<rparr>"

definition sizeof_trapframe :: u64 where "sizeof_trapframe = 288"

text \<open>\<open>ctx_s i\<close> is the field \<open>s<i>\<close> of \<open>struct context\<close>.\<close>

record kcontext =
  ctx_ra :: u64
  ctx_sp :: u64
  ctx_s :: "nat \<Rightarrow> u64"

section \<open>Processes\<close>

datatype proc_state = PROC_UNINIT | PROC_SLEEPING | PROC_RUNNABLE | PROC_ZOMBIE

definition PROC_NAME_LEN :: nat where "PROC_NAME_LEN = 15"
definition MAX_PROCESS :: int where "MAX_PROCESS = 4096"
definition MAX_PID :: int where "MAX_PID = MAX_PROCESS * 2"
definition PF_EXITING :: u32 where "PF_EXITING = 1"
definition WT_INTERRUPTED :: u32 where "WT_INTERRUPTED = 0x80000000"
definition WT_CHILD :: u32 where "WT_CHILD = 1 OR WT_INTERRUPTED"
definition CLONE_VM :: u32 where "CLONE_VM = 0x100"
definition CLONE_THREAD :: u32 where "CLONE_THREAD = 0x200"
definition HASH_SHIFT :: nat where "HASH_SHIFT = 10"
definition HASH_LIST_SIZE :: nat where "HASH_LIST_SIZE = 2 ^ HASH_SHIFT"

record proc_struct =
  p_state :: proc_state
  p_pid :: int
  p_runs :: s32
  p_kstack :: u64
  p_need_resched :: bool
  p_parent :: addr
  p_mm :: addr
  p_context :: kcontext
  p_tf :: u64
  p_cr3 :: u64
  p_flags :: u32
  p_name :: "u8 list"
  p_exit_code :: int
  p_wait_state :: u32
  p_cptr :: addr
  p_yptr :: addr
  p_optr :: addr

definition sizeof_proc_struct :: nat where "sizeof_proc_struct = 264"

definition zero_context :: kcontext where "zero_context = \<lparr>ctx_ra = 0, ctx_sp = 0, ctx_s = (\<lambda>_. 0)\<rparr>"

text \<open>\<open>memset(proc, 0, sizeof(struct proc_struct))\<close>; the link fields are in the list stores.\<close>

definition zero_proc :: proc_struct where
  "zero_proc = \<lparr>p_state = PROC_UNINIT, p_pid = 0, p_runs = 0, p_kstack = 0, p_need_resched = False,
     p_parent = 0, p_mm = 0, p_context = zero_context, p_tf = 0, p_cr3 = 0, p_flags = 0,
     p_name = replicate (PROC_NAME_LEN + 1) 0, p_exit_code = 0, p_wait_state = 0,
     p_cptr = 0, p_yptr = 0, p_optr = 0\<rparr>"

section \<open>Kernel state\<close>

datatype proc_ptr = ProcList | ListLink addr
datatype hash_ptr = HashList nat | HashLink addr

text \<open>
  C frames that wait for a \<open>schedule\<close> to return: \<open>do_wait(pid, code_store)\<close> called by a system call, and
  \<open>trap\<close> with its locals \<open>otf\<close> and \<open>in_kernel\<close>.
\<close>

datatype kframe = F_wait int u64 | F_trap u64 bool

record kstate =
  mem :: mstate
  procs :: "addr \<Rightarrow> proc_struct"
  tfs :: "u64 \<Rightarrow> trapframe"
  plinks :: "proc_ptr links"
  hlinks :: "hash_ptr links"
  idleproc :: addr
  initproc :: addr
  current :: addr
  nr_process :: int
  next_safe :: int
  last_pid :: int
  boot_cr3 :: u64
  boot_pgdir :: u64
  cpu :: kcontext
  sched_flag :: "addr \<Rightarrow> bool"
  kont :: "addr \<Rightarrow> kframe list"
  ticks :: u64
  console :: "u8 list"
  forkret_entry :: u64
  proc_run_ret :: u64
  kernel_thread_entry :: u64
  bootstack :: u64

definition upd_proc :: "addr \<Rightarrow> (proc_struct \<Rightarrow> proc_struct) \<Rightarrow> kstate \<Rightarrow> kstate" where
  "upd_proc p f s = s\<lparr>procs := (procs s)(p := f (procs s p))\<rparr>"

definition upd_tf :: "u64 \<Rightarrow> (trapframe \<Rightarrow> trapframe) \<Rightarrow> kstate \<Rightarrow> kstate" where
  "upd_tf a f s = s\<lparr>tfs := (tfs s)(a := f (tfs s a))\<rparr>"

definition set_reg :: "reg \<Rightarrow> u64 \<Rightarrow> trapframe \<Rightarrow> trapframe" where
  "set_reg r v t = t\<lparr>gpr := (gpr t)(r := v)\<rparr>"

text \<open>An operation of the memory subsystem as an operation of the kernel.\<close>

definition on_mem :: "(mstate \<Rightarrow> (mstate \<times> 'a) res) \<Rightarrow> kstate \<Rightarrow> (kstate \<times> 'a) res" where
  "on_mem f s = bindR (f (mem s)) (\<lambda>(m, r). Inr (s\<lparr>mem := m\<rparr>, r))"

definition on_mem0 :: "(mstate \<Rightarrow> mstate res) \<Rightarrow> kstate \<Rightarrow> kstate res" where
  "on_mem0 f s = bindR (f (mem s)) (\<lambda>m. Inr (s\<lparr>mem := m\<rparr>))"

definition k_intr_save :: "kstate \<Rightarrow> bool \<times> kstate" where
  "k_intr_save s = (let (fl, m) = local_intr_save (mem s) in (fl, s\<lparr>mem := m\<rparr>))"

definition k_intr_restore :: "bool \<Rightarrow> kstate \<Rightarrow> kstate" where
  "k_intr_restore fl s = s\<lparr>mem := local_intr_restore fl (mem s)\<rparr>"

definition lcr3 :: "u64 \<Rightarrow> kstate \<Rightarrow> kstate" where
  "lcr3 cr3 s = s\<lparr>mem := (mem s)\<lparr>satp := 0x8000000000000000 OR drop_bit 12 cr3\<rparr>\<rparr>"

end
