(* ===== verification/Proc_Table.thy ===== *)
theory Proc_Table
  imports Proc_State
begin

text \<open>
  The process table of kern/process/proc.c (relation links, pid allocation, the hash lists) and the
  scheduler of kern/schedule/sched.c.
\<close>

section \<open>Relation links\<close>

definition set_links :: "addr \<Rightarrow> kstate \<Rightarrow> kstate" where
  "set_links proc s =
     (let s = s\<lparr>plinks := list_add (plinks s) ProcList (ListLink proc)\<rparr>;
          s = upd_proc proc (\<lambda>p. p\<lparr>p_yptr := 0\<rparr>) s;
          s = upd_proc proc (\<lambda>p. p\<lparr>p_optr := p_cptr (procs s (p_parent p))\<rparr>) s;
          s = (if p_optr (procs s proc) \<noteq> 0
               then upd_proc (p_optr (procs s proc)) (\<lambda>p. p\<lparr>p_yptr := proc\<rparr>) s else s);
          s = upd_proc (p_parent (procs s proc)) (\<lambda>p. p\<lparr>p_cptr := proc\<rparr>) s
      in s\<lparr>nr_process := nr_process s + 1\<rparr>)"

definition remove_links :: "addr \<Rightarrow> kstate \<Rightarrow> kstate" where
  "remove_links proc s =
     (let s = s\<lparr>plinks := list_del (plinks s) (ListLink proc)\<rparr>;
          s = (if p_optr (procs s proc) \<noteq> 0
               then upd_proc (p_optr (procs s proc)) (\<lambda>p. p\<lparr>p_yptr := p_yptr (procs s proc)\<rparr>) s else s);
          s = (if p_yptr (procs s proc) \<noteq> 0
               then upd_proc (p_yptr (procs s proc)) (\<lambda>p. p\<lparr>p_optr := p_optr (procs s proc)\<rparr>) s
               else upd_proc (p_parent (procs s proc)) (\<lambda>p. p\<lparr>p_cptr := p_optr (procs s proc)\<rparr>) s)
      in s\<lparr>nr_process := nr_process s - 1\<rparr>)"

section \<open>Process identifiers\<close>

text \<open>
  The loop of \<open>get_pid\<close> from the entry \<open>le\<close> on; \<open>goto repeat\<close> starts again at the list header.  The
  result is the final \<open>last_pid\<close> and \<open>next_safe\<close>.
\<close>

partial_function (option) pid_loop ::
  "proc_ptr links \<Rightarrow> (addr \<Rightarrow> proc_struct) \<Rightarrow> proc_ptr \<Rightarrow> int \<Rightarrow> int \<Rightarrow> (int \<times> int) option" where
  "pid_loop L P le lp ns =
     (let le = list_next L le
      in case le of
           ProcList \<Rightarrow> Some (lp, ns)
         | ListLink proc \<Rightarrow>
             if p_pid (P proc) = lp then
               if lp + 1 \<ge> ns then pid_loop L P ProcList (if lp + 1 \<ge> MAX_PID then 1 else lp + 1) MAX_PID
               else pid_loop L P le (lp + 1) ns
             else if p_pid (P proc) > lp \<and> ns > p_pid (P proc) then pid_loop L P le lp (p_pid (P proc))
             else pid_loop L P le lp ns)"

declare pid_loop.simps [code]

definition get_pid :: "kstate \<Rightarrow> (kstate \<times> int) res" where
  "get_pid s =
     (let lp = last_pid s + 1 in
      bindR (if lp \<ge> MAX_PID then returned (pid_loop (plinks s) (procs s) ProcList 1 MAX_PID)
             else if lp \<ge> next_safe s then returned (pid_loop (plinks s) (procs s) ProcList lp MAX_PID)
             else Inr (lp, next_safe s)) (\<lambda>(lp, ns).
      Inr (s\<lparr>last_pid := lp, next_safe := ns\<rparr>, lp)))"

section \<open>Hash lists\<close>

definition pid_hashfn :: "int \<Rightarrow> nat" where "pid_hashfn x = unat (hash32 (of_int x) HASH_SHIFT)"

definition hash_proc :: "addr \<Rightarrow> kstate \<Rightarrow> kstate" where
  "hash_proc proc s =
     s\<lparr>hlinks := list_add (hlinks s) (HashList (pid_hashfn (p_pid (procs s proc)))) (HashLink proc)\<rparr>"

definition unhash_proc :: "addr \<Rightarrow> kstate \<Rightarrow> kstate" where
  "unhash_proc proc s = s\<lparr>hlinks := list_del (hlinks s) (HashLink proc)\<rparr>"

partial_function (option) find_proc_loop ::
  "hash_ptr links \<Rightarrow> (addr \<Rightarrow> proc_struct) \<Rightarrow> int \<Rightarrow> nat \<Rightarrow> hash_ptr \<Rightarrow> addr res option" where
  "find_proc_loop L P pid h le =
     (let le = list_next L le
      in if le = HashList h then Some (Inr 0)
         else (case le of
             HashList _ \<Rightarrow> Some (Inl (BadPtr ''le2proc''))
           | HashLink proc \<Rightarrow> if p_pid (P proc) = pid then Some (Inr proc) else find_proc_loop L P pid h le))"

declare find_proc_loop.simps [code]

definition find_proc :: "int \<Rightarrow> kstate \<Rightarrow> addr res" where
  "find_proc pid s =
     (if 0 < pid \<and> pid < MAX_PID
      then bindR (returned (find_proc_loop (hlinks s) (procs s) pid (pid_hashfn pid) (HashList (pid_hashfn pid)))) id
      else Inr 0)"

section \<open>Scheduling\<close>

text \<open>Waking a runnable process prints a warning.\<close>

definition wakeup_proc :: "addr \<Rightarrow> kstate \<Rightarrow> kstate res" where
  "wakeup_proc proc s =
     bindR (assertR (p_state (procs s proc) \<noteq> PROC_ZOMBIE) ''proc->state != PROC_ZOMBIE'') (\<lambda>_.
     let (fl, s) = k_intr_save s;
         s = (if p_state (procs s proc) \<noteq> PROC_RUNNABLE
              then upd_proc proc (\<lambda>p. p\<lparr>p_state := PROC_RUNNABLE, p_wait_state := 0\<rparr>) s else s)
     in Inr (k_intr_restore fl s))"

text \<open>kern/process/switch.S: \<open>ra\<close>, \<open>sp\<close> and the callee-saved registers go to \<open>from\<close> and come from \<open>to\<close>.\<close>

definition switch_to :: "addr \<Rightarrow> addr \<Rightarrow> kstate \<Rightarrow> kstate" where
  "switch_to from to s =
     (let s = upd_proc from (\<lambda>p. p\<lparr>p_context := cpu s\<rparr>) s in s\<lparr>cpu := p_context (procs s to)\<rparr>)"

text \<open>The registers at the entry of \<open>switch_to\<close>: the call has put its return address in \<open>proc_run\<close> into \<open>ra\<close>.\<close>

definition call_regs :: "kstate \<Rightarrow> kcontext" where
  "call_regs s = (cpu s)\<lparr>ctx_ra := proc_run_ret s\<rparr>"

text \<open>
  \<open>proc_run\<close> up to the point where the new process runs; its own \<open>local_intr_restore\<close> does nothing
  there, because \<open>schedule\<close> has switched interrupts off before calling it.
\<close>

definition proc_run :: "addr \<Rightarrow> kstate \<Rightarrow> kstate" where
  "proc_run proc s =
     (if proc \<noteq> current s then
        let (fl, s) = k_intr_save s;
            prev = current s;
            s = s\<lparr>current := proc\<rparr>;
            s = lcr3 (p_cr3 (procs s proc)) s
        in switch_to prev proc (s\<lparr>cpu := call_regs s\<rparr>)
      else s)"

partial_function (option) sched_loop ::
  "proc_ptr links \<Rightarrow> (addr \<Rightarrow> proc_struct) \<Rightarrow> proc_ptr \<Rightarrow> proc_ptr \<Rightarrow> addr \<Rightarrow> addr option" where
  "sched_loop L P lst le nxt =
     (let le = list_next L le
      in case le of
           ProcList \<Rightarrow> if le \<noteq> lst then sched_loop L P lst le nxt else Some nxt
         | ListLink p \<Rightarrow>
             if p_state (P p) = PROC_RUNNABLE then Some p
             else if le \<noteq> lst then sched_loop L P lst le p else Some p)"

declare sched_loop.simps [code]

text \<open>
  \<open>schedule\<close>, up to the point where the chosen process has left it: a process that comes back out of an
  earlier \<open>schedule\<close> restores its own interrupt flag, a process that has just been forked starts at
  \<open>forkret\<close> and takes its status from the trap frame.
\<close>

definition schedule :: "kstate \<Rightarrow> kstate res" where
  "schedule s =
     (let (fl, s) = k_intr_save s;
          s = upd_proc (current s) (\<lambda>p. p\<lparr>p_need_resched := False\<rparr>) s;
          lst = (if current s = idleproc s then ProcList else ListLink (current s))
      in bindR (returned (sched_loop (plinks s) (procs s) lst lst 0)) (\<lambda>nxt.
         let nxt = (if nxt = 0 \<or> p_state (procs s nxt) \<noteq> PROC_RUNNABLE then idleproc s else nxt);
             s = upd_proc nxt (\<lambda>p. p\<lparr>p_runs := p_runs p + 1\<rparr>) s
         in if nxt \<noteq> current s then
              let s = s\<lparr>sched_flag := (sched_flag s)(current s := fl)\<rparr>;
                  s = proc_run nxt s
              in Inr (if ctx_ra (cpu s) = forkret_entry s then s else k_intr_restore (sched_flag s nxt) s)
            else Inr (k_intr_restore fl s)))"

end
