(* ===== verification/Proc.thy ===== *)
theory Proc
  imports Proc_Table
begin

text \<open>
  kern/process/proc.c: creation, forking, exit, waiting, killing and program loading.

  An operation that gives up the processor returns with another process current: \<open>Away\<close>.  What it still
  has to do is kept as a frame in \<open>kont\<close> of the suspended process.
\<close>

datatype 'a ctl = Ret 'a | Away

section \<open>Structures\<close>

definition alloc_proc :: "kstate \<Rightarrow> (kstate \<times> addr) res" where
  "alloc_proc s =
     bindR (on_mem (kmalloc sizeof_proc_struct) s) (\<lambda>(s, proc).
     if proc \<noteq> 0 then
       Inr (upd_proc proc (\<lambda>_. zero_proc\<lparr>p_state := PROC_UNINIT, p_pid := - 1, p_cr3 := boot_cr3 s\<rparr>) s, proc)
     else Inr (s, proc))"

text \<open>\<open>name\<close> is given by the bytes from its address on; 15 of them are read, wherever it ends.\<close>

definition set_proc_name :: "addr \<Rightarrow> (nat \<Rightarrow> u8) \<Rightarrow> kstate \<Rightarrow> kstate" where
  "set_proc_name proc name s =
     upd_proc proc (\<lambda>p. p\<lparr>p_name := map name [0..<PROC_NAME_LEN] @ [0]\<rparr>) s"

definition get_proc_name :: "addr \<Rightarrow> kstate \<Rightarrow> u8 list" where
  "get_proc_name proc s = take PROC_NAME_LEN (p_name (procs s proc)) @ [0]"

definition setup_kstack :: "addr \<Rightarrow> kstate \<Rightarrow> (kstate \<times> int) res" where
  "setup_kstack proc s =
     bindR (on_mem (alloc_pages KSTACKPAGE) s) (\<lambda>(s, page).
     case page of
       Some page \<Rightarrow>
         bindR (page2kva (mem s) page) (\<lambda>kva. Inr (upd_proc proc (\<lambda>p. p\<lparr>p_kstack := kva\<rparr>) s, 0))
     | None \<Rightarrow> Inr (s, - E_NO_MEM))"

definition put_kstack :: "addr \<Rightarrow> kstate \<Rightarrow> kstate res" where
  "put_kstack proc s =
     bindR (kva2page (mem s) (p_kstack (procs s proc))) (\<lambda>page. on_mem0 (free_pages page KSTACKPAGE) s)"

definition setup_pgdir :: "addr \<Rightarrow> kstate \<Rightarrow> (kstate \<times> int) res" where
  "setup_pgdir mm s =
     bindR (on_mem alloc_page s) (\<lambda>(s, page).
     case page of
       None \<Rightarrow> Inr (s, - E_NO_MEM)
     | Some page \<Rightarrow>
         bindR (page2kva (mem s) page) (\<lambda>kva.
         bindR (kva_frame (mem s) kva) (\<lambda>dst.
         bindR (kva_frame (mem s) (boot_pgdir s)) (\<lambda>src.
         Inr (s\<lparr>mem := upd_mm mm (\<lambda>m. m\<lparr>pgdir := kva\<rparr>) (copy_frame dst src (mem s))\<rparr>, 0)))))"

definition put_pgdir :: "addr \<Rightarrow> kstate \<Rightarrow> kstate res" where
  "put_pgdir mm s =
     bindR (kva2page (mem s) (pgdir (mms (mem s) mm))) (\<lambda>page. on_mem0 (free_page page) s)"

section \<open>Forking\<close>

text \<open>
  The loop of \<open>lock\<close> yields until the lock is free.  Only \<open>copy_mm\<close> takes an \<open>mm_lock\<close>, and it does not
  yield before it has released it, so the first attempt succeeds; a lock that is taken would never
  be released, \<open>Hang\<close>.
\<close>

definition lock_mm :: "addr \<Rightarrow> mstate \<Rightarrow> mstate res" where
  "lock_mm mm m = (let (m, ok) = try_lock_mm mm m in if ok then Inr m else Inl Hang)"

text \<open>The label \<open>good_mm\<close> and the three cleanup labels of \<open>copy_mm\<close>.\<close>

definition share_mm :: "addr \<Rightarrow> addr \<Rightarrow> kstate \<Rightarrow> (kstate \<times> int) res" where
  "share_mm mm proc s =
     (let s = s\<lparr>mem := fst (mm_count_inc mm (mem s))\<rparr>;
          s = upd_proc proc (\<lambda>p. p\<lparr>p_mm := mm\<rparr>) s
      in bindR (PADDR (pgdir (mms (mem s) mm))) (\<lambda>cr3.
         Inr (upd_proc proc (\<lambda>p. p\<lparr>p_cr3 := cr3\<rparr>) s, 0)))"

definition drop_pgdir_mm :: "addr \<Rightarrow> int \<Rightarrow> kstate \<Rightarrow> (kstate \<times> int) res" where
  "drop_pgdir_mm mm ret s =
     bindR (put_pgdir mm s) (\<lambda>s. bindR (on_mem0 (mm_destroy mm) s) (\<lambda>s. Inr (s, ret)))"

definition drop_mmap_mm :: "addr \<Rightarrow> int \<Rightarrow> kstate \<Rightarrow> (kstate \<times> int) res" where
  "drop_mmap_mm mm ret s = bindR (on_mem0 (exit_mmap mm) s) (\<lambda>s. drop_pgdir_mm mm ret s)"

definition copy_mm :: "u32 \<Rightarrow> addr \<Rightarrow> kstate \<Rightarrow> (kstate \<times> int) res" where
  "copy_mm clone_flags proc s =
     (let oldmm = p_mm (procs s (current s)) in
      if oldmm = 0 then Inr (s, 0)
      else if clone_flags AND CLONE_VM \<noteq> 0 then share_mm oldmm proc s
      else
        bindR (on_mem mm_create s) (\<lambda>(s, mm).
        if mm = 0 then Inr (s, - E_NO_MEM)
        else
          bindR (setup_pgdir mm s) (\<lambda>(s, r).
          if r \<noteq> 0 then bindR (on_mem0 (mm_destroy mm) s) (\<lambda>s. Inr (s, - E_NO_MEM))
          else
            bindR (on_mem0 (lock_mm oldmm) s) (\<lambda>s.
            bindR (on_mem (dup_mmap mm oldmm) s) (\<lambda>(s, ret).
            bindR (on_mem0 (unlock_mm oldmm) s) (\<lambda>s.
            if ret \<noteq> 0 then drop_mmap_mm mm ret s else share_mm mm proc s))))))"

definition copy_thread :: "addr \<Rightarrow> u64 \<Rightarrow> trapframe \<Rightarrow> kstate \<Rightarrow> kstate" where
  "copy_thread proc esp tf s =
     (let a = p_kstack (procs s proc) + KSTACKSIZE - sizeof_trapframe;
          s = upd_proc proc (\<lambda>p. p\<lparr>p_tf := a\<rparr>) s;
          s = upd_tf a (\<lambda>_. set_reg R_sp (if esp = 0 then a else esp) (set_reg R_a0 0 tf)) s
      in upd_proc proc (\<lambda>p. p\<lparr>p_context := (p_context p)\<lparr>ctx_ra := forkret_entry s, ctx_sp := a\<rparr>\<rparr>) s)"

text \<open>The part of \<open>do_fork\<close> after the child's resources are there.\<close>

definition fork_link :: "addr \<Rightarrow> kstate \<Rightarrow> (kstate \<times> int) res" where
  "fork_link proc s =
     (let (fl, s) = k_intr_save s in
      bindR (get_pid s) (\<lambda>(s, pid).
      let s = upd_proc proc (\<lambda>p. p\<lparr>p_pid := pid\<rparr>) s;
          s = set_links proc (hash_proc proc s);
          s = k_intr_restore fl s in
      bindR (wakeup_proc proc s) (\<lambda>s. Inr (s, p_pid (procs s proc)))))"

definition do_fork :: "u32 \<Rightarrow> u64 \<Rightarrow> trapframe \<Rightarrow> kstate \<Rightarrow> (kstate \<times> int) res" where
  "do_fork clone_flags stack tf s =
     (if nr_process s \<ge> MAX_PROCESS then Inr (s, - E_NO_FREE_PROC)
      else
        bindR (alloc_proc s) (\<lambda>(s, proc).
        if proc = 0 then Inr (s, - E_NO_MEM)
        else
          let s = upd_proc proc (\<lambda>p. p\<lparr>p_parent := current s\<rparr>) s in
          bindR (setup_kstack proc s) (\<lambda>(s, r).
          if r \<noteq> 0 then
            bindR (put_kstack proc s) (\<lambda>s.
            bindR (on_mem0 (kfree proc) s) (\<lambda>s. Inr (s, - E_NO_MEM)))
          else
            bindR (copy_mm clone_flags proc s) (\<lambda>(s, r).
            if r \<noteq> 0 then bindR (on_mem0 (kfree proc) s) (\<lambda>s. Inr (s, - E_NO_MEM))
            else fork_link proc (copy_thread proc stack tf s)))))"

definition kernel_thread :: "u64 \<Rightarrow> u64 \<Rightarrow> u32 \<Rightarrow> kstate \<Rightarrow> (kstate \<times> int) res" where
  "kernel_thread fn arg clone_flags s =
     (let tf = set_reg R_s1 arg (set_reg R_s0 fn zero_trapframe);
          tf = tf\<lparr>tf_status := (sstatus (mem s) OR SSTATUS_SPP OR SSTATUS_SPIE) AND NOT SSTATUS_SIE,
                  tf_epc := kernel_thread_entry s\<rparr>
      in do_fork (clone_flags OR CLONE_VM) 0 tf s)"

section \<open>Exit\<close>

text \<open>Leaving the address space, shared with \<open>do_execve\<close>.\<close>

definition leave_mm :: "kstate \<Rightarrow> kstate res" where
  "leave_mm s =
     (let mm = p_mm (procs s (current s)) in
      if mm \<noteq> 0 then
        let s = lcr3 (boot_cr3 s) s;
            (m, cnt) = mm_count_dec mm (mem s);
            s = s\<lparr>mem := m\<rparr> in
        bindR (if cnt = 0 then bindR (drop_mmap_mm mm 0 s) (\<lambda>(s, _). Inr s) else Inr s) (\<lambda>s.
        Inr (upd_proc (current s) (\<lambda>p. p\<lparr>p_mm := 0\<rparr>) s))
      else Inr s)"

text \<open>The loop that hands the children of \<open>cur\<close> to \<open>initproc\<close>.\<close>

definition adopt :: "addr \<Rightarrow> addr \<Rightarrow> kstate \<Rightarrow> kstate res" where
  "adopt cur proc s =
     (let ini = initproc s;
          s = upd_proc cur (\<lambda>p. p\<lparr>p_cptr := p_optr (procs s proc)\<rparr>) s;
          s = upd_proc proc (\<lambda>p. p\<lparr>p_yptr := 0\<rparr>) s;
          s = upd_proc proc (\<lambda>p. p\<lparr>p_optr := p_cptr (procs s ini)\<rparr>) s;
          s = (if p_optr (procs s proc) \<noteq> 0
               then upd_proc (p_cptr (procs s ini)) (\<lambda>p. p\<lparr>p_yptr := proc\<rparr>) s else s);
          s = upd_proc proc (\<lambda>p. p\<lparr>p_parent := ini\<rparr>) s;
          s = upd_proc ini (\<lambda>p. p\<lparr>p_cptr := proc\<rparr>) s
      in if p_state (procs s proc) = PROC_ZOMBIE \<and> p_wait_state (procs s ini) = WT_CHILD
         then wakeup_proc ini s else Inr s)"

partial_function (option) adopt_loop :: "addr \<Rightarrow> kstate \<Rightarrow> kstate res option" where
  "adopt_loop cur s =
     (if p_cptr (procs s cur) = 0 then Some (Inr s)
      else (case adopt cur (p_cptr (procs s cur)) s of
              Inl e \<Rightarrow> Some (Inl e)
            | Inr s \<Rightarrow> adopt_loop cur s))"

declare adopt_loop.simps [code]

text \<open>\<open>do_exit\<close> up to its call of \<open>schedule\<close>.\<close>

definition exit_links :: "kstate \<Rightarrow> kstate res" where
  "exit_links s =
     (let (fl, s) = k_intr_save s;
          cur = current s;
          par = p_parent (procs s cur) in
      bindR (if p_wait_state (procs s par) = WT_CHILD then wakeup_proc par s else Inr s) (\<lambda>s.
      bindR (bindR (returned (adopt_loop cur s)) id) (\<lambda>s.
      Inr (k_intr_restore fl s))))"

definition exit_state :: "int \<Rightarrow> kstate \<Rightarrow> kstate" where
  "exit_state error_code s =
     upd_proc (current s) (\<lambda>p. p\<lparr>p_state := PROC_ZOMBIE, p_exit_code := error_code\<rparr>) s"

definition do_exit :: "int \<Rightarrow> kstate \<Rightarrow> (kstate \<times> int ctl) res" where
  "do_exit error_code s =
     (if current s = idleproc s then Inl (Panic ''idleproc exit.'')
      else if current s = initproc s then Inl (Panic ''initproc exit.'')
      else
        bindR (leave_mm s) (\<lambda>s.
        bindR (exit_links (exit_state error_code s)) (\<lambda>s.
        bindR (schedule s) (\<lambda>t.
        if current t = current s then Inl (Panic ''do_exit will not return!!'')
        else Inr (t, Away)))))"

end
