(* ===== verification/Proc_Exec.thy ===== *)
theory Proc_Exec
  imports Proc
begin

text \<open>
  The rest of kern/process/proc.c: program loading and \<open>execve\<close>, waiting for children, killing, and the
  creation of the first two processes; and, because the kernel's own accesses to user memory can
  fault, the page fault handler of kern/trap/trap.c.
\<close>

section \<open>Bytes of physical memory\<close>

definition wr_byte :: "nat \<Rightarrow> nat \<Rightarrow> u8 \<Rightarrow> mstate \<Rightarrow> mstate" where
  "wr_byte frame off b m =
     (let sh = 8 * (off mod 8); w = pmem m frame (off div 8)
      in wr (frame, off div 8) ((w AND NOT (push_bit sh 0xFF)) OR push_bit sh (ucast b)) m)"

definition rd_byte :: "nat \<Rightarrow> nat \<Rightarrow> mstate \<Rightarrow> u8" where
  "rd_byte frame off m = ucast (drop_bit (8 * (off mod 8)) (pmem m frame (off div 8)))"

text \<open>\<open>memcpy\<close> and \<open>memset\<close> to \<open>page2kva(page) + off\<close>; a run past the page leaves the frame.\<close>

fun wr_bytes :: "nat \<Rightarrow> nat \<Rightarrow> u8 list \<Rightarrow> mstate \<Rightarrow> mstate" where
  "wr_bytes frame off [] m = m"
| "wr_bytes frame off (b # bs) m = wr_bytes frame (Suc off) bs (wr_byte (frame + off div 4096) (off mod 4096) b m)"

section \<open>Page faults taken by the kernel\<close>

definition CAUSE_STORE_PAGE_FAULT :: u64 where "CAUSE_STORE_PAGE_FAULT = 0xf"

definition pgfault_handler :: "u64 \<Rightarrow> u64 \<Rightarrow> kstate \<Rightarrow> (kstate \<times> int) res" where
  "pgfault_handler cause tval s =
     (if check_mm_struct (mem s) \<noteq> 0 then
        bindR (assertR (current s = idleproc s) ''current == idleproc'') (\<lambda>_.
        on_mem (do_pgfault (check_mm_struct (mem s)) cause tval) s)
      else if current s = 0 then Inl (Panic ''unhandled page fault.'')
      else on_mem (do_pgfault (p_mm (procs s (current s))) cause tval) s)"

text \<open>
  A store of the kernel to a virtual address: the direct map, or the page table \<open>satp\<close> names.  A page that
  is not writable there raises a store page fault, whose handler panics unless it returns 0; then
  the instruction is executed again.
\<close>

definition satp_root :: "mstate \<Rightarrow> u64" where
  "satp_root m = push_bit 12 (satp m AND 0xFFFFFFFFFFF) + va_pa_offset"

partial_function (option) store_byte :: "u64 \<Rightarrow> u8 \<Rightarrow> kstate \<Rightarrow> kstate res option" where
  "store_byte va b s =
     (if va \<ge> KERNBASE then
        (case kva_frame (mem s) va of
           Inl e \<Rightarrow> Some (Inl e)
         | Inr frame \<Rightarrow> Some (Inr (s\<lparr>mem := wr_byte frame (unat (PGOFF va)) b (mem s)\<rparr>)))
      else
        (case get_pte_with no_alloc (satp_root (mem s)) va False (mem s) of
           Inl e \<Rightarrow> Some (Inl e)
         | Inr r \<Rightarrow>
             (case snd r of
                Some p \<Rightarrow>
                  if rd (mem s) p AND (PTE_V OR PTE_W) = PTE_V OR PTE_W
                  then Some (Inr (s\<lparr>mem := wr_byte (unat (PPN (PTE_ADDR (rd (mem s) p)))) (unat (PGOFF va)) b (mem s)\<rparr>))
                  else (case pgfault_handler CAUSE_STORE_PAGE_FAULT va s of
                          Inl e \<Rightarrow> Some (Inl e)
                        | Inr q \<Rightarrow> if snd q \<noteq> 0 then Some (Inl (Panic ''handle pgfault failed.'')) else store_byte va b (fst q))
              | None \<Rightarrow>
                  (case pgfault_handler CAUSE_STORE_PAGE_FAULT va s of
                     Inl e \<Rightarrow> Some (Inl e)
                   | Inr q \<Rightarrow> if snd q \<noteq> 0 then Some (Inl (Panic ''handle pgfault failed.'')) else store_byte va b (fst q)))))"

declare store_byte.simps [code]

fun store_bytes :: "u64 \<Rightarrow> u8 list \<Rightarrow> kstate \<Rightarrow> kstate res" where
  "store_bytes va [] s = Inr s"
| "store_bytes va (b # bs) s = bindR (bindR (returned (store_byte va b s)) id) (store_bytes (va + 1) bs)"

definition int_bytes :: "int \<Rightarrow> u8 list" where
  "int_bytes v = map (\<lambda>i. of_int (v div 2 ^ (8 * i))) [0..<4]"

section \<open>Program images\<close>

text \<open>
  \<open>vm\<close> gives the bytes the kernel reads at virtual addresses: the image lies in the kernel's own data and
  does not change while it is loaded.
\<close>

definition rd_le :: "bmem \<Rightarrow> u64 \<Rightarrow> nat \<Rightarrow> u64" where
  "rd_le vm a n = foldr (\<lambda>i acc. ucast (vm (a + of_nat i)) + 256 * acc) [0..<n] 0"

record elfhdr =
  e_magic :: u32
  e_entry :: u64
  e_phoff :: u64
  e_phnum :: u16

record proghdr =
  ph_type :: u32
  ph_flags :: u32
  ph_offset :: u64
  ph_va :: u64
  ph_filesz :: u64
  ph_memsz :: u64

definition ELF_MAGIC :: u32 where "ELF_MAGIC = 0x464C457F"
definition ELF_PT_LOAD :: u32 where "ELF_PT_LOAD = 1"
definition ELF_PF_X :: u32 where "ELF_PF_X = 1"
definition ELF_PF_W :: u32 where "ELF_PF_W = 2"
definition ELF_PF_R :: u32 where "ELF_PF_R = 4"

definition read_elfhdr :: "bmem \<Rightarrow> u64 \<Rightarrow> elfhdr" where
  "read_elfhdr vm a = \<lparr>e_magic = ucast (rd_le vm a 4), e_entry = rd_le vm (a + 24) 8,
     e_phoff = rd_le vm (a + 32) 8, e_phnum = ucast (rd_le vm (a + 56) 2)\<rparr>"

definition sizeof_proghdr :: u64 where "sizeof_proghdr = 56"

definition read_proghdr :: "bmem \<Rightarrow> u64 \<Rightarrow> proghdr" where
  "read_proghdr vm a = \<lparr>ph_type = ucast (rd_le vm a 4), ph_flags = ucast (rd_le vm (a + 4) 4),
     ph_offset = rd_le vm (a + 8) 8, ph_va = rd_le vm (a + 16) 8,
     ph_filesz = rd_le vm (a + 32) 8, ph_memsz = rd_le vm (a + 40) 8\<rparr>"

definition seg_vm_flags :: "proghdr \<Rightarrow> u32" where
  "seg_vm_flags ph =
     (if ph_flags ph AND ELF_PF_X \<noteq> 0 then VM_EXEC else 0) OR
     (if ph_flags ph AND ELF_PF_W \<noteq> 0 then VM_WRITE else 0) OR
     (if ph_flags ph AND ELF_PF_R \<noteq> 0 then VM_READ else 0)"

definition seg_perm :: "u32 \<Rightarrow> u64" where
  "seg_perm fl =
     PTE_U OR PTE_V OR
     (if fl AND VM_READ \<noteq> 0 then PTE_R else 0) OR
     (if fl AND VM_WRITE \<noteq> 0 then PTE_W OR PTE_R else 0) OR
     (if fl AND VM_EXEC \<noteq> 0 then PTE_X else 0)"

text \<open>
  The two page loops of \<open>load_icode\<close>: (3.6.1) takes its bytes from the image, the last loop of (3.6.2)
  writes zeros.  \<open>src i\<close> is the byte for the address \<open>i\<close> of the process; the result is the state, \<open>start\<close>, \<open>la\<close>,
  the last \<open>page\<close>, and whether a page could not be allocated.
\<close>

definition piece_size :: "u64 \<Rightarrow> u64 \<Rightarrow> u64 \<Rightarrow> u64" where
  "piece_size start en la =
     (let sz = PGSIZE - (start - la); la = la + PGSIZE in if en < la then sz - (la - en) else sz)"

definition fill_page :: "nat \<Rightarrow> u64 \<Rightarrow> u8 list \<Rightarrow> mstate \<Rightarrow> mstate res" where
  "fill_page page off bs m =
     bindR (page2kva m page) (\<lambda>kva.
     bindR (kva_frame m kva) (\<lambda>frame. Inr (wr_bytes frame (unat off) bs m)))"

partial_function (option) load_pages ::
  "(u64 \<Rightarrow> u8) \<Rightarrow> u64 \<Rightarrow> u64 \<Rightarrow> u64 \<Rightarrow> u64 \<Rightarrow> u64 \<Rightarrow> nat option \<Rightarrow> mstate \<Rightarrow>
   (mstate \<times> u64 \<times> u64 \<times> nat option \<times> bool) res option" where
  "load_pages src pd perm start en la page m =
     (if start < en then
        (case pgdir_alloc_page pd la perm m of
           Inl e \<Rightarrow> Some (Inl e)
         | Inr r \<Rightarrow>
             (case snd r of
                None \<Rightarrow> Some (Inr (fst r, start, la, page, False))
              | Some pg \<Rightarrow>
                  (let sz = piece_size start en la
                   in case fill_page pg (start - la) (map (\<lambda>i. src (start + of_nat i)) [0..<unat sz]) (fst r) of
                        Inl e \<Rightarrow> Some (Inl e)
                      | Inr m \<Rightarrow> load_pages src pd perm (start + sz) en (la + PGSIZE) (Some pg) m)))
      else Some (Inr (m, start, la, page, True)))"

declare load_pages.simps [code]

text \<open>The rest of the last file page is cleared, (3.6.2); the result is the state and \<open>start\<close>.\<close>

definition bss_head :: "nat option \<Rightarrow> u64 \<Rightarrow> u64 \<Rightarrow> u64 \<Rightarrow> mstate \<Rightarrow> (mstate \<times> u64) res" where
  "bss_head page start en la m =
     (let off = start + PGSIZE - la;
          sz = PGSIZE - off;
          sz = (if en < la then sz - (la - en) else sz) in
      case page of
        None \<Rightarrow> Inl (BadPtr ''page'')
      | Some page \<Rightarrow>
          bindR (fill_page page off (replicate (unat sz) 0) m) (\<lambda>m.
          bindR (assertR ((en < la \<and> start + sz = en) \<or> (en \<ge> la \<and> start + sz = la))
                   ''(end < la && start == end) || (end >= la && start == la)'') (\<lambda>_.
          Inr (m, start + sz))))"

definition load_bss ::
  "u64 \<Rightarrow> u64 \<Rightarrow> u64 \<Rightarrow> u64 \<Rightarrow> u64 \<Rightarrow> nat option \<Rightarrow> mstate \<Rightarrow> (mstate \<times> bool) res" where
  "load_bss pd perm start en la page m =
     (if start < la \<and> start = en then Inr (m, True)
      else
        bindR (if start < la then bss_head page start en la m else Inr (m, start)) (\<lambda>(m, start).
        bindR (bindR (returned (load_pages (\<lambda>_. 0) pd perm start en la page m)) id) (\<lambda>(m, _, _, _, ok).
        Inr (m, ok))))"

text \<open>One program header: the return code, 0 to go on.\<close>

definition load_segment :: "bmem \<Rightarrow> u64 \<Rightarrow> addr \<Rightarrow> proghdr \<Rightarrow> mstate \<Rightarrow> (mstate \<times> int) res" where
  "load_segment vm binary mm ph m =
     (if ph_type ph \<noteq> ELF_PT_LOAD then Inr (m, 0)
      else if ph_filesz ph > ph_memsz ph then Inr (m, - E_INVAL_ELF)
      else
        let fl = seg_vm_flags ph; perm = seg_perm fl in
        bindR (mm_map mm (ph_va ph) (ph_memsz ph) fl m) (\<lambda>(m, _, ret).
        if ret \<noteq> 0 then Inr (m, ret)
        else
          let pd = pgdir (mms m mm);
              from = binary + ph_offset ph;
              start = ph_va ph;
              la = ROUNDDOWN start PGSIZE in
          bindR (bindR (returned
                   (load_pages (\<lambda>a. vm (from + (a - start))) pd perm start (start + ph_filesz ph) la None m)) id)
            (\<lambda>(m, start', la, page, ok).
          if \<not> ok then Inr (m, - E_NO_MEM)
          else
            bindR (load_bss pd perm start' (start + ph_memsz ph) la page m) (\<lambda>(m, ok).
            Inr (m, if ok then 0 else - E_NO_MEM)))))"

fun load_segments :: "bmem \<Rightarrow> u64 \<Rightarrow> addr \<Rightarrow> nat \<Rightarrow> u64 \<Rightarrow> mstate \<Rightarrow> (mstate \<times> int) res" where
  "load_segments vm binary mm 0 ph m = Inr (m, 0)"
| "load_segments vm binary mm (Suc n) ph m =
     bindR (load_segment vm binary mm (read_proghdr vm ph) m) (\<lambda>(m, ret).
     if ret \<noteq> 0 then Inr (m, ret) else load_segments vm binary mm n (ph + sizeof_proghdr) m)"

text \<open>The four \<open>assert(pgdir_alloc_page(...) != NULL)\<close> of part (4).\<close>

fun stack_pages :: "u64 \<Rightarrow> u64 list \<Rightarrow> mstate \<Rightarrow> mstate res" where
  "stack_pages pd [] m = Inr m"
| "stack_pages pd (la # las) m =
     bindR (pgdir_alloc_page pd la PTE_USER m) (\<lambda>(m, page).
     bindR (assertR (page \<noteq> None) ''pgdir_alloc_page(mm->pgdir, ...) != NULL'') (\<lambda>_. stack_pages pd las m))"

definition user_trapframe :: "u64 \<Rightarrow> trapframe \<Rightarrow> trapframe" where
  "user_trapframe entry tf =
     (set_reg R_sp USTACKTOP zero_trapframe)\<lparr>tf_epc := entry,
        tf_status := (tf_status tf AND NOT SSTATUS_SPP) OR SSTATUS_SPIE\<rparr>"

definition load_icode :: "bmem \<Rightarrow> u64 \<Rightarrow> u64 \<Rightarrow> kstate \<Rightarrow> (kstate \<times> int) res" where
  "load_icode vm binary sz s =
     (if p_mm (procs s (current s)) \<noteq> 0 then Inl (Panic ''load_icode: current->mm must be empty.'')
      else
        bindR (on_mem mm_create s) (\<lambda>(s, mm).
        if mm = 0 then Inr (s, - E_NO_MEM)
        else
          bindR (setup_pgdir mm s) (\<lambda>(s, r).
          if r \<noteq> 0 then bindR (on_mem0 (mm_destroy mm) s) (\<lambda>s. Inr (s, - E_NO_MEM))
          else
            let elf = read_elfhdr vm binary in
            if e_magic elf \<noteq> ELF_MAGIC then drop_pgdir_mm mm (- E_INVAL_ELF) s
            else
              bindR (on_mem (load_segments vm binary mm (unat (e_phnum elf)) (binary + e_phoff elf)) s) (\<lambda>(s, ret).
              if ret \<noteq> 0 then drop_mmap_mm mm ret s
              else
                bindR (on_mem (\<lambda>m. bindR (mm_map mm (USTACKTOP - USTACKSIZE) USTACKSIZE (VM_READ OR VM_WRITE OR VM_STACK) m)
                         (\<lambda>(m, _, r). Inr (m, r))) s) (\<lambda>(s, ret).
                if ret \<noteq> 0 then drop_mmap_mm mm ret s
                else
                  bindR (on_mem0 (\<lambda>m. stack_pages (pgdir (mms m mm))
                          [USTACKTOP - PGSIZE, USTACKTOP - 2 * PGSIZE, USTACKTOP - 3 * PGSIZE, USTACKTOP - 4 * PGSIZE] m) s) (\<lambda>s.
                  let s = s\<lparr>mem := fst (mm_count_inc mm (mem s))\<rparr>;
                      s = upd_proc (current s) (\<lambda>p. p\<lparr>p_mm := mm\<rparr>) s in
                  bindR (PADDR (pgdir (mms (mem s) mm))) (\<lambda>cr3.
                  let s = upd_proc (current s) (\<lambda>p. p\<lparr>p_cr3 := cr3\<rparr>) s;
                      s = lcr3 cr3 s
                  in Inr (upd_tf (p_tf (procs s (current s))) (user_trapframe (e_entry elf)) s, 0))))))))"

definition do_execve :: "bmem \<Rightarrow> u64 \<Rightarrow> u64 \<Rightarrow> u64 \<Rightarrow> u64 \<Rightarrow> kstate \<Rightarrow> (kstate \<times> int ctl) res" where
  "do_execve vm name len binary sz s =
     bindR (on_mem (user_mem_check (p_mm (procs s (current s))) name len False) s) (\<lambda>(s, ok).
     if \<not> ok then Inr (s, Ret (- E_INVAL))
     else
       let len = min (unat len) PROC_NAME_LEN;
           local_name = (\<lambda>i. if i < len then vm (name + of_nat i) else 0) in
       bindR (leave_mm s) (\<lambda>s.
       bindR (load_icode vm binary sz s) (\<lambda>(s, ret).
       if ret \<noteq> 0 then do_exit ret s
       else Inr (set_proc_name (current s) local_name s, Ret 0))))"

section \<open>Waiting and killing\<close>

definition do_yield :: "kstate \<Rightarrow> kstate \<times> int" where
  "do_yield s = (upd_proc (current s) (\<lambda>p. p\<lparr>p_need_resched := True\<rparr>) s, 0)"

text \<open>The search over the children for \<open>pid = 0\<close>: \<open>haskid\<close>, and the zombie if there is one.\<close>

partial_function (option) zombie_loop :: "(addr \<Rightarrow> proc_struct) \<Rightarrow> addr \<Rightarrow> bool \<Rightarrow> (bool \<times> addr) option" where
  "zombie_loop P proc haskid =
     (if proc = 0 then Some (haskid, 0)
      else if p_state (P proc) = PROC_ZOMBIE then Some (True, proc)
      else zombie_loop P (p_optr (P proc)) True)"

declare zombie_loop.simps [code]

definition find_zombie :: "int \<Rightarrow> kstate \<Rightarrow> (bool \<times> addr) res" where
  "find_zombie pid s =
     (if pid \<noteq> 0 then
        bindR (find_proc pid s) (\<lambda>proc.
        Inr (if proc \<noteq> 0 \<and> p_parent (procs s proc) = current s
             then (True, if p_state (procs s proc) = PROC_ZOMBIE then proc else 0)
             else (False, 0)))
      else returned (zombie_loop (procs s) (p_cptr (procs s (current s))) False))"

text \<open>The code after the label \<open>found\<close>.\<close>

definition reap :: "addr \<Rightarrow> u64 \<Rightarrow> kstate \<Rightarrow> kstate res" where
  "reap proc code_store s =
     (if proc = idleproc s \<or> proc = initproc s then Inl (Panic ''wait idleproc or initproc.'')
      else
        bindR (if code_store \<noteq> 0 then store_bytes code_store (int_bytes (p_exit_code (procs s proc))) s
               else Inr s) (\<lambda>s.
        let (fl, s) = k_intr_save s;
            s = remove_links proc (unhash_proc proc s);
            s = k_intr_restore fl s in
        bindR (put_kstack proc s) (\<lambda>s. on_mem0 (kfree proc) s)))"

text \<open>
  From the label \<open>repeat\<close>: sleeping suspends the caller with a frame from which it goes on, and the
  code after \<open>schedule\<close> is \<open>wait_resume\<close>.
\<close>

definition wait_repeat :: "int \<Rightarrow> u64 \<Rightarrow> kstate \<Rightarrow> (kstate \<times> int ctl) res" where
  "wait_repeat pid code_store s =
     bindR (find_zombie pid s) (\<lambda>(haskid, proc).
     if proc \<noteq> 0 then bindR (reap proc code_store s) (\<lambda>s. Inr (s, Ret 0))
     else if haskid then
       let s = upd_proc (current s) (\<lambda>p. p\<lparr>p_state := PROC_SLEEPING, p_wait_state := WT_CHILD\<rparr>) s;
           s = s\<lparr>kont := (kont s)(current s := F_wait pid code_store # kont s (current s))\<rparr>
       in bindR (schedule s) (\<lambda>s. Inr (s, Away))
     else Inr (s, Ret (- E_BAD_PROC)))"

definition do_wait :: "int \<Rightarrow> u64 \<Rightarrow> kstate \<Rightarrow> (kstate \<times> int ctl) res" where
  "do_wait pid code_store s =
     bindR (if code_store \<noteq> 0
            then on_mem (user_mem_check (p_mm (procs s (current s))) code_store 4 True) s
            else Inr (s, True)) (\<lambda>(s, ok).
     if \<not> ok then Inr (s, Ret (- E_INVAL)) else wait_repeat pid code_store s)"

definition wait_resume :: "int \<Rightarrow> u64 \<Rightarrow> kstate \<Rightarrow> (kstate \<times> int ctl) res" where
  "wait_resume pid code_store s =
     (if p_flags (procs s (current s)) AND PF_EXITING \<noteq> 0 then do_exit (- E_KILLED) s
      else wait_repeat pid code_store s)"

definition do_kill :: "int \<Rightarrow> kstate \<Rightarrow> (kstate \<times> int) res" where
  "do_kill pid s =
     bindR (find_proc pid s) (\<lambda>proc.
     if proc \<noteq> 0 then
       if p_flags (procs s proc) AND PF_EXITING = 0 then
         let s = upd_proc proc (\<lambda>p. p\<lparr>p_flags := p_flags p OR PF_EXITING\<rparr>) s in
         bindR (if p_wait_state (procs s proc) AND WT_INTERRUPTED \<noteq> 0 then wakeup_proc proc s else Inr s)
           (\<lambda>s. Inr (s, 0))
       else Inr (s, - E_KILLED)
     else Inr (s, - E_INVAL))"

section \<open>The first processes\<close>

definition name_bytes :: "string \<Rightarrow> nat \<Rightarrow> u8" where
  "name_bytes str i = (if i < length str then ch (str ! i) else 0)"

text \<open>\<open>init_main\<close> is the address of the thread function.\<close>

definition proc_init :: "u64 \<Rightarrow> kstate \<Rightarrow> kstate res" where
  "proc_init init_main s =
     (let s = s\<lparr>plinks := list_init (plinks s) ProcList\<rparr>;
          s = s\<lparr>hlinks := foldl (\<lambda>L i. list_init L (HashList i)) (hlinks s) [0..<HASH_LIST_SIZE]\<rparr> in
      bindR (alloc_proc s) (\<lambda>(s, idle).
      if idle = 0 then Inl (Panic ''cannot alloc idleproc.'')
      else
        let s = s\<lparr>idleproc := idle\<rparr>;
            s = upd_proc idle (\<lambda>p. p\<lparr>p_pid := 0, p_state := PROC_RUNNABLE, p_kstack := bootstack s,
                                     p_need_resched := True\<rparr>) s;
            s = set_proc_name idle (name_bytes ''idle'') s;
            s = s\<lparr>nr_process := nr_process s + 1, current := idle\<rparr> in
        bindR (kernel_thread init_main 0 0 s) (\<lambda>(s, pid).
        if pid \<le> 0 then Inl (Panic ''create init_main failed.'')
        else
          bindR (find_proc pid s) (\<lambda>ini.
          let s = s\<lparr>initproc := ini\<rparr>;
              s = set_proc_name ini (name_bytes ''init'') s in
          bindR (assertR (idleproc s \<noteq> 0 \<and> p_pid (procs s (idleproc s)) = 0)
                   ''idleproc != NULL && idleproc->pid == 0'') (\<lambda>_.
          bindR (assertR (ini \<noteq> 0 \<and> p_pid (procs s ini) = 1)
                   ''initproc != NULL && initproc->pid == 1'') (\<lambda>_.
          Inr s))))))"

text \<open>One turn of the loop of \<open>cpu_idle\<close>.\<close>

definition cpu_idle_turn :: "kstate \<Rightarrow> kstate res" where
  "cpu_idle_turn s = (if p_need_resched (procs s (current s)) then schedule s else Inr s)"

end
