(* ===== verification/Printfmt.thy ===== *)
theory Printfmt
  imports Kstring
begin

text \<open>
  libs/printfmt.c.  A format string is a list of characters whose end stands for the NUL; the calls
  of \<open>putch\<close> become the list of characters put out; a \<open>va_list\<close> is the list of the arguments
  still to be read, integers as 64-bit values.  Taking an argument that is not there is undefined.
\<close>

section \<open>Numbers\<close>

definition digit_chars :: string where "digit_chars = ''0123456789abcdef''"

text \<open>All callers pass base 8, 10 or 16; with base 0 or 1 the recursion of the source would not end.\<close>

function printnum :: "nat \<Rightarrow> nat \<Rightarrow> int \<Rightarrow> char \<Rightarrow> string" where
  "printnum num base width padc =
     (if num \<ge> base \<and> 2 \<le> base then printnum (num div base) base (width - 1) padc
      else replicate (nat (width - 1)) padc) @ [digit_chars ! (num mod base)]"
  by pat_completeness auto
termination
  by (relation "measure (\<lambda>(num, base, w, p). num)") auto

declare printnum.simps [simp del]

section \<open>Arguments\<close>

datatype vaarg = VNum u64 | VStr "string option"

definition va_num :: "vaarg list \<Rightarrow> (u64 \<times> vaarg list) res" where
  "va_num ap = (case ap of VNum v # rest \<Rightarrow> Inr (v, rest) | _ \<Rightarrow> Inl (BadPtr ''va_arg''))"

definition va_str :: "vaarg list \<Rightarrow> (string option \<times> vaarg list) res" where
  "va_str ap = (case ap of VStr p # rest \<Rightarrow> Inr (p, rest) | _ \<Rightarrow> Inl (BadPtr ''va_arg''))"

definition int_arg :: "u64 \<Rightarrow> int" where "int_arg v = sint (ucast v :: 32 word)"

definition getuint :: "nat \<Rightarrow> vaarg list \<Rightarrow> (u64 \<times> vaarg list) res" where
  "getuint lflag ap =
     bindR (va_num ap) (\<lambda>(v, ap). Inr (if lflag \<ge> 1 then v else ucast (ucast v :: 32 word), ap))"

definition getint :: "nat \<Rightarrow> vaarg list \<Rightarrow> (u64 \<times> vaarg list) res" where
  "getint lflag ap =
     bindR (va_num ap) (\<lambda>(v, ap). Inr (if lflag \<ge> 1 then v else scast (ucast v :: 32 word), ap))"

section \<open>Conversions\<close>

definition MAXERROR :: int where "MAXERROR = 24"

definition error_string :: "int \<Rightarrow> string option" where
  "error_string e =
     (if e = 1 then Some ''unspecified error'' else if e = 2 then Some ''bad process''
      else if e = 3 then Some ''invalid parameter'' else if e = 4 then Some ''out of memory''
      else if e = 5 then Some ''out of processes'' else if e = 6 then Some ''segmentation fault''
      else if e = 8 then Some ''invalid elf file'' else if e = 9 then Some ''process is killed''
      else if e = 10 then Some ''panic failure'' else None)"

definition char_code :: "char \<Rightarrow> nat" where "char_code c = of_char c"

text \<open>The loop over the string of \<open>%s\<close>: it returns the output and the width that is left.\<close>

fun put_str :: "string \<Rightarrow> bool \<Rightarrow> int \<Rightarrow> int \<Rightarrow> string \<times> int" where
  "put_str [] alt precision width = ([], width)"
| "put_str (c # p) alt precision width =
     (if precision < 0 \<or> precision - 1 \<ge> 0 then
        let ch = (if alt \<and> (char_code c < char_code (CHR '' '') \<or> char_code (CHR ''~'') < char_code c) then CHR ''?'' else c);
            (out, w) = put_str p alt (if precision < 0 then precision else precision - 1) (width - 1)
        in (ch # out, w)
      else ([], width))"

record fmt_state =
  padc :: char
  fwidth :: int
  precision :: int
  lflag :: nat
  altflag :: bool

definition is_digit :: "char \<Rightarrow> bool" where
  "is_digit c \<longleftrightarrow> char_code (CHR ''0'') \<le> char_code c \<and> char_code c \<le> char_code (CHR ''9'')"

definition dec_value :: "string \<Rightarrow> int" where
  "dec_value ds = foldl (\<lambda>p c. p * 10 + (int (char_code c) - int (char_code (CHR ''0'')))) 0 ds"

definition process_precision :: "fmt_state \<Rightarrow> fmt_state" where
  "process_precision st = (if fwidth st < 0 then st\<lparr>fwidth := precision st, precision := - 1\<rparr> else st)"

definition conv_num :: "u64 \<Rightarrow> nat \<Rightarrow> fmt_state \<Rightarrow> string" where
  "conv_num num base st = printnum (unat num) base (fwidth st) (padc st)"

definition conv_str :: "string \<Rightarrow> fmt_state \<Rightarrow> string" where
  "conv_str p st =
     (let n = (if precision st < 0 then length p else min (nat (precision st)) (length p));
          pad = (if fwidth st > 0 \<and> padc st \<noteq> CHR ''-'' then nat (fwidth st - int n) else 0);
          width = (if fwidth st > 0 \<and> padc st \<noteq> CHR ''-'' then min 0 (fwidth st - int n) else fwidth st);
          (out, width) = put_str p (altflag st) (precision st) width
      in replicate pad (padc st) @ out @ replicate (nat width) (CHR '' ''))"

text \<open>
  \<open>%e\<close>: the inner calls \<open>printfmt(putch, putdat, "error %d", err)\<close> and \<open>printfmt(putch, putdat, "%s", p)\<close>
  are written out.  For the smallest \<open>int\<close> the negation overflows.
\<close>

definition conv_err :: "int \<Rightarrow> string res" where
  "conv_err err =
     (let err = (if err < 0 then - err else err)
      in if err = 2 ^ 31 then Inl (BadPtr ''error_string'')
         else case (if err > MAXERROR then None else error_string err) of
           None \<Rightarrow> Inr (''error '' @ printnum (nat err) 10 (- 1) (CHR '' ''))
         | Some p \<Rightarrow> Inr p)"

text \<open>
  One escape sequence: the code from \<open>reswitch\<close> on, \<open>start\<close> the text after the \<open>%\<close>.  The result is
  the output with the rest of the format and of the arguments.
\<close>

function escape :: "string \<Rightarrow> string \<Rightarrow> fmt_state \<Rightarrow> vaarg list \<Rightarrow> (string \<times> string \<times> vaarg list) res" where
  "escape start [] st ap = Inr (''%'', start, ap)"
| "escape start (c # f) st ap =
     (if c = CHR ''-'' then escape start f (st\<lparr>padc := CHR ''-''\<rparr>) ap
      else if c = CHR ''0'' then escape start f (st\<lparr>padc := CHR ''0''\<rparr>) ap
      else if is_digit c then
        escape start (dropWhile is_digit f)
          (process_precision (st\<lparr>precision := dec_value (c # takeWhile is_digit f)\<rparr>)) ap
      else if c = CHR ''*'' then
        bindR (va_num ap) (\<lambda>(v, ap). escape start f (process_precision (st\<lparr>precision := int_arg v\<rparr>)) ap)
      else if c = CHR ''.'' then escape start f (if fwidth st < 0 then st\<lparr>fwidth := 0\<rparr> else st) ap
      else if c = CHR ''#'' then escape start f (st\<lparr>altflag := True\<rparr>) ap
      else if c = CHR ''l'' then escape start f (st\<lparr>lflag := lflag st + 1\<rparr>) ap
      else if c = CHR ''c'' then bindR (va_num ap) (\<lambda>(v, ap). Inr ([char_of (unat v)], f, ap))
      else if c = CHR ''e'' then
        bindR (va_num ap) (\<lambda>(v, ap). bindR (conv_err (int_arg v)) (\<lambda>out. Inr (out, f, ap)))
      else if c = CHR ''s'' then
        bindR (va_str ap) (\<lambda>(p, ap).
        Inr (conv_str (case p of None \<Rightarrow> ''(null)'' | Some p \<Rightarrow> p) st, f, ap))
      else if c = CHR ''d'' then
        bindR (getint (lflag st) ap) (\<lambda>(num, ap).
        Inr (if sint num < 0 then CHR ''-'' # conv_num (- num) 10 st else conv_num num 10 st, f, ap))
      else if c = CHR ''u'' then bindR (getuint (lflag st) ap) (\<lambda>(num, ap). Inr (conv_num num 10 st, f, ap))
      else if c = CHR ''o'' then bindR (getuint (lflag st) ap) (\<lambda>(num, ap). Inr (conv_num num 8 st, f, ap))
      else if c = CHR ''p'' then
        bindR (va_num ap) (\<lambda>(num, ap). Inr (''0x'' @ conv_num num 16 st, f, ap))
      else if c = CHR ''x'' then bindR (getuint (lflag st) ap) (\<lambda>(num, ap). Inr (conv_num num 16 st, f, ap))
      else if c = CHR ''%'' then Inr (''%'', f, ap)
      else Inr (''%'', start, ap))"
  by pat_completeness auto
termination
  by (relation "measure (\<lambda>(start, f, st, ap). length f)") (auto simp: less_Suc_eq_le length_dropWhile_le)

declare escape.simps [simp del]

definition fmt_start :: fmt_state where
  "fmt_start = \<lparr>padc = CHR '' '', fwidth = - 1, precision = - 1, lflag = 0, altflag = False\<rparr>"

lemma escape_rest:
  "escape start f st ap = Inr (out, rest, ap') \<Longrightarrow> length f \<le> length start \<Longrightarrow> length rest \<le> length start"
proof (induction start f st ap rule: escape.induct)
  case (2 start c f st ap)
  have "length (dropWhile is_digit f) \<le> length f" by (rule length_dropWhile_le)
  with 2 show ?case
    by (auto simp: escape.simps(2) bindR_eq_Inr split: if_splits)
qed (simp add: escape.simps)

function vprintfmt :: "string \<Rightarrow> vaarg list \<Rightarrow> string res" where
  "vprintfmt fmt ap =
     (case fmt of
        [] \<Rightarrow> Inr []
      | c # fmt \<Rightarrow>
          if c \<noteq> CHR ''%'' then bindR (vprintfmt fmt ap) (\<lambda>out. Inr (c # out))
          else bindR (escape fmt fmt fmt_start ap) (\<lambda>(out, rest, ap).
               bindR (vprintfmt rest ap) (\<lambda>out'. Inr (out @ out'))))"
  by pat_completeness auto
termination
  by (relation "measure (\<lambda>(fmt, ap). length fmt)") (auto simp: less_Suc_eq_le intro: escape_rest)

declare vprintfmt.simps [simp del]

section \<open>Printing to a buffer\<close>

record sprintbuf =
  buf :: u64
  ebuf :: u64
  cnt :: int

definition sprintputch :: "char \<Rightarrow> sprintbuf \<times> bmem \<Rightarrow> sprintbuf \<times> bmem" where
  "sprintputch c bm =
     (let (b, m) = bm; b = b\<lparr>cnt := cnt b + 1\<rparr>
      in if buf b < ebuf b then (b\<lparr>buf := buf b + 1\<rparr>, m(buf b := ch c)) else (b, m))"

definition vsnprintf :: "u64 \<Rightarrow> u64 \<Rightarrow> string \<Rightarrow> vaarg list \<Rightarrow> bmem \<Rightarrow> (bmem \<times> int) res" where
  "vsnprintf str sz fmt ap m =
     (let b = \<lparr>buf = str, ebuf = str + sz - 1, cnt = 0\<rparr>
      in if str = 0 \<or> buf b > ebuf b then Inr (m, - 3)
         else bindR (vprintfmt fmt ap) (\<lambda>out.
              let (b, m) = fold sprintputch out (b, m) in Inr (m(buf b := 0), cnt b)))"

definition snprintf :: "u64 \<Rightarrow> u64 \<Rightarrow> string \<Rightarrow> vaarg list \<Rightarrow> bmem \<Rightarrow> (bmem \<times> int) res" where
  "snprintf str sz fmt ap m = vsnprintf str sz fmt ap m"

section \<open>Numbers come out right\<close>

definition digit_of :: "char \<Rightarrow> nat" where
  "digit_of c = (case digit_val (ch c) of Some d \<Rightarrow> nat d | None \<Rightarrow> 0)"

definition num_value :: "nat \<Rightarrow> string \<Rightarrow> nat" where
  "num_value base ds = foldl (\<lambda>v c. v * base + digit_of c) 0 ds"

lemma num_value_snoc: "num_value base (ds @ [c]) = num_value base ds * base + digit_of c"
  by (simp add: num_value_def)

lemma digit_chars_val: "d < 16 \<Longrightarrow> digit_val (ch (digit_chars ! d)) = Some (int d)"
proof -
  have "\<forall>d\<in>set [0..<16]. digit_val (ch (digit_chars ! d)) = Some (int d)"
    by code_simp
  then show "d < 16 \<Longrightarrow> ?thesis" by auto
qed

lemma printnum_plain:
  assumes "2 \<le> base" and "base \<le> 16" and "width \<le> 1"
  shows "num_value base (printnum num base width p) = num \<and>
    (\<forall>c\<in>set (printnum num base width p). \<exists>d<base. c = digit_chars ! d)"
  using assms
proof (induction num base width p rule: printnum.induct)
  case (1 num base width p)
  have m: "num mod base < base" using 1(2) by simp
  then have "num mod base < 16" using 1(3) by linarith
  then have d: "digit_of (digit_chars ! (num mod base)) = num mod base"
    by (simp add: digit_of_def digit_chars_val)
  have ex: "\<exists>d<base. digit_chars ! (num mod base) = digit_chars ! d" using m by blast
  show ?case
  proof (cases "num \<ge> base")
    case True
    with 1 d ex show ?thesis by (subst (1 2) printnum.simps) (auto simp: num_value_snoc)
  next
    case False
    with 1 d ex show ?thesis by (subst (1 2) printnum.simps) (auto simp: num_value_snoc num_value_def)
  qed
qed

lemma printnum_length: "2 \<le> base \<Longrightarrow> int (length (printnum num base width p)) \<ge> width"
proof (induction num base width p rule: printnum.induct)
  case (1 num base width p)
  then show ?case by (subst printnum.simps) auto
qed

section \<open>Reading numbers back\<close>

definition digits_below :: "nat \<Rightarrow> string \<Rightarrow> bool" where
  "digits_below base ds \<longleftrightarrow> (\<forall>c\<in>set ds. \<exists>d<base. c = digit_chars ! d)"

lemma digit_loop_digits:
  assumes "base \<le> 16"
  shows "cstr m p (map ch ds) \<Longrightarrow> digits_below base ds \<Longrightarrow>
    digit_loop m p (int base) v =
      Some (p + of_nat (length ds), foldl (\<lambda>v c. v * of_nat base + of_nat (digit_of c)) v ds)"
proof (induction ds arbitrary: p v)
  case Nil
  have "digit_val 0 = None" by code_simp
  with Nil show ?case by (simp add: digit_loop.simps)
next
  case (Cons c ds)
  then obtain d where d: "d < base" "c = digit_chars ! d" by (auto simp: digits_below_def)
  with assms have dv: "digit_val (ch c) = Some (int d)" "digit_of c = d"
    using digit_chars_val [of d] by (auto simp: digit_of_def)
  have "cstr m (p + 1) (map ch ds)" "digits_below base ds" using Cons.prems by (auto simp: digits_below_def)
  note IH = Cons.IH [OF this]
  show ?case using Cons.prems d dv IH by (simp add: digit_loop.simps [of m p] algebra_simps)
qed

lemma foldl_num_value:
  "foldl (\<lambda>v c. v * of_nat base + of_nat (digit_of c)) (of_nat n) ds =
     (of_nat (foldl (\<lambda>v c. v * base + digit_of c) n ds) :: u64)"
  by (induction ds arbitrary: n) (simp_all flip: of_nat_mult of_nat_add)

lemma digit_byte_plain:
  assumes "d < 16"
  shows "ch (digit_chars ! d) \<noteq> 0 \<and> ch (digit_chars ! d) \<noteq> ch (CHR '' '') \<and> ch (digit_chars ! d) \<noteq> ch (CHR 0x09) \<and>
     ch (digit_chars ! d) \<noteq> ch (CHR ''+'') \<and> ch (digit_chars ! d) \<noteq> ch (CHR ''-'') \<and> ch (digit_chars ! d) \<noteq> ch (CHR ''x'')"
proof -
  have "\<forall>d\<in>set [0..<16]. ch (digit_chars ! d) \<noteq> 0 \<and> ch (digit_chars ! d) \<noteq> ch (CHR '' '') \<and> ch (digit_chars ! d) \<noteq> ch (CHR 0x09) \<and>
     ch (digit_chars ! d) \<noteq> ch (CHR ''+'') \<and> ch (digit_chars ! d) \<noteq> ch (CHR ''-'') \<and> ch (digit_chars ! d) \<noteq> ch (CHR ''x'')"
    by code_simp
  with assms show ?thesis by auto
qed

lemma strtol_digits:
  assumes base: "2 \<le> base" "base \<le> 16" and m: "cstr m p (map ch ds)" and ds: "ds \<noteq> []" "digits_below base ds"
  shows "strtol m p (int base) = Some (p + of_nat (length ds), of_nat (num_value base ds))"
proof -
  obtain c cs where c: "ds = c # cs" using ds by (cases ds) auto
  then have mp: "m p = ch c" "cstr m (p + 1) (map ch cs)" using m by auto
  obtain d where "d < base" "c = digit_chars ! d" using ds c by (auto simp: digits_below_def)
  then have plain: "m p \<noteq> ch (CHR '' '')" "m p \<noteq> ch (CHR 0x09)" "m p \<noteq> ch (CHR ''+'')" "m p \<noteq> ch (CHR ''-'')"
    using digit_byte_plain [of d] base mp by auto
  have "m (p + 1) \<noteq> ch (CHR ''x'')"
  proof (cases cs)
    case Nil
    moreover have "ch (CHR ''x'') \<noteq> 0" by code_simp
    ultimately show ?thesis using mp by simp
  next
    case (Cons e es)
    with ds c obtain k where "k < base" "e = digit_chars ! k" by (auto simp: digits_below_def)
    with digit_byte_plain [of k] base mp Cons show ?thesis by auto
  qed
  with plain base digit_loop_digits [OF base(2) m ds(2), of 0] foldl_num_value [of base 0 ds]
  show ?thesis by (simp add: strtol_def skip_blank.simps [of m p] num_value_def)
qed

section \<open>Buffers are respected\<close>

lemma sprint_fold:
  assumes "n < 2 ^ 64" "unat str + n < 2 ^ 64"
  shows "k \<le> n \<Longrightarrow> \<exists>m'. fold sprintputch out (\<lparr>buf = str + of_nat k, ebuf = str + of_nat n, cnt = c\<rparr>, m) =
      (\<lparr>buf = str + of_nat (min n (k + length out)), ebuf = str + of_nat n, cnt = c + int (length out)\<rparr>, m') \<and>
     (\<forall>i. k \<le> i \<longrightarrow> i < min n (k + length out) \<longrightarrow> m' (str + of_nat i) = ch (out ! (i - k))) \<and>
     (\<forall>a. (\<forall>i. k \<le> i \<longrightarrow> i < n \<longrightarrow> a \<noteq> str + of_nat i) \<longrightarrow> m' a = m a)"
proof (induction out arbitrary: k c m)
  case (Cons x out)
  have un: "unat (str + of_nat i) = unat str + i" if "i \<le> n" for i
    using assms that by (simp add: unat_word_ariths(1) unsigned_of_nat take_bit_nat_eq_self)
  show ?case
  proof (cases "k < n")
    case True
    then have "str + of_nat k < str + of_nat n" using un [of k] un [of n] by (simp add: word_less_nat_alt)
    then have step: "sprintputch x (\<lparr>buf = str + of_nat k, ebuf = str + of_nat n, cnt = c\<rparr>, m) =
        (\<lparr>buf = str + of_nat (Suc k), ebuf = str + of_nat n, cnt = c + 1\<rparr>, m(str + of_nat k := ch x))"
      by (simp add: sprintputch_def algebra_simps)
    obtain m' where
      IH: "fold sprintputch out (\<lparr>buf = str + of_nat (Suc k), ebuf = str + of_nat n, cnt = c + 1\<rparr>, m(str + of_nat k := ch x)) =
        (\<lparr>buf = str + of_nat (min n (Suc k + length out)), ebuf = str + of_nat n, cnt = c + 1 + int (length out)\<rparr>, m')"
      "\<forall>i. Suc k \<le> i \<longrightarrow> i < min n (Suc k + length out) \<longrightarrow> m' (str + of_nat i) = ch (out ! (i - Suc k))"
      "\<forall>a. (\<forall>i. Suc k \<le> i \<longrightarrow> i < n \<longrightarrow> a \<noteq> str + of_nat i) \<longrightarrow> m' a = (m(str + of_nat k := ch x)) a"
      using Cons.IH [OF Suc_leI [OF True], of "c + 1" "m(str + of_nat k := ch x)"] by blast
    have "str + of_nat k \<noteq> str + of_nat i" if "Suc k \<le> i" "i < n" for i
      using un [of k] un [of i] that True by (metis Suc_n_not_le_n add_left_cancel less_imp_le_nat)
    then have "m' (str + of_nat k) = ch x" using IH(3) by simp
    then have data: "m' (str + of_nat i) = ch ((x # out) ! (i - k))" if "k \<le> i" "i < min n (k + length (x # out))" for i
      using IH(2) that by (cases "i = k") (auto simp: nth_Cons')
    have frame: "m' a = m a" if "\<forall>i. k \<le> i \<longrightarrow> i < n \<longrightarrow> a \<noteq> str + of_nat i" for a
      using IH(3) that True by simp
    show ?thesis
      using IH(1) data frame by (intro exI [of _ m']) (simp add: step del: of_nat_Suc fun_upd_apply)
  next
    case False
    then have "\<not> str + of_nat k < str + of_nat n" using Cons.prems by simp
    then have step: "sprintputch x (\<lparr>buf = str + of_nat k, ebuf = str + of_nat n, cnt = c\<rparr>, m) =
        (\<lparr>buf = str + of_nat k, ebuf = str + of_nat n, cnt = c + 1\<rparr>, m)" by (simp add: sprintputch_def)
    from Cons.IH [of k "c + 1" m] Cons.prems False step show ?thesis by (fastforce simp: algebra_simps)
  qed
qed auto

section \<open>Properties\<close>

text \<open>C35: the digits \<open>printnum\<close> prints without padding, read back by \<open>strtol\<close> with the same base, give
  the number (modulo the width of \<open>long\<close>), and \<open>strtol\<close> stops exactly at the end of the digits.\<close>

theorem printnum_strtol:
  assumes "2 \<le> base" and "base \<le> 16" and "width \<le> 1"
    and "cstr m p (map ch (printnum num base width c))"
  shows "strtol m p (int base) = Some (p + of_nat (length (printnum num base width c)), of_nat num)"
proof -
  have "printnum num base width c \<noteq> []" by (subst printnum.simps) simp
  with printnum_plain [OF assms(1-3), of num c] strtol_digits [OF assms(1,2,4)] show ?thesis
    by (simp add: digits_below_def)
qed

theorem printnum_strtol_witness:
  "strtol ((\<lambda>_. 0)(100 := ch (CHR ''2''), 101 := ch (CHR ''a''))) 100 16 = Some (102, 42)"
proof -
  have pn: "printnum 42 16 0 (CHR '' '') = ''2a''" by (simp add: printnum.simps [of 42] printnum.simps [of 2] digit_chars_def)
  have nz: "ch (CHR ''2'') \<noteq> 0" "ch (CHR ''a'') \<noteq> 0" by code_simp+
  have m: "cstr ((\<lambda>_. 0)(100 := ch (CHR ''2''), 101 := ch (CHR ''a''))) 100 (map ch (printnum 42 16 0 (CHR '' '')))"
    using nz by (simp add: pn)
  show ?thesis using printnum_strtol [OF _ _ _ m] by (simp add: pn)
qed

text \<open>C36: \<open>vsnprintf\<close> writes only inside the \<open>size\<close> bytes it was given; when it accepts the buffer, what
  is there afterwards is the output cut to \<open>size - 1\<close> characters with a NUL behind it, and the
  result is the length of the whole output.\<close>

theorem vsnprintf_bounds:
  assumes "vsnprintf str sz fmt ap m = Inr (m', r)"
  shows "(\<forall>a. m' a \<noteq> m a \<longrightarrow> (\<exists>i<unat sz. a = str + of_nat i)) \<and>
    (r = - 3 \<and> m' = m \<or>
     (\<exists>out. vprintfmt fmt ap = Inr out \<and> r = int (length out) \<and>
        (let k = min (unat sz - 1) (length out)
         in (\<forall>i<k. m' (str + of_nat i) = ch (out ! i)) \<and> m' (str + of_nat k) = 0)))"
proof (cases "str = 0 \<or> str > str + sz - 1")
  case True
  with assms show ?thesis by (simp add: vsnprintf_def)
next
  case False
  have sz0: "sz \<noteq> 0"
  proof
    assume "sz = 0"
    with False have "unat str \<le> unat (str - 1)" "str \<noteq> 0" by (auto simp: word_le_nat_alt not_less)
    moreover have "unat (str - 1) = unat str - 1" using False by (simp add: unat_minus_one)
    ultimately show False using unat_gt_0 [of str] by linarith
  qed
  define n where "n = unat sz - 1"
  have nsz: "unat sz = Suc n" using sz0 by (simp add: n_def unat_gt_0)
  have "sz = of_nat (Suc n)" by (simp flip: nsz)
  then have eb: "str + sz - 1 = str + of_nat n" by simp
  have "unat sz < 2 ^ 64" using unsigned_less [of sz] by simp
  with nsz have n64: "n < 2 ^ 64" by simp
  have "str \<le> str + of_nat n" using False unfolding eb by (simp add: not_less)
  then have nowrap: "unat str + n < 2 ^ 64"
    using n64 no_olen_add_nat [of str "of_nat n"] by (simp add: unsigned_of_nat take_bit_nat_eq_self)
  from assms False obtain out where out: "vprintfmt fmt ap = Inr out"
    by (auto simp: vsnprintf_def bindR_eq_Inr)
  obtain m1 where m1: "fold sprintputch out (\<lparr>buf = str, ebuf = str + of_nat n, cnt = 0\<rparr>, m) =
      (\<lparr>buf = str + of_nat (min n (length out)), ebuf = str + of_nat n, cnt = int (length out)\<rparr>, m1)"
     "\<forall>i. i < min n (length out) \<longrightarrow> m1 (str + of_nat i) = ch (out ! i)"
     "\<forall>a. (\<forall>i. i < n \<longrightarrow> a \<noteq> str + of_nat i) \<longrightarrow> m1 a = m a"
    using sprint_fold [OF n64 nowrap, of 0 out 0 m] by auto
  let ?k = "min n (length out)"
  have res: "m' = m1(str + of_nat ?k := 0)" "r = int (length out)"
    using assms False out m1(1) eb by (auto simp: vsnprintf_def)
  have ne: "str + of_nat i \<noteq> str + of_nat ?k" if "i < ?k" for i
    using word_offsets [of str "Suc n" str i ?k] nowrap that by auto
  have "\<exists>i<unat sz. a = str + of_nat i" if "m' a \<noteq> m a" for a
  proof (cases "a = str + of_nat ?k")
    case True
    then show ?thesis using nsz by (intro exI [of _ ?k]) auto
  next
    case False
    with that res m1(3) obtain i where "i < n" "a = str + of_nat i" by auto
    then show ?thesis using nsz by (intro exI [of _ i]) auto
  qed
  moreover have "(\<forall>i<?k. m' (str + of_nat i) = ch (out ! i)) \<and> m' (str + of_nat ?k) = 0"
    using m1(2) res(1) ne by auto
  ultimately show ?thesis using out res(2) by (simp add: Let_def n_def)
qed

theorem vsnprintf_bounds_witness:
  "\<exists>m'. vsnprintf 100 3 ''abcd'' [] (\<lambda>_. 1) = Inr (m', 4) \<and> m' 103 = 1"
proof -
  have v: "vprintfmt ''abcd'' [] = Inr ''abcd''" by (simp add: vprintfmt.simps)
  obtain m' where m': "vsnprintf 100 3 ''abcd'' [] (\<lambda>_. 1) = Inr (m', 4)"
    by (simp add: vsnprintf_def v sprintputch_def)
  have "\<nexists>i. i < unat (3 :: u64) \<and> (103 :: u64) = 100 + of_nat i"
  proof
    assume "\<exists>i. i < unat (3 :: u64) \<and> (103 :: u64) = 100 + of_nat i"
    then obtain i :: nat where "i < 3" "(103 :: u64) = 100 + of_nat i" by auto
    then show False using of_nat_word_inj [of i 3] by (simp add: algebra_simps)
  qed
  with vsnprintf_bounds [OF m'] have "m' 103 = 1" by auto
  with m' show ?thesis by blast
qed

end
