(* ===== verification/Monitor.thy ===== *)
theory Monitor
  imports Printfmt
begin

text \<open>
  Console input and output: kern/libs/stdio.c, kern/libs/readline.c and the command interpreter of
  kern/debug/kmonitor.c.  The console is a list of codes still to be read (what \<open>cons_getc\<close> would
  return, call by call) and the list of characters written; a routine that needs more input than the
  list has is still waiting, which is the value None.
\<close>

section \<open>stdio.c\<close>

definition vcprintf :: "string \<Rightarrow> vaarg list \<Rightarrow> (string \<times> int) res" where
  "vcprintf fmt ap = bindR (vprintfmt fmt ap) (\<lambda>out. Inr (out, int (length out)))"

definition cprintf :: "string \<Rightarrow> vaarg list \<Rightarrow> (string \<times> int) res" where
  "cprintf fmt ap = vcprintf fmt ap"

definition cputs :: "string \<Rightarrow> string \<times> int" where
  "cputs str = (str @ [CHR 0x0A], int (length str) + 1)"

fun getchar :: "int list \<Rightarrow> (int \<times> int list) option" where
  "getchar [] = None"
| "getchar (c # inp) = (if c = 0 then getchar inp else Some (c, inp))"

lemma getchar_shorter: "getchar inp = Some (c, rest) \<Longrightarrow> length rest < length inp"
  by (induction inp) (auto split: if_splits)

section \<open>readline.c\<close>

definition BUFSIZE :: nat where "BUFSIZE = 1024"

text \<open>
  The loop of \<open>readline\<close>: position \<open>i\<close>, the array \<open>buf\<close> and the echoed codes.  The result is None for the
  NULL returned on a negative code.
\<close>

function readline_loop ::
  "int list \<Rightarrow> nat \<Rightarrow> (nat \<Rightarrow> u8) \<Rightarrow> int list \<Rightarrow> ((nat \<Rightarrow> u8) option \<times> int list \<times> int list) option" where
  "readline_loop inp i b echo =
     (case getchar inp of
        None \<Rightarrow> None
      | Some (c, inp) \<Rightarrow>
          if c < 0 then Some (None, echo, inp)
          else if c \<ge> 32 \<and> i < BUFSIZE - 1 then readline_loop inp (i + 1) (b(i := of_int c)) (echo @ [c])
          else if c = 8 \<and> i > 0 then readline_loop inp (i - 1) b (echo @ [c])
          else if c = 10 \<or> c = 13 then Some (Some (b(i := 0)), echo @ [c], inp)
          else readline_loop inp i b echo)"
  by pat_completeness auto
termination
  by (relation "measure (\<lambda>(inp, i, b, echo). length inp)") (auto dest: getchar_shorter)

declare readline_loop.simps [simp del]

definition readline :: "int list \<Rightarrow> (nat \<Rightarrow> u8) \<Rightarrow> ((nat \<Rightarrow> u8) option \<times> int list \<times> int list) option" where
  "readline inp b = readline_loop inp 0 b []"

text \<open>What the user means: a line with backspaces applied, cut at the buffer size.\<close>

function edit :: "int list \<Rightarrow> u8 list \<Rightarrow> (u8 list option \<times> int list) option" where
  "edit inp line =
     (case getchar inp of
        None \<Rightarrow> None
      | Some (c, inp) \<Rightarrow>
          if c < 0 then Some (None, inp)
          else if c \<ge> 32 \<and> length line < BUFSIZE - 1 then edit inp (line @ [of_int c])
          else if c = 8 \<and> line \<noteq> [] then edit inp (butlast line)
          else if c = 10 \<or> c = 13 then Some (Some line, inp)
          else edit inp line)"
  by pat_completeness auto
termination
  by (relation "measure (\<lambda>(inp, line). length inp)") (auto dest: getchar_shorter)

declare edit.simps [simp del]

definition holds_line :: "(nat \<Rightarrow> u8) \<Rightarrow> u8 list \<Rightarrow> bool" where
  "holds_line b line \<longleftrightarrow> (\<forall>i<length line. b i = line ! i)"

lemma holds_snoc: "holds_line b line \<Longrightarrow> holds_line (b(length line := x)) (line @ [x])"
  by (auto simp: holds_line_def nth_append)

lemma holds_butlast: "holds_line b line \<Longrightarrow> holds_line b (butlast line)"
  by (auto simp: holds_line_def nth_butlast)

lemma readline_loop_edit:
  "holds_line b line \<Longrightarrow> length line < BUFSIZE \<Longrightarrow>
     (case edit inp line of
        None \<Rightarrow> readline_loop inp (length line) b echo = None
      | Some (None, rest) \<Rightarrow> \<exists>e. readline_loop inp (length line) b echo = Some (None, e, rest)
      | Some (Some l, rest) \<Rightarrow>
          \<exists>b' e. readline_loop inp (length line) b echo = Some (Some b', e, rest) \<and>
            length l < BUFSIZE \<and> holds_line b' l \<and> b' (length l) = 0 \<and>
            (\<forall>i\<ge>BUFSIZE. b' i = b i))"
proof (induction inp line arbitrary: b echo rule: edit.induct)
  case (1 inp line)
  show ?case
  proof (cases "getchar inp")
    case None
    then show ?thesis by (simp add: edit.simps [of inp] readline_loop.simps [of inp])
  next
    case (Some r)
    then obtain c inp' where g: "getchar inp = Some (c, inp')" by (cases r) auto
    note unf = edit.simps [of inp] readline_loop.simps [of inp]
    consider (neg) "c < 0" | (put) "c \<ge> 32" "length line < BUFSIZE - 1" | (bs) "c = 8" "line \<noteq> []"
      | (eol) "c = 10 \<or> c = 13" | (skip) "\<not> c < 0" "\<not> (c \<ge> 32 \<and> length line < BUFSIZE - 1)" "\<not> (c = 8 \<and> line \<noteq> [])" "\<not> (c = 10 \<or> c = 13)"
      by blast
    then show ?thesis
    proof cases
      case neg
      then show ?thesis using g by (simp add: unf)
    next
      case put
      let ?b = "b(length line := of_int c)"
      have "holds_line ?b (line @ [of_int c])" "length (line @ [of_int c :: u8]) < BUFSIZE"
        using "1.prems"(1) put by (auto intro: holds_snoc)
      note IH = 1(1) [OF g refl _ _ this, of "echo @ [c]"]
      show ?thesis using IH put g "1.prems"(2)
        by (auto simp: unf split: option.splits prod.splits)
    next
      case bs
      have "holds_line b (butlast line)" "length (butlast line) < BUFSIZE" using "1.prems" by (auto intro: holds_butlast)
      note IH = 1(2) [OF g refl _ _ _ this, of "echo @ [c]"]
      show ?thesis using IH bs g by (auto simp: unf split: option.splits prod.splits)
    next
      case eol
      with g "1.prems" show ?thesis by (auto simp: unf holds_line_def)
    next
      case skip
      note IH = 1(3) [OF g refl skip "1.prems", of echo]
      have "edit inp line = edit inp' line" using skip g by (auto simp: edit.simps [of inp])
      moreover have "readline_loop inp (length line) b echo = readline_loop inp' (length line) b echo"
        using skip g by (subst readline_loop.simps) auto
      ultimately show ?thesis using IH by (simp only:)
    qed
  qed
qed

section \<open>kmonitor.c\<close>

definition MAXARGS :: nat where "MAXARGS = 16"

text \<open>\<open>strchr(WHITESPACE, c) != NULL\<close> for a byte that is not NUL.\<close>

definition is_space :: "u8 \<Rightarrow> bool" where "is_space c \<longleftrightarrow> c = 32 \<or> c = 9 \<or> c = 10 \<or> c = 13"

lemma word_shorter:
  assumes "dropWhile is_space rest \<noteq> []"
  shows "length (dropWhile (Not \<circ> is_space) (dropWhile is_space rest)) < length rest"
proof -
  obtain a l where r: "dropWhile is_space rest = a # l" using assms by (cases "dropWhile is_space rest") auto
  then have "\<not> is_space a" using hd_dropWhile [of is_space rest] by simp
  with r have "length (dropWhile (Not \<circ> is_space) (dropWhile is_space rest)) \<le> length l"
    by (simp add: length_dropWhile_le)
  also have "length l < length rest" using length_dropWhile_le [of is_space rest] r by simp
  finally show ?thesis .
qed

text \<open>
  \<open>parse\<close> on the bytes before the terminating NUL, \<open>pos\<close> their offset in the buffer.  The result is
  \<open>argv\<close> as offsets and the new contents of these bytes.  There is no check that keeps \<open>argc\<close> below
  the size of \<open>argv\<close>: the message about too many arguments does not stop the loop.
\<close>

function parse :: "u8 list \<Rightarrow> nat \<Rightarrow> nat list \<Rightarrow> (nat list \<times> u8 list) res" where
  "parse rest pos argv =
     (let sp = takeWhile is_space rest; rest = dropWhile is_space rest; pos = pos + length sp
      in if rest = [] then Inr (argv, map (\<lambda>_. 0) sp)
         else if length argv \<ge> MAXARGS then Inl (BadPtr ''argv'')
         else let word = takeWhile (Not \<circ> is_space) rest
              in bindR (parse (dropWhile (Not \<circ> is_space) rest) (pos + length word) (argv @ [pos])) (\<lambda>(argv, b).
                 Inr (argv, map (\<lambda>_. 0) sp @ word @ b)))"
  by pat_completeness auto
termination
  by (relation "measure (\<lambda>(rest, pos, argv). length rest)") (auto intro!: word_shorter)

declare parse.simps [simp del]

function words :: "u8 list \<Rightarrow> u8 list list" where
  "words rest =
     (let r = dropWhile is_space rest
      in if r = [] then [] else takeWhile (Not \<circ> is_space) r # words (dropWhile (Not \<circ> is_space) r))"
  by pat_completeness auto
termination
  by (relation "measure length") (auto intro!: word_shorter)

declare words.simps [simp del]

definition blanked :: "u8 list \<Rightarrow> u8 list" where "blanked b = map (\<lambda>c. if is_space c then 0 else c) b"

definition string_at :: "u8 list \<Rightarrow> nat \<Rightarrow> u8 list" where
  "string_at b k = takeWhile (\<lambda>c. c \<noteq> 0) (drop k b)"

lemma blanked_split:
  "blanked rest = map (\<lambda>_. 0) (takeWhile is_space rest) @ takeWhile (Not \<circ> is_space) (dropWhile is_space rest) @
     blanked (dropWhile (Not \<circ> is_space) (dropWhile is_space rest))"
proof -
  have 1: "blanked (takeWhile is_space xs) = map (\<lambda>_. 0) (takeWhile is_space xs)" for xs
    by (auto simp: blanked_def dest: set_takeWhileD)
  have 2: "blanked (takeWhile (Not \<circ> is_space) xs) = takeWhile (Not \<circ> is_space) xs" for xs
    by (induction xs) (auto simp: blanked_def)
  have app: "blanked (xs @ ys) = blanked xs @ blanked ys" for xs ys by (simp add: blanked_def)
  have "rest = takeWhile is_space rest @ takeWhile (Not \<circ> is_space) (dropWhile is_space rest) @
      dropWhile (Not \<circ> is_space) (dropWhile is_space rest)" by simp
  then show ?thesis by (metis 1 2 app)
qed

lemma string_at_word:
  assumes "0 \<notin> set rest" and "r = dropWhile is_space rest" and "r \<noteq> []"
  shows "string_at (blanked rest) (length (takeWhile is_space rest)) = takeWhile (Not \<circ> is_space) r"
proof -
  let ?w = "takeWhile (Not \<circ> is_space) r" and ?t = "dropWhile (Not \<circ> is_space) r"
  have "\<forall>c\<in>set ?w. c \<noteq> 0" using assms by (metis set_dropWhileD set_takeWhileD)
  moreover have "takeWhile (\<lambda>c. c \<noteq> 0) (blanked ?t) = []"
  proof (cases ?t)
    case Nil
    show ?thesis unfolding Nil by (simp add: blanked_def)
  next
    case (Cons a l)
    have "is_space a" using hd_dropWhile [of "Not \<circ> is_space" r] unfolding Cons by simp
    then show ?thesis unfolding Cons by (simp add: blanked_def)
  qed
  moreover have "drop (length (takeWhile is_space rest)) (blanked rest) = ?w @ blanked ?t"
    by (subst blanked_split) (simp add: assms(2))
  ultimately show ?thesis by (simp add: string_at_def takeWhile_append)
qed

lemma parse_words:
  "0 \<notin> set rest \<Longrightarrow>
     if words rest = [] \<or> length argv + length (words rest) \<le> MAXARGS
     then \<exists>offs. parse rest pos argv = Inr (argv @ offs, blanked rest) \<and> length offs = length (words rest) \<and>
       (\<forall>k<length offs. pos \<le> offs ! k \<and> string_at (blanked rest) (offs ! k - pos) = words rest ! k)
     else parse rest pos argv = Inl (BadPtr ''argv'')"
proof (induction rest pos argv rule: parse.induct)
  case (1 rest pos argv)
  let ?sp = "takeWhile is_space rest" and ?r = "dropWhile is_space rest"
  show ?case
  proof (cases "?r = []")
    case True
    have "blanked rest = map (\<lambda>_. 0) ?sp" using blanked_split [of rest] unfolding True by (simp add: blanked_def)
    moreover have "words rest = []" "parse rest pos argv = Inr (argv, map (\<lambda>_. 0) ?sp)"
      using True by (simp_all add: words.simps [of rest] parse.simps [of rest])
    ultimately show ?thesis by simp
  next
    case ne: False
    let ?w = "takeWhile (Not \<circ> is_space) ?r" and ?t = "dropWhile (Not \<circ> is_space) ?r"
    let ?p = "pos + length ?sp"
    have ws: "words rest = ?w # words ?t" using ne by (simp add: words.simps [of rest] Let_def del: dropWhile_eq_Nil_conv)
    have z: "0 \<notin> set ?t" using "1.prems" by (metis set_dropWhileD)
    show ?thesis
    proof (cases "length argv < MAXARGS")
      case False
      with ne ws show ?thesis by (simp add: parse.simps [of rest] Let_def del: dropWhile_eq_Nil_conv)
    next
      case True
      note IH = "1.IH" [OF refl refl refl _ _ refl z]
      have run: "parse rest pos argv = bindR (parse ?t (?p + length ?w) (argv @ [?p])) (\<lambda>(argv, b).
          Inr (argv, map (\<lambda>_. 0) ?sp @ ?w @ b))" using ne True by (simp add: parse.simps [of rest] Let_def del: dropWhile_eq_Nil_conv)
      show ?thesis
      proof (cases "length argv + length (words rest) \<le> MAXARGS")
        case fit: True
        then have "words ?t = [] \<or> length (argv @ [?p]) + length (words ?t) \<le> MAXARGS" using ws by simp
        with IH ne True obtain offs where o: "parse ?t (?p + length ?w) (argv @ [?p]) = Inr ((argv @ [?p]) @ offs, blanked ?t)"
          "length offs = length (words ?t)"
          "\<forall>k<length offs. ?p + length ?w \<le> offs ! k \<and> string_at (blanked ?t) (offs ! k - (?p + length ?w)) = words ?t ! k"
          by auto
        have "string_at (blanked rest) (length ?sp) = ?w" by (rule string_at_word [OF "1.prems" refl ne])
        moreover have "string_at (blanked rest) (offs ! k - pos) = words ?t ! k" if "k < length offs" for k
        proof -
          have le: "?p + length ?w \<le> offs ! k" using o(3) that by blast
          then have "offs ! k - pos = length ?sp + (length ?w + (offs ! k - (?p + length ?w)))" by simp
          then have "drop (offs ! k - pos) (blanked rest) = drop (offs ! k - (?p + length ?w)) (blanked ?t)"
            by (subst blanked_split) simp
          with o(3) that show ?thesis by (simp add: string_at_def)
        qed
        moreover have "pos \<le> offs ! k" if "k < length offs" for k using o(3) that by (meson add_leD1)
        ultimately have "pos \<le> (?p # offs) ! k \<and> string_at (blanked rest) ((?p # offs) ! k - pos) = words rest ! k"
          if "k < length (?p # offs)" for k
          using that unfolding ws by (cases k) simp_all
        moreover have "parse rest pos argv = Inr (argv @ (?p # offs), blanked rest)"
          unfolding run o(1) blanked_split [of rest] by (simp only: bindR_Inr prod.case append_assoc append.simps)
        ultimately show ?thesis using fit o(2) ws by (simp only: disj_not1 simp_thms if_True) (intro exI [of _ "?p # offs"], simp)
      next
        case nofit: False
        then have "\<not> (words ?t = [] \<or> length (argv @ [?p]) + length (words ?t) \<le> MAXARGS)"
          using ws True by auto
        with IH ne True run nofit ws show ?thesis by auto
      qed
    qed
  qed
qed

section \<open>Commands\<close>

datatype mon_command = Mon_help | Mon_kerninfo | Mon_backtrace

definition str_bytes :: "string \<Rightarrow> u8 list" where "str_bytes s = map ch s"

definition commands :: "(u8 list \<times> mon_command) list" where
  "commands = [(str_bytes ''help'', Mon_help), (str_bytes ''kerninfo'', Mon_kerninfo),
     (str_bytes ''backtrace'', Mon_backtrace)]"

text \<open>
  \<open>runcmd\<close>: the command that is run, or None for an empty line or an unknown command.  All three
  commands return 0, and so does \<open>runcmd\<close>, which is why \<open>kmonitor\<close> never leaves its loop.
\<close>

definition runcmd :: "u8 list \<Rightarrow> (mon_command option \<times> int) res" where
  "runcmd b =
     bindR (parse b 0 []) (\<lambda>(argv, b).
     case argv of
       [] \<Rightarrow> Inr (None, 0)
     | a # _ \<Rightarrow> Inr (map_of commands (string_at b a), 0))"

section \<open>Properties\<close>

text \<open>C37: \<open>readline\<close> keeps its position inside the buffer of 1024 bytes and returns, NUL terminated, the
  line that results from applying the backspaces, cut at 1023 characters; it returns NULL exactly
  when the console reports an error, and waits exactly as long as no line end has come.\<close>

theorem readline_correct:
  "case edit inp [] of
     None \<Rightarrow> readline inp b = None
   | Some (None, rest) \<Rightarrow> \<exists>e. readline inp b = Some (None, e, rest)
   | Some (Some l, rest) \<Rightarrow>
       \<exists>b' e. readline inp b = Some (Some b', e, rest) \<and> length l < BUFSIZE \<and> holds_line b' l \<and>
         b' (length l) = 0 \<and> (\<forall>i. i \<ge> BUFSIZE \<longrightarrow> b' i = b i)"
proof -
  have "holds_line b []" "length ([] :: u8 list) < BUFSIZE" by (simp_all add: holds_line_def BUFSIZE_def)
  from readline_loop_edit [OF this, of inp "[]"] show ?thesis unfolding readline_def list.size(3) .
qed

theorem readline_correct_witness:
  "\<exists>b' e. readline [97, 98, 8, 99, 10] (\<lambda>_. 0) = Some (Some b', e, []) \<and> b' 0 = 97 \<and> b' 1 = 99 \<and> b' 2 = 0"
proof -
  have "edit [97, 98, 8, 99, 10] [] = Some (Some [97, 99], [])" by (simp add: edit.simps BUFSIZE_def)
  with readline_correct [of "[97, 98, 8, 99, 10]" "\<lambda>_. 0"] show ?thesis
    by (auto simp: holds_line_def less_Suc_eq numeral_2_eq_2)
qed

text \<open>C38: \<open>parse\<close> splits a line of at most 16 words into exactly its words, in order, each of them NUL
  terminated in place; with more words it writes behind the end of \<open>argv\<close>.\<close>

theorem parse_correct:
  assumes "0 \<notin> set line"
  shows "if length (words line) \<le> MAXARGS
     then \<exists>argv. parse line 0 [] = Inr (argv, blanked line) \<and>
       map (string_at (blanked line)) argv = words line
     else parse line 0 [] = Inl (BadPtr ''argv'')"
proof (cases "length (words line) \<le> MAXARGS")
  case True
  with parse_words [OF assms, of "[]" 0] obtain offs where
    o: "parse line 0 [] = Inr (offs, blanked line)" "length offs = length (words line)"
      "\<forall>k<length offs. string_at (blanked line) (offs ! k) = words line ! k" by auto
  then have "map (string_at (blanked line)) offs = words line" by (simp add: list_eq_iff_nth_eq)
  with o(1) True show ?thesis by auto
next
  case False
  then have "words line \<noteq> []" by auto
  with False parse_words [OF assms, of "[]" 0] show ?thesis by simp
qed

theorem parse_correct_witness:
  "\<exists>argv. parse [32, 97, 98, 32, 99] 0 [] = Inr (argv, [0, 97, 98, 0, 99]) \<and>
     map (string_at [0, 97, 98, 0, 99]) argv = [[97, 98], [99]]"
proof -
  have w: "words [32, 97, 98, 32, 99] = [[97, 98], [99]]" "blanked [32, 97, 98, 32, 99] = [0, 97, 98, 0, 99]"
    by code_simp+
  then show ?thesis using parse_correct [of "[32, 97, 98, 32, 99]"] by (simp add: MAXARGS_def)
qed

end
