(* ===== verification/Trap.thy ===== *)
theory Trap
  imports Proc_Exec Monitor
begin

text \<open>
  kern/syscall/syscall.c and kern/trap/trap.c: the system call table, the interrupt and exception
  handlers and \<open>trap\<close>, and what a process that is scheduled again does next.  Output goes to \<open>console\<close>.
  A trap frame is given by its address.
\<close>

section \<open>Output\<close>

definition cputchar :: "u64 \<Rightarrow> kstate \<Rightarrow> kstate" where
  "cputchar c s = s\<lparr>console := console s @ [ucast c]\<rparr>"

definition kputs :: "string \<Rightarrow> kstate \<Rightarrow> kstate" where
  "kputs str s = s\<lparr>console := console s @ str_bytes str\<rparr>"

definition kprintf :: "string \<Rightarrow> vaarg list \<Rightarrow> kstate \<Rightarrow> kstate res" where
  "kprintf fmt args s = bindR (cprintf fmt args) (\<lambda>(out, _). Inr (kputs out s))"

definition nl :: string where "nl = [CHR 0x0A]"

definition trap_in_kernel :: "trapframe \<Rightarrow> bool" where
  "trap_in_kernel tf \<longleftrightarrow> tf_status tf AND SSTATUS_SPP \<noteq> 0"

definition reg_lines :: "(string \<times> reg) list" where
  "reg_lines =
     [(''zero    '', R_zero), (''ra      '', R_ra), (''sp      '', R_sp), (''gp      '', R_gp),
      (''tp      '', R_tp), (''t0      '', R_t0), (''t1      '', R_t1), (''t2      '', R_t2),
      (''s0      '', R_s0), (''s1      '', R_s1), (''a0      '', R_a0), (''a1      '', R_a1),
      (''a2      '', R_a2), (''a3      '', R_a3), (''a4      '', R_a4), (''a5      '', R_a5),
      (''a6      '', R_a6), (''a7      '', R_a7), (''s2      '', R_s2), (''s3      '', R_s3),
      (''s4      '', R_s4), (''s5      '', R_s5), (''s6      '', R_s6), (''s7      '', R_s7),
      (''s8      '', R_s8), (''s9      '', R_s9), (''s10     '', R_s10), (''s11     '', R_s11),
      (''t3      '', R_t3), (''t4      '', R_t4), (''t5      '', R_t5), (''t6      '', R_t6)]"

definition print_regs :: "(reg \<Rightarrow> u64) \<Rightarrow> kstate \<Rightarrow> kstate res" where
  "print_regs g s =
     foldl (\<lambda>r (l, x). bindR r (kprintf (''  '' @ l @ '' 0x%08x'' @ nl) [VNum (g x)])) (Inr s) reg_lines"

definition print_trapframe :: "u64 \<Rightarrow> kstate \<Rightarrow> kstate res" where
  "print_trapframe a s =
     (let tf = tfs s a in
      bindR (kprintf (''trapframe at %p'' @ nl) [VNum a] s) (\<lambda>s.
      bindR (print_regs (gpr tf) s) (\<lambda>s.
      bindR (kprintf (''  status   0x%08x'' @ nl) [VNum (tf_status tf)] s) (\<lambda>s.
      bindR (kprintf (''  epc      0x%08x'' @ nl) [VNum (tf_epc tf)] s) (\<lambda>s.
      bindR (kprintf (''  tval 0x%08x'' @ nl) [VNum (tf_tval tf)] s) (\<lambda>s.
      kprintf (''  cause    0x%08x'' @ nl) [VNum (tf_cause tf)] s))))))"

definition print_pgfault :: "u64 \<Rightarrow> kstate \<Rightarrow> kstate res" where
  "print_pgfault a s =
     (let tf = tfs s a in
      kprintf (''page fault at 0x%08x: %c/%c'' @ nl)
        [VNum (tf_tval tf), VNum (of_char (if trap_in_kernel tf then CHR ''K'' else CHR ''U'')),
         VNum (of_char (if tf_cause tf = CAUSE_STORE_PAGE_FAULT then CHR ''W'' else CHR ''R''))] s)"

section \<open>System calls\<close>

definition SYS_exit :: int where "SYS_exit = 1"
definition SYS_fork :: int where "SYS_fork = 2"
definition SYS_wait :: int where "SYS_wait = 3"
definition SYS_exec :: int where "SYS_exec = 4"
definition SYS_yield :: int where "SYS_yield = 10"
definition SYS_kill :: int where "SYS_kill = 12"
definition SYS_getpid :: int where "SYS_getpid = 18"
definition SYS_putc :: int where "SYS_putc = 30"
definition SYS_pgdir :: int where "SYS_pgdir = 31"

text \<open>The cast of a register to \<open>int\<close>.\<close>

definition to_int :: "u64 \<Rightarrow> int" where "to_int v = sint (ucast v :: s32)"

type_synonym handler = "(nat \<Rightarrow> u64) \<Rightarrow> kstate \<Rightarrow> (kstate \<times> int ctl) res"

definition sys_exit :: handler where "sys_exit arg s = do_exit (to_int (arg 0)) s"

definition sys_fork :: handler where
  "sys_fork arg s =
     (let tf = tfs s (p_tf (procs s (current s)))
      in bindR (do_fork 0 (gpr tf R_sp) tf s) (\<lambda>(s, r). Inr (s, Ret r)))"

definition sys_wait :: handler where "sys_wait arg s = do_wait (to_int (arg 0)) (arg 1) s"

definition sys_exec :: "bmem \<Rightarrow> handler" where
  "sys_exec vm arg s = do_execve vm (arg 0) (arg 1) (arg 2) (arg 3) s"

definition sys_yield :: handler where
  "sys_yield arg s = (let (s, r) = do_yield s in Inr (s, Ret r))"

definition sys_kill :: handler where
  "sys_kill arg s = bindR (do_kill (to_int (arg 0)) s) (\<lambda>(s, r). Inr (s, Ret r))"

definition sys_getpid :: handler where "sys_getpid arg s = Inr (s, Ret (p_pid (procs s (current s))))"

text \<open>\<open>c\<close> is cast to \<open>int\<close> and then to \<open>unsigned char\<close> by \<open>cons_putc\<close>.\<close>

definition sys_putc :: handler where "sys_putc arg s = Inr (cputchar (arg 0) s, Ret 0)"

definition sys_pgdir :: handler where "sys_pgdir arg s = Inr (s, Ret 0)"

definition NUM_SYSCALLS :: int where "NUM_SYSCALLS = 32"

definition syscalls :: "bmem \<Rightarrow> int \<Rightarrow> handler option" where
  "syscalls vm num =
     (if num = SYS_exit then Some sys_exit
      else if num = SYS_fork then Some sys_fork
      else if num = SYS_wait then Some sys_wait
      else if num = SYS_exec then Some (sys_exec vm)
      else if num = SYS_yield then Some sys_yield
      else if num = SYS_kill then Some sys_kill
      else if num = SYS_getpid then Some sys_getpid
      else if num = SYS_putc then Some sys_putc
      else if num = SYS_pgdir then Some sys_pgdir
      else None)"

definition sys_args :: "trapframe \<Rightarrow> nat \<Rightarrow> u64" where
  "sys_args tf i = gpr tf ([R_a1, R_a2, R_a3, R_a4, R_a5] ! i)"

text \<open>A call that gives up the processor stores its result when it goes on, in \<open>resume\<close>.\<close>

definition syscall :: "bmem \<Rightarrow> kstate \<Rightarrow> (kstate \<times> unit ctl) res" where
  "syscall vm s =
     (let a = p_tf (procs s (current s));
          num = to_int (gpr (tfs s a) R_a0)
      in case (if 0 \<le> num \<and> num < NUM_SYSCALLS then syscalls vm num else None) of
           Some f \<Rightarrow>
             bindR (f (sys_args (tfs s a)) s) (\<lambda>(s, r).
             case r of
               Ret v \<Rightarrow> Inr (upd_tf a (set_reg R_a0 (of_int v)) s, Ret ())
             | Away \<Rightarrow> Inr (s, Away))
         | None \<Rightarrow> bindR (print_trapframe a s) (\<lambda>s. Inl (Panic ''undefined syscall'')))"

section \<open>Interrupts\<close>

definition TICK_NUM :: u64 where "TICK_NUM = 100"
definition IRQ_U_SOFT :: u64 where "IRQ_U_SOFT = 0"
definition IRQ_S_SOFT :: u64 where "IRQ_S_SOFT = 1"
definition IRQ_H_SOFT :: u64 where "IRQ_H_SOFT = 2"
definition IRQ_M_SOFT :: u64 where "IRQ_M_SOFT = 3"
definition IRQ_U_TIMER :: u64 where "IRQ_U_TIMER = 4"
definition IRQ_S_TIMER :: u64 where "IRQ_S_TIMER = 5"
definition IRQ_H_TIMER :: u64 where "IRQ_H_TIMER = 6"
definition IRQ_M_TIMER :: u64 where "IRQ_M_TIMER = 7"
definition IRQ_U_EXT :: u64 where "IRQ_U_EXT = 8"
definition IRQ_S_EXT :: u64 where "IRQ_S_EXT = 9"
definition IRQ_H_EXT :: u64 where "IRQ_H_EXT = 10"
definition IRQ_M_EXT :: u64 where "IRQ_M_EXT = 11"

text \<open>The messages of the cases that only print.\<close>

definition irq_message :: "u64 \<Rightarrow> string option" where
  "irq_message c =
     (if c \<in> {IRQ_U_SOFT, IRQ_U_TIMER, IRQ_U_EXT} then Some ''User software interrupt''
      else if c = IRQ_S_SOFT then Some ''Supervisor software interrupt''
      else if c \<in> {IRQ_H_SOFT, IRQ_H_TIMER, IRQ_H_EXT} then Some ''Hypervisor software interrupt''
      else if c \<in> {IRQ_M_SOFT, IRQ_M_TIMER, IRQ_M_EXT} then Some ''Machine software interrupt''
      else if c = IRQ_S_EXT then Some ''Supervisor external interrupt''
      else None)"

text \<open>The timer is set again by the firmware; the model keeps the tick count.\<close>

definition interrupt_handler :: "u64 \<Rightarrow> kstate \<Rightarrow> kstate res" where
  "interrupt_handler a s =
     (let cause = drop_bit 1 (push_bit 1 (tf_cause (tfs s a)))
      in if cause = IRQ_S_TIMER then
           let s = s\<lparr>ticks := ticks s + 1\<rparr>
           in Inr (if ticks s mod TICK_NUM = 0 \<and> current s \<noteq> 0
                   then upd_proc (current s) (\<lambda>p. p\<lparr>p_need_resched := True\<rparr>) s else s)
         else (case irq_message cause of
             Some msg \<Rightarrow> Inr (kputs (msg @ nl) s)
           | None \<Rightarrow> print_trapframe a s))"

section \<open>Exceptions\<close>

definition CAUSE_MISALIGNED_FETCH :: u64 where "CAUSE_MISALIGNED_FETCH = 0x0"
definition CAUSE_FETCH_ACCESS :: u64 where "CAUSE_FETCH_ACCESS = 0x1"
definition CAUSE_ILLEGAL_INSTRUCTION :: u64 where "CAUSE_ILLEGAL_INSTRUCTION = 0x2"
definition CAUSE_BREAKPOINT :: u64 where "CAUSE_BREAKPOINT = 0x3"
definition CAUSE_MISALIGNED_LOAD :: u64 where "CAUSE_MISALIGNED_LOAD = 0x4"
definition CAUSE_LOAD_ACCESS :: u64 where "CAUSE_LOAD_ACCESS = 0x5"
definition CAUSE_MISALIGNED_STORE :: u64 where "CAUSE_MISALIGNED_STORE = 0x6"
definition CAUSE_STORE_ACCESS :: u64 where "CAUSE_STORE_ACCESS = 0x7"
definition CAUSE_USER_ECALL :: u64 where "CAUSE_USER_ECALL = 0x8"
definition CAUSE_SUPERVISOR_ECALL :: u64 where "CAUSE_SUPERVISOR_ECALL = 0x9"
definition CAUSE_HYPERVISOR_ECALL :: u64 where "CAUSE_HYPERVISOR_ECALL = 0xa"
definition CAUSE_MACHINE_ECALL :: u64 where "CAUSE_MACHINE_ECALL = 0xb"
definition CAUSE_FETCH_PAGE_FAULT :: u64 where "CAUSE_FETCH_PAGE_FAULT = 0xc"
definition CAUSE_LOAD_PAGE_FAULT :: u64 where "CAUSE_LOAD_PAGE_FAULT = 0xd"

text \<open>How a handler ends: it returns, it has switched to another process, or it has left for user mode.\<close>

datatype trap_end = T_return | T_away | T_user

definition ctl_end :: "unit ctl \<Rightarrow> trap_end" where
  "ctl_end c = (case c of Ret _ \<Rightarrow> T_return | Away \<Rightarrow> T_away)"

definition handle_fault :: "string \<Rightarrow> u64 \<Rightarrow> kstate \<Rightarrow> (kstate \<times> trap_end) res" where
  "handle_fault msg a s =
     (let s = kputs (msg @ nl) s; tf = tfs s a in
      bindR (if check_mm_struct (mem s) \<noteq> 0 then print_pgfault a s
             else if current s = 0 then bindR (print_trapframe a s) (print_pgfault a) else Inr s) (\<lambda>s.
      bindR (pgfault_handler (tf_cause tf) (tf_tval tf) s) (\<lambda>(s, ret).
      if ret \<noteq> 0 then bindR (print_trapframe a s) (\<lambda>s. Inl (Panic ''handle pgfault failed.''))
      else Inr (s, T_return))))"

text \<open>\<open>kernel_execve_ret\<close> of trapentry.S copies the frame to the top of the kernel stack and leaves.\<close>

definition kernel_execve_ret :: "u64 \<Rightarrow> u64 \<Rightarrow> kstate \<Rightarrow> kstate" where
  "kernel_execve_ret a kstacktop s =
     (let s = upd_tf (kstacktop - sizeof_trapframe) (\<lambda>_. tfs s a) s
      in s\<lparr>kont := (kont s)(current s := [])\<rparr>)"

definition skip_insn :: "u64 \<Rightarrow> kstate \<Rightarrow> kstate" where
  "skip_insn a s = upd_tf a (\<lambda>t. t\<lparr>tf_epc := tf_epc t + 4\<rparr>) s"

definition exception_handler :: "bmem \<Rightarrow> u64 \<Rightarrow> kstate \<Rightarrow> (kstate \<times> trap_end) res" where
  "exception_handler vm a s =
     (let cause = tf_cause (tfs s a);
          say = (\<lambda>msg s. Inr (kputs (msg @ nl) s, T_return)) in
      if cause = CAUSE_MISALIGNED_FETCH then say ''Instruction address misaligned'' s
      else if cause = CAUSE_FETCH_ACCESS then say ''Instruction access fault'' s
      else if cause = CAUSE_ILLEGAL_INSTRUCTION then say ''Illegal instruction'' s
      else if cause = CAUSE_BREAKPOINT then
        let s = kputs (''Breakpoint'' @ nl) s in
        if gpr (tfs s a) R_a7 = 10 then
          bindR (syscall vm (skip_insn a s)) (\<lambda>(s, c).
          case c of
            Ret _ \<Rightarrow> Inr (kernel_execve_ret a (p_kstack (procs s (current s)) + KSTACKSIZE) s, T_user)
          | Away \<Rightarrow> Inr (s, T_away))
        else Inr (s, T_return)
      else if cause = CAUSE_MISALIGNED_LOAD then say ''Load address misaligned'' s
      else if cause = CAUSE_LOAD_ACCESS then handle_fault ''Load access fault'' a s
      else if cause = CAUSE_MISALIGNED_STORE then Inl (Panic ''AMO address misaligned'')
      else if cause = CAUSE_STORE_ACCESS then handle_fault ''Store/AMO access fault'' a s
      else if cause = CAUSE_USER_ECALL then
        bindR (syscall vm (skip_insn a s)) (\<lambda>(s, c). Inr (s, ctl_end c))
      else if cause = CAUSE_SUPERVISOR_ECALL then
        bindR (syscall vm (skip_insn a (kputs (''Environment call from S-mode'' @ nl) s))) (\<lambda>(s, c). Inr (s, ctl_end c))
      else if cause = CAUSE_HYPERVISOR_ECALL then say ''Environment call from H-mode'' s
      else if cause = CAUSE_MACHINE_ECALL then say ''Environment call from M-mode'' s
      else if cause = CAUSE_FETCH_PAGE_FAULT then say ''Instruction page fault'' s
      else if cause = CAUSE_LOAD_PAGE_FAULT then handle_fault ''Load page fault'' a s
      else if cause = CAUSE_STORE_PAGE_FAULT then handle_fault ''Store/AMO page fault'' a s
      else bindR (print_trapframe a s) (\<lambda>s. Inr (s, T_return)))"

section \<open>trap\<close>

definition trap_dispatch :: "bmem \<Rightarrow> u64 \<Rightarrow> kstate \<Rightarrow> (kstate \<times> trap_end) res" where
  "trap_dispatch vm a s =
     (if sint (tf_cause (tfs s a)) < 0
      then bindR (interrupt_handler a s) (\<lambda>s. Inr (s, T_return))
      else exception_handler vm a s)"

text \<open>The code of \<open>trap\<close> after \<open>trap_dispatch\<close>, with its locals from the frame on top of \<open>kont\<close>.\<close>

definition trap_finish :: "u64 \<Rightarrow> bool \<Rightarrow> kstate \<Rightarrow> (kstate \<times> trap_end) res" where
  "trap_finish otf in_kernel s =
     (let cur = current s;
          s = upd_proc cur (\<lambda>p. p\<lparr>p_tf := otf\<rparr>) s in
      if in_kernel then Inr (s, T_return)
      else if p_flags (procs s cur) AND PF_EXITING \<noteq> 0 then
        bindR (do_exit (- E_KILLED) s) (\<lambda>(s, _). Inr (s, T_away))
      else if p_need_resched (procs s cur) then bindR (schedule s) (\<lambda>s. Inr (s, T_away))
      else Inr (s, T_return))"

definition push_frame :: "kframe \<Rightarrow> kstate \<Rightarrow> kstate" where
  "push_frame f s = s\<lparr>kont := (kont s)(current s := f # kont s (current s))\<rparr>"

definition pop_frame :: "kstate \<Rightarrow> kstate" where
  "pop_frame s = s\<lparr>kont := (kont s)(current s := tl (kont s (current s)))\<rparr>"

definition trap :: "bmem \<Rightarrow> u64 \<Rightarrow> kstate \<Rightarrow> (kstate \<times> trap_end) res" where
  "trap vm a s =
     (if current s = 0 then trap_dispatch vm a s
      else
        let otf = p_tf (procs s (current s));
            s = upd_proc (current s) (\<lambda>p. p\<lparr>p_tf := a\<rparr>) s;
            in_kernel = trap_in_kernel (tfs s a);
            s = push_frame (F_trap otf in_kernel) s in
        bindR (trap_dispatch vm a s) (\<lambda>(s, e).
        if e = T_return then trap_finish otf in_kernel (pop_frame s) else Inr (s, e)))"

text \<open>The process that \<open>schedule\<close> has switched to goes on with what is on its kernel stack.\<close>

definition resume :: "kstate \<Rightarrow> (kstate \<times> trap_end) res" where
  "resume s =
     (case kont s (current s) of
        [] \<Rightarrow> Inr (s, T_return)
      | F_trap otf in_kernel # _ \<Rightarrow> trap_finish otf in_kernel (pop_frame s)
      | F_wait pid code_store # _ \<Rightarrow>
          bindR (wait_resume pid code_store (pop_frame s)) (\<lambda>(s, c).
          case c of
            Ret v \<Rightarrow> Inr (upd_tf (p_tf (procs s (current s))) (set_reg R_a0 (of_int v)) s, T_return)
          | Away \<Rightarrow> Inr (s, T_away)))"

end
