(* ===== verification/Kmonitor.thy ===== *)
theory Kmonitor
  imports Trap
begin

text \<open>
  What the kernel says and hears on its console: the commands and the loop of kern/debug/kmonitor.c, kern/debug/kdebug.c and
  kern/debug/panic.c, on \<open>console\<close> of the kernel state and the list of codes still to be read.
\<close>

section \<open>kdebug.c\<close>

text \<open>The linker's symbols.\<close>

record ksyms =
  sym_kern_init :: u64
  sym_etext :: u64
  sym_edata :: u64
  sym_end :: u64

text \<open>Division as in C, towards zero.\<close>

definition c_div :: "int \<Rightarrow> int \<Rightarrow> int" where "c_div a b = sgn a * sgn b * (\<bar>a\<bar> div \<bar>b\<bar>)"

definition print_kerninfo :: "ksyms \<Rightarrow> kstate \<Rightarrow> kstate res" where
  "print_kerninfo K s =
     bindR (kprintf (''Special kernel symbols:'' @ nl) [] s) (\<lambda>s.
     bindR (kprintf (''  entry  0x%08x (virtual)'' @ nl) [VNum (sym_kern_init K)] s) (\<lambda>s.
     bindR (kprintf (''  etext  0x%08x (virtual)'' @ nl) [VNum (sym_etext K)] s) (\<lambda>s.
     bindR (kprintf (''  edata  0x%08x (virtual)'' @ nl) [VNum (sym_edata K)] s) (\<lambda>s.
     bindR (kprintf (''  end    0x%08x (virtual)'' @ nl) [VNum (sym_end K)] s) (\<lambda>s.
     kprintf (''Kernel executable memory footprint: %dKB'' @ nl)
       [VNum (of_int (c_div (sint (sym_end K - sym_kern_init K) + 1023) 1024))] s)))))"

definition print_debuginfo :: "u64 \<Rightarrow> kstate \<Rightarrow> kstate res" where
  "print_debuginfo eip s = Inl (Panic ''Not Implemented!'')"

definition print_stackframe :: "kstate \<Rightarrow> kstate res" where
  "print_stackframe s = Inl (Panic ''Not Implemented!'')"

section \<open>panic.c\<close>

text \<open>\<open>__panic\<close> up to the shutdown of the machine, after which nothing runs: the new value of \<open>is_panic\<close> and the state that is
  left.\<close>

definition say_kernel :: "string \<Rightarrow> string \<Rightarrow> int \<Rightarrow> string \<Rightarrow> vaarg list \<Rightarrow> kstate \<Rightarrow> kstate res" where
  "say_kernel kind file line fmt ap s =
     bindR (kprintf (kind @ '' at %s:%d:'' @ nl @ ''    '') [VStr (Some file), VNum (of_int line)] s) (\<lambda>s.
     bindR (kprintf fmt ap s) (\<lambda>s.
     kprintf nl [] s))"

definition kernel_panic :: "bool \<Rightarrow> string \<Rightarrow> int \<Rightarrow> string \<Rightarrow> vaarg list \<Rightarrow> kstate \<Rightarrow> (bool \<times> kstate) res" where
  "kernel_panic is_panic file line fmt ap s =
     (if is_panic then Inr (True, s)
      else bindR (say_kernel ''kernel panic'' file line fmt ap s) (\<lambda>s. Inr (True, s)))"

definition kernel_warn :: "string \<Rightarrow> int \<Rightarrow> string \<Rightarrow> vaarg list \<Rightarrow> kstate \<Rightarrow> kstate res" where
  "kernel_warn = say_kernel ''kernel warning''"

section \<open>kmonitor.c\<close>

definition command_text :: "(string \<times> string) list" where
  "command_text =
     [(''help'', ''Display this list of commands.''),
      (''kerninfo'', ''Display information about the kernel.''),
      (''backtrace'', ''Print backtrace of stack frame.'')]"

definition mon_help :: "kstate \<Rightarrow> (kstate \<times> int) res" where
  "mon_help s =
     bindR (foldl (\<lambda>r (name, desc). bindR r (kprintf (''%s - %s'' @ nl) [VStr (Some name), VStr (Some desc)])) (Inr s) command_text)
       (\<lambda>s. Inr (s, 0))"

definition mon_kerninfo :: "ksyms \<Rightarrow> kstate \<Rightarrow> (kstate \<times> int) res" where
  "mon_kerninfo K s = bindR (print_kerninfo K s) (\<lambda>s. Inr (s, 0))"

definition mon_backtrace :: "kstate \<Rightarrow> (kstate \<times> int) res" where
  "mon_backtrace s = bindR (print_stackframe s) (\<lambda>s. Inr (s, 0))"

definition mon_func :: "ksyms \<Rightarrow> mon_command \<Rightarrow> kstate \<Rightarrow> (kstate \<times> int) res" where
  "mon_func K cmd s =
     (case cmd of Mon_help \<Rightarrow> mon_help s | Mon_kerninfo \<Rightarrow> mon_kerninfo K s | Mon_backtrace \<Rightarrow> mon_backtrace s)"

definition byte_chars :: "u8 list \<Rightarrow> string" where "byte_chars b = map (\<lambda>c. char_of (unat c)) b"

text \<open>\<open>parse\<close> with its output: the message comes when the last place of \<open>argv\<close> is taken.\<close>

definition parse_io :: "u8 list \<Rightarrow> kstate \<Rightarrow> (kstate \<times> nat list \<times> u8 list) res" where
  "parse_io b s =
     bindR (parse b 0 []) (\<lambda>(argv, buf).
     bindR (if length argv = MAXARGS then kprintf (''Too many arguments (max %d).'' @ nl) [VNum (of_nat MAXARGS)] s else Inr s) (\<lambda>s.
     Inr (s, argv, buf)))"

text \<open>\<open>runcmd\<close> with its output, on the bytes of the line.\<close>

definition runcmd_io :: "ksyms \<Rightarrow> u8 list \<Rightarrow> kstate \<Rightarrow> (kstate \<times> int) res" where
  "runcmd_io K b s =
     bindR (parse_io b s) (\<lambda>(s, argv, buf).
     bindR (runcmd b) (\<lambda>(cmd, r).
     case cmd of
       Some cmd \<Rightarrow> mon_func K cmd s
     | None \<Rightarrow>
         if argv = [] then Inr (s, 0)
         else bindR (kprintf (''Unknown command '' @ [CHR 0x27] @ ''%s'' @ [CHR 0x27] @ nl) [VStr (Some (byte_chars (string_at buf (hd argv))))] s) (\<lambda>s. Inr (s, 0))))"

lemma readline_shorter:
  assumes "readline inp b = Some (r, echo, rest)"
  shows "length rest < length inp"
proof -
  have "readline_loop inp i b e = Some (r, echo, rest) \<Longrightarrow> length rest < length inp" for i b e
  proof (induction inp i b e rule: readline_loop.induct)
    case (1 inp i b e)
    from "1.prems" obtain c inp' where g: "getchar inp = Some (c, inp')"
      by (auto simp: readline_loop.simps [of inp] split: option.splits)
    have "length inp' < length inp" by (rule getchar_shorter [OF g])
    moreover have "length rest < length inp' \<or> rest = inp'"
      using "1.prems" "1.IH" [OF g refl] by (auto simp: readline_loop.simps [of inp] g simp del: fun_upd_apply split: if_splits)
    ultimately show ?case by auto
  qed
  then show ?thesis using assms by (simp add: readline_def)
qed

text \<open>\<open>readline\<close> with its output: the prompt, if there is one, and the echo of the codes read.  None: still waiting.\<close>

definition readline_io :: "string option \<Rightarrow> int list \<Rightarrow> (nat \<Rightarrow> u8) \<Rightarrow> kstate \<Rightarrow>
    (kstate \<times> ((nat \<Rightarrow> u8) option \<times> int list) option) res" where
  "readline_io prompt inp b s =
     bindR (case prompt of None \<Rightarrow> Inr s | Some p \<Rightarrow> kprintf ''%s'' [VStr (Some p)] s) (\<lambda>s.
     Inr (case readline inp b of
            None \<Rightarrow> (s, None)
          | Some (r, echo, inp) \<Rightarrow> (s\<lparr>console := console s @ map of_int echo\<rparr>, Some (r, inp))))"

lemma readline_io_shorter: "readline_io prompt inp b s = Inr (t, Some (r, rest)) \<Longrightarrow> length rest < length inp"
  by (auto simp: readline_io_def bindR_eq_Inr dest: readline_shorter split: option.splits)

text \<open>How the loop stands when the input is used up: it waits for a line, or a command has told it to leave.\<close>

datatype mon_end = Mon_waits | Mon_left

text \<open>The array \<open>buf\<close> of readline.c keeps its contents from line to line.\<close>

definition line_of :: "(nat \<Rightarrow> u8) \<Rightarrow> u8 list" where "line_of b = takeWhile (\<lambda>c. c \<noteq> 0) (map b [0..<BUFSIZE])"

function kmonitor_loop :: "ksyms \<Rightarrow> int list \<Rightarrow> (nat \<Rightarrow> u8) \<Rightarrow> kstate \<Rightarrow> (kstate \<times> mon_end) res" where
  "kmonitor_loop K inp b s =
     bindR (readline_io (Some ''K> '') inp b s) (\<lambda>(s, l).
     case l of
       None \<Rightarrow> Inr (s, Mon_waits)
     | Some (r, inp) \<Rightarrow>
         (case r of
            None \<Rightarrow> kmonitor_loop K inp b s
          | Some b \<Rightarrow>
              bindR (runcmd_io K (line_of b) s) (\<lambda>(s, r).
              if r < 0 then Inr (s, Mon_left) else kmonitor_loop K inp b s)))"
  by pat_completeness auto
termination
  by (relation "measure (\<lambda>(K, inp, b, s). length inp)") (auto dest: readline_io_shorter)

declare kmonitor_loop.simps [simp del]

definition kmonitor :: "ksyms \<Rightarrow> u64 option \<Rightarrow> int list \<Rightarrow> (nat \<Rightarrow> u8) \<Rightarrow> kstate \<Rightarrow> (kstate \<times> mon_end) res" where
  "kmonitor K tf inp b s =
     bindR (kprintf (''Welcome to the kernel debug monitor!!'' @ nl) [] s) (\<lambda>s.
     bindR (kprintf (''Type '' @ [CHR 0x27] @ ''help'' @ [CHR 0x27] @ '' for a list of commands.'' @ nl) [] s) (\<lambda>s.
     bindR (case tf of None \<Rightarrow> Inr s | Some a \<Rightarrow> print_trapframe a s) (\<lambda>s.
     kmonitor_loop K inp b s)))"

text \<open>The comment on the command table says that a command returns -1 to leave the monitor; none does, so the monitor is never left.\<close>

lemma mon_func_zero: "mon_func K cmd s = Inr (t, r) \<Longrightarrow> r = 0"
  by (cases cmd) (auto simp: mon_func_def mon_help_def mon_kerninfo_def mon_backtrace_def bindR_eq_Inr)

lemma runcmd_io_zero:
  assumes "runcmd_io K b s = Inr (t, r)"
  shows "r = 0"
proof -
  obtain argv buf u cmd x where "(case cmd of Some cmd \<Rightarrow> mon_func K cmd u | None \<Rightarrow>
      if argv = [] then Inr (u, 0)
      else bindR (kprintf (''Unknown command '' @ [CHR 0x27] @ ''%s'' @ [CHR 0x27] @ nl)
        [VStr (Some (byte_chars (string_at buf (hd argv))))] u) (\<lambda>s. Inr (s, 0))) = Inr (t, r)"
    using assms unfolding runcmd_io_def bindR_eq_Inr case_prod_beta by blast
  then show ?thesis by (cases cmd) (auto simp: bindR_eq_Inr dest: mon_func_zero split: if_splits)
qed

lemma kmonitor_loop_stays: "kmonitor_loop K inp b s = Inr (t, e) \<Longrightarrow> e = Mon_waits"
proof (induction K inp b s rule: kmonitor_loop.induct)
  case (1 K inp b s)
  obtain u l where u: "readline_io (Some ''K> '') inp b s = Inr (u, l)"
    using "1.prems" unfolding kmonitor_loop.simps [of K inp] bindR_eq_Inr case_prod_beta by (metis prod.collapse)
  show ?case
  proof (cases l)
    case None
    then show ?thesis using "1.prems" by (simp add: kmonitor_loop.simps [of K inp] u)
  next
    case (Some x)
    obtain r rest where l: "x = (r, rest)" by (cases x)
    note step = "1.prems" [unfolded kmonitor_loop.simps [of K inp b s] u bindR_Inr Some l option.case prod.case]
    show ?thesis
    proof (cases r)
      case None
      then show ?thesis using step "1.IH"(1) [OF u refl Some l [symmetric] None] by simp
    next
      case r: (Some b')
      then obtain w x where w: "runcmd_io K (line_of b') u = Inr (w, x)" using step by (auto simp: bindR_eq_Inr)
      have x: "x = 0" by (rule runcmd_io_zero [OF w])
      then have "kmonitor_loop K rest b' w = Inr (t, e)" using step r w by simp
      then show ?thesis using "1.IH"(2) [OF u refl Some l [symmetric] r w refl] x by simp
    qed
  qed
qed

theorem kmonitor_stays: "kmonitor K tf inp b s = Inr (t, e) \<Longrightarrow> e = Mon_waits"
  by (auto simp: kmonitor_def bindR_eq_Inr dest: kmonitor_loop_stays)

end
