(* ===== verification/Proc_Inv.thy ===== *)
theory Proc_Inv
  imports Proc_Table
begin

text \<open>
  What the process table promises: the list of all processes, unique pids, the hash lists, the
  sibling chains; and the theorems on \<open>get_pid\<close>, \<open>find_proc\<close>, \<open>set_links\<close>, \<open>remove_links\<close> and \<open>schedule\<close>.
\<close>

section \<open>The list of processes\<close>

definition plist :: "proc_ptr links \<Rightarrow> addr list \<Rightarrow> bool" where
  "plist L ps \<longleftrightarrow> dll L ProcList (map ListLink ps)"

lemma plist_unique: "plist L ps \<Longrightarrow> plist L qs \<Longrightarrow> ps = qs"
  unfolding plist_def using dll_unique [of L ProcList "map ListLink ps" "map ListLink qs"]
  by (simp add: inj_map_eq_map [of ListLink] inj_def)

lemma plist_next: "plist L (xs @ ys) \<Longrightarrow>
  list_next L (last (ProcList # map ListLink xs)) = hd (map ListLink ys @ [ProcList])"
  unfolding plist_def using dll_next [of L ProcList "map ListLink xs" "map ListLink ys"] by simp

lemma plist_distinct: "plist L ps \<Longrightarrow> distinct ps"
  by (auto simp: plist_def dll_def distinct_map)

lemma plist_next_elem: "plist L (xs @ p # ys) \<Longrightarrow> list_next L (ListLink p) = hd (map ListLink ys @ [ProcList])"
  using plist_next [of L "xs @ [p]" ys] by simp

section \<open>Pid allocation\<close>

text \<open>\<open>lp\<close> and \<open>ns\<close> are right for the processes \<open>Q\<close>: none of them has a pid from \<open>lp\<close> up to below \<open>ns\<close>.\<close>

definition pid_gap :: "(addr \<Rightarrow> proc_struct) \<Rightarrow> addr set \<Rightarrow> int \<Rightarrow> int \<Rightarrow> bool" where
  "pid_gap P Q lp ns \<longleftrightarrow> (\<forall>p\<in>Q. p_pid (P p) < lp \<or> ns \<le> p_pid (P p))"

definition free_pid :: "(addr \<Rightarrow> proc_struct) \<Rightarrow> addr list \<Rightarrow> int \<Rightarrow> bool" where
  "free_pid P ps k \<longleftrightarrow> (\<forall>p\<in>set ps. p_pid (P p) \<noteq> k)"

lemma pid_loop_end: "list_next L le = ProcList \<Longrightarrow> pid_loop L P le lp ns = Some (lp, ns)"
  by (subst pid_loop.simps) simp

lemma pid_loop_step:
  "list_next L le = ListLink y \<Longrightarrow> pid_loop L P le lp ns =
      (if p_pid (P y) = lp then
         if lp + 1 \<ge> ns then pid_loop L P ProcList (if lp + 1 \<ge> MAX_PID then 1 else lp + 1) MAX_PID
         else pid_loop L P (ListLink y) (lp + 1) ns
       else if p_pid (P y) > lp \<and> ns > p_pid (P y) then pid_loop L P (ListLink y) lp (p_pid (P y))
       else pid_loop L P (ListLink y) lp ns)"
  by (subst pid_loop.simps) (simp only: Let_def proc_ptr.simps)

definition pids_used :: "(addr \<Rightarrow> proc_struct) \<Rightarrow> addr list \<Rightarrow> int \<Rightarrow> int \<Rightarrow> bool" where
  "pids_used P ps lo hi \<longleftrightarrow> (\<forall>k. lo \<le> k \<and> k < hi \<longrightarrow> \<not> free_pid P ps k)"

lemma pids_used_empty: "pids_used P ps k k"
  by (auto simp: pids_used_def)

lemma pids_used_Suc: "p_pid (P y) = lo \<Longrightarrow> y \<in> set ps \<Longrightarrow> pids_used P ps (lo + 1) hi \<Longrightarrow> pids_used P ps lo hi"
  unfolding pids_used_def free_pid_def by (metis add1_zle_eq order_le_less)

lemma pids_used_trans: "pids_used P ps a b \<Longrightarrow> pids_used P ps b c \<Longrightarrow> pids_used P ps a c"
  by (meson pids_used_def not_le)

text \<open>The loop has found the first free pid from \<open>lp\<close> on, with a right \<open>next_safe\<close>.\<close>

definition pid_found :: "(addr \<Rightarrow> proc_struct) \<Rightarrow> addr list \<Rightarrow> int \<Rightarrow> int \<times> int \<Rightarrow> bool" where
  "pid_found P ps lp r \<longleftrightarrow> lp \<le> fst r \<and> fst r < snd r \<and> snd r \<le> MAX_PID \<and>
     pid_gap P (set ps) (fst r) (snd r) \<and> pids_used P ps lp (fst r)"

text \<open>
  One scan, from a position where the processes before are right: it ends, or the loop restarts with a
  larger \<open>last_pid\<close>, or all pids are used and it restarts with 1.
\<close>

lemma pid_scan:
  assumes "plist L ps" and "ps = xs @ ys" and "pid_gap P (set xs) lp ns" and "lp < ns" and "ns \<le> MAX_PID"
  shows "(\<exists>r. pid_loop L P (last (ProcList # map ListLink xs)) lp ns = Some r \<and> pid_found P ps lp r) \<or>
         (\<exists>lp'. pid_loop L P (last (ProcList # map ListLink xs)) lp ns = pid_loop L P ProcList lp' MAX_PID \<and>
            lp < lp' \<and> lp' < MAX_PID \<and> pids_used P ps lp lp') \<or>
         (pid_loop L P (last (ProcList # map ListLink xs)) lp ns = pid_loop L P ProcList 1 MAX_PID \<and>
            pids_used P ps lp MAX_PID)"
  using assms
proof (induction ys arbitrary: xs lp ns)
  case Nil
  have "list_next L (last (ProcList # map ListLink xs)) = ProcList"
    using plist_next [of L xs "[]"] Nil.prems(1,2) by simp
  note pid_loop_end [OF this, of P lp ns]
  with Nil.prems show ?case by (auto simp: pid_found_def pids_used_empty)
next
  case (Cons y ys)
  let ?le = "last (ProcList # map ListLink xs)"
  have nxt: "list_next L ?le = ListLink y"
    using plist_next [of L xs "y # ys"] Cons.prems(1,2) by simp
  have le': "last (ProcList # map ListLink (xs @ [y])) = ListLink y" by simp
  have ps': "ps = (xs @ [y]) @ ys" and y: "y \<in> set ps" using Cons.prems(2) by simp_all
  note step = pid_loop_step [OF nxt, of P lp ns]
  note IH = Cons.IH [OF Cons.prems(1) ps', unfolded le']
  show ?case
  proof (cases "p_pid (P y) = lp")
    case eq: True
    have used: "pids_used P ps lp (lp + 1)" using eq y by (auto simp: pids_used_def free_pid_def)
    show ?thesis
    proof (cases "lp + 1 \<ge> ns")
      case True
      then have "pid_loop L P ?le lp ns = pid_loop L P ProcList (if lp + 1 \<ge> MAX_PID then 1 else lp + 1) MAX_PID"
        using step eq by simp
      moreover have "lp + 1 \<ge> MAX_PID \<Longrightarrow> lp + 1 = MAX_PID" using Cons.prems(4,5) by simp
      ultimately show ?thesis using used by (cases "lp + 1 \<ge> MAX_PID") auto
    next
      case False
      have gap: "pid_gap P (set (xs @ [y])) (lp + 1) ns"
        using Cons.prems(3) eq by (auto simp: pid_gap_def)
      have "pid_loop L P ?le lp ns = pid_loop L P (ListLink y) (lp + 1) ns"
        using step False eq by simp
      moreover have "pid_found P ps (lp + 1) r \<Longrightarrow> pid_found P ps lp r" for r
        using pids_used_Suc [of P y, OF eq y] by (auto simp: pid_found_def)
      ultimately show ?thesis
        using IH [OF gap _ Cons.prems(5)] False pids_used_Suc [of P y, OF eq y] by (smt (verit))
    qed
  next
    case ne: False
    show ?thesis
    proof (cases "p_pid (P y) > lp \<and> ns > p_pid (P y)")
      case True
      have gap: "pid_gap P (set (xs @ [y])) lp (p_pid (P y))"
        using Cons.prems(3) True by (auto simp: pid_gap_def)
      have "pid_loop L P ?le lp ns = pid_loop L P (ListLink y) lp (p_pid (P y))"
        using step True ne by simp
      with IH [OF gap] True Cons.prems(5) show ?thesis by simp
    next
      case False
      have gap: "pid_gap P (set (xs @ [y])) lp ns"
        using Cons.prems(3) False ne by (auto simp: pid_gap_def)
      have "pid_loop L P ?le lp ns = pid_loop L P (ListLink y) lp ns"
        using step False ne by (simp add: not_less)
      with IH [OF gap Cons.prems(4,5)] show ?thesis by simp
    qed
  qed
qed

text \<open>The whole loop, restarts included.\<close>

lemma pid_loop_up:
  assumes "plist L ps" and "lp < MAX_PID"
  shows "(\<exists>r. pid_loop L P ProcList lp MAX_PID = Some r \<and> pid_found P ps lp r) \<or>
     (pid_loop L P ProcList lp MAX_PID = pid_loop L P ProcList 1 MAX_PID \<and> pids_used P ps lp MAX_PID)"
  using assms(2)
proof (induction "nat (MAX_PID - lp)" arbitrary: lp rule: less_induct)
  case less
  have g: "pid_gap P (set []) lp MAX_PID" by (simp add: pid_gap_def)
  from pid_scan [OF assms(1) _ g less.prems, of ps]
  consider (stop) r where "pid_loop L P ProcList lp MAX_PID = Some r" "pid_found P ps lp r"
    | (again) lp' where "pid_loop L P ProcList lp MAX_PID = pid_loop L P ProcList lp' MAX_PID" "lp < lp'"
        "lp' < MAX_PID" "pids_used P ps lp lp'"
    | (wrap) "pid_loop L P ProcList lp MAX_PID = pid_loop L P ProcList 1 MAX_PID" "pids_used P ps lp MAX_PID"
    by auto
  then show ?case
  proof cases
    case stop
    then show ?thesis by blast
  next
    case again
    have "nat (MAX_PID - lp') < nat (MAX_PID - lp)" using again by simp
    moreover have "pid_found P ps lp' r \<Longrightarrow> pid_found P ps lp r" for r
      using again(2,4) by (auto simp: pid_found_def intro: pids_used_trans)
    ultimately show ?thesis using less.hyps [OF _ again(3)] again(1) pids_used_trans [OF again(4)] by metis
  next
    case wrap
    then show ?thesis by blast
  qed
qed

lemma pid_loop_ends:
  assumes "plist L ps" and "1 \<le> lp" and "lp < MAX_PID" and "free_pid P ps f" and "1 \<le> f" and "f < MAX_PID"
  shows "\<exists>r. pid_loop L P ProcList lp MAX_PID = Some r \<and> 1 \<le> fst r \<and> fst r < snd r \<and> snd r \<le> MAX_PID \<and>
     pid_gap P (set ps) (fst r) (snd r)"
proof -
  have "1 < MAX_PID" by (simp add: MAX_PID_def MAX_PROCESS_def)
  with pid_loop_up [OF assms(1), of 1 P] assms(4-6)
  have one: "\<exists>r. pid_loop L P ProcList 1 MAX_PID = Some r \<and> pid_found P ps 1 r"
    by (auto simp: pids_used_def)
  from pid_loop_up [OF assms(1,3), of P] show ?thesis
    using one assms(2) by (auto simp: pid_found_def)
qed

text \<open>With fewer processes than pids some pid is free.\<close>

lemma free_pid_exists:
  assumes "int (length ps) < MAX_PID - 1"
  shows "\<exists>f. 1 \<le> f \<and> f < MAX_PID \<and> free_pid P ps f"
proof (rule ccontr)
  assume "\<not> ?thesis"
  then have "{1..<MAX_PID} \<subseteq> (\<lambda>p. p_pid (P p)) ` set ps" by (auto simp: free_pid_def)
  then have "card {1..<MAX_PID} \<le> card ((\<lambda>p. p_pid (P p)) ` set ps)" by (intro card_mono) simp_all
  also have "\<dots> \<le> length ps" using card_image_le card_length le_trans by blast
  finally show False using assms by simp
qed

definition pid_inv :: "kstate \<Rightarrow> addr list \<Rightarrow> bool" where
  "pid_inv s ps \<longleftrightarrow> plist (plinks s) ps \<and> distinct (map (\<lambda>p. p_pid (procs s p)) ps) \<and>
     (\<forall>p\<in>set ps. 1 \<le> p_pid (procs s p) \<and> p_pid (procs s p) < MAX_PID) \<and>
     1 \<le> last_pid s \<and> last_pid s \<le> MAX_PID \<and> next_safe s \<le> MAX_PID \<and>
     pid_gap (procs s) (set ps) (last_pid s + 1) (next_safe s)"

lemma get_pid_ok:
  assumes "pid_inv s ps" and "int (length ps) < MAX_PID - 1"
  shows "\<exists>pid ns. get_pid s = Inr (s\<lparr>last_pid := pid, next_safe := ns\<rparr>, pid) \<and> 1 \<le> pid \<and> pid < ns \<and>
     ns \<le> MAX_PID \<and> pid_gap (procs s) (set ps) pid ns"
proof -
  let ?L = "plinks s" and ?P = "procs s"
  have pl: "plist ?L ps" and lp1: "1 \<le> last_pid s" and ns: "next_safe s \<le> MAX_PID"
    and gap: "pid_gap ?P (set ps) (last_pid s + 1) (next_safe s)"
    using assms(1) by (auto simp: pid_inv_def)
  from free_pid_exists [OF assms(2), of ?P] obtain f where f: "1 \<le> f" "f < MAX_PID" "free_pid ?P ps f" by blast
  have run: "1 \<le> lp \<Longrightarrow> lp < MAX_PID \<Longrightarrow> \<exists>r. pid_loop ?L ?P ProcList lp MAX_PID = Some r \<and> 1 \<le> fst r \<and>
      fst r < snd r \<and> snd r \<le> MAX_PID \<and> pid_gap ?P (set ps) (fst r) (snd r)" for lp
    by (rule pid_loop_ends [OF pl _ _ f(3,1,2)])
  have "1 < MAX_PID" by (simp add: MAX_PID_def MAX_PROCESS_def)
  show ?thesis
  proof (cases "last_pid s + 1 \<ge> MAX_PID")
    case True
    with run [of 1] \<open>1 < MAX_PID\<close> show ?thesis by (auto simp: get_pid_def Let_def)
  next
    case False
    show ?thesis
    proof (cases "last_pid s + 1 \<ge> next_safe s")
      case True
      with run [of "last_pid s + 1"] False lp1 show ?thesis by (auto simp: get_pid_def Let_def)
    next
      case lt: False
      with False gap lp1 ns show ?thesis
        by (intro exI [of _ "last_pid s + 1"] exI [of _ "next_safe s"]) (simp add: get_pid_def Let_def)
    qed
  qed
qed

section \<open>Round robin\<close>

text \<open>The entries a walk along \<open>list_next\<close> meets.\<close>

fun walk_next :: "'p links \<Rightarrow> 'p \<Rightarrow> 'p list \<Rightarrow> bool" where
  "walk_next L le [] \<longleftrightarrow> True"
| "walk_next L le (v # vs) \<longleftrightarrow> list_next L le = v \<and> walk_next L v vs"

lemma walk_next_append: "walk_next L le (vs @ ws) \<longleftrightarrow> walk_next L le vs \<and> walk_next L (last (le # vs)) ws"
  by (induction vs arbitrary: le) auto

lemma seg_walk_next: "seg L a xs b \<Longrightarrow> walk_next L a (xs @ [b])"
  by (induction xs arbitrary: a) (auto simp: list_next_def)

definition link_procs :: "proc_ptr list \<Rightarrow> addr list" where
  "link_procs vs = concat (map (\<lambda>v. case v of ProcList \<Rightarrow> [] | ListLink p \<Rightarrow> [p]) vs)"

lemma link_procs_simps [simp]:
  "link_procs [] = []" "link_procs (ProcList # vs) = link_procs vs" "link_procs (ListLink p # vs) = p # link_procs vs"
  "link_procs (vs @ ws) = link_procs vs @ link_procs ws" "link_procs (map ListLink ps) = ps"
  by (simp_all add: link_procs_def) (induction ps, simp_all)

abbreviation runnable :: "(addr \<Rightarrow> proc_struct) \<Rightarrow> addr \<Rightarrow> bool" where
  "runnable P p \<equiv> p_state (P p) = PROC_RUNNABLE"

lemma sched_loop_head: "list_next L le = ProcList \<Longrightarrow>
  sched_loop L P lst le nxt = (if ProcList \<noteq> lst then sched_loop L P lst ProcList nxt else Some nxt)"
  by (subst sched_loop.simps) (simp only: Let_def proc_ptr.simps)

lemma sched_loop_link: "list_next L le = ListLink p \<Longrightarrow>
  sched_loop L P lst le nxt = (if runnable P p then Some p
     else if ListLink p \<noteq> lst then sched_loop L P lst (ListLink p) p else Some p)"
  by (subst sched_loop.simps) (simp only: Let_def proc_ptr.simps)

lemma sched_loop_walk:
  assumes "walk_next L le (vs @ [lst])" and "lst \<notin> set vs" and "nxt = 0 \<or> \<not> runnable P nxt"
  shows "\<exists>r. sched_loop L P lst le nxt = Some r \<and>
     (case find (runnable P) (link_procs (vs @ [lst])) of
        Some p \<Rightarrow> r = p | None \<Rightarrow> r = 0 \<or> \<not> runnable P r)"
  using assms
proof (induction vs arbitrary: le nxt)
  case Nil
  then show ?case by (cases lst) (auto simp: sched_loop_head sched_loop_link)
next
  case (Cons v vs)
  then have nx: "list_next L le = v" and w: "walk_next L v (vs @ [lst])" and ne: "v \<noteq> lst" "lst \<notin> set vs" by auto
  show ?case
  proof (cases v)
    case ProcList
    then show ?thesis using Cons.IH [OF w ne(2) Cons.prems(3)] nx ne(1) by (simp add: sched_loop_head)
  next
    case (ListLink p)
    show ?thesis
    proof (cases "runnable P p")
      case True
      then show ?thesis using ListLink nx by (simp add: sched_loop_link)
    next
      case False
      then show ?thesis using Cons.IH [OF w ne(2), of p] nx ne(1) ListLink by (simp add: sched_loop_link)
    qed
  qed
qed

text \<open>The order in which \<open>schedule\<close> looks at the processes.\<close>

definition sched_order :: "addr \<Rightarrow> addr \<Rightarrow> addr list \<Rightarrow> addr list" where
  "sched_order idle c ps =
     (if c = idle then ps else tl (dropWhile ((\<noteq>) c) ps) @ takeWhile ((\<noteq>) c) ps @ [c])"

lemma sched_order_split:
  "c \<noteq> idle \<Longrightarrow> c \<notin> set xs \<Longrightarrow> sched_order idle c (xs @ c # ys) = ys @ xs @ [c]"
  by (auto simp: sched_order_def dropWhile_append takeWhile_append)

definition sched_pick :: "(addr \<Rightarrow> proc_struct) \<Rightarrow> addr \<Rightarrow> addr \<Rightarrow> addr list \<Rightarrow> addr" where
  "sched_pick P idle c ps = (case find (runnable P) (sched_order idle c ps) of Some p \<Rightarrow> p | None \<Rightarrow> idle)"

lemma plist_walk: "plist L ps \<Longrightarrow> walk_next L ProcList (map ListLink ps @ [ProcList])"
  by (auto simp: plist_def dll_def intro: seg_walk_next)

lemma sched_loop_order:
  assumes "plist L ps" and "c = idle \<or> c \<in> set ps"
  shows "\<exists>r. sched_loop L P (if c = idle then ProcList else ListLink c) (if c = idle then ProcList else ListLink c) 0 = Some r \<and>
     (case find (runnable P) (sched_order idle c ps) of Some p \<Rightarrow> r = p | None \<Rightarrow> r = 0 \<or> \<not> runnable P r)"
proof (cases "c = idle")
  case True
  have "ProcList \<notin> set (map ListLink ps)" by auto
  from sched_loop_walk [OF plist_walk [OF assms(1)] this, of 0 P] True show ?thesis
    by (simp add: sched_order_def)
next
  case False
  with assms(2) obtain xs ys where ps: "ps = xs @ c # ys" "c \<notin> set xs"
    by (meson split_list_first)
  have d: "c \<notin> set ys" using plist_distinct [OF assms(1)] ps by auto
  have w: "walk_next L ProcList (map ListLink xs @ [ListLink c] @ map ListLink ys @ [ProcList])"
    using plist_walk [OF assms(1)] ps by simp
  have "walk_next L ProcList (map ListLink xs @ [ListLink c])"
    "walk_next L (ListLink c) (map ListLink ys @ [ProcList])"
    using w by (auto simp: walk_next_append)
  then have "walk_next L (ListLink c) ((map ListLink ys @ [ProcList] @ map ListLink xs) @ [ListLink c])"
    by (auto simp: walk_next_append)
  moreover have "ListLink c \<notin> set (map ListLink ys @ [ProcList] @ map ListLink xs)" using d ps(2) by auto
  ultimately show ?thesis
    using sched_loop_walk [of L "ListLink c" "map ListLink ys @ [ProcList] @ map ListLink xs" "ListLink c" 0 P] False ps
    by (simp add: sched_order_split)
qed

section \<open>The effect of schedule\<close>

lemma k_intr_save_fields [simp]:
  "procs (snd (k_intr_save s)) = procs s" "plinks (snd (k_intr_save s)) = plinks s"
  "hlinks (snd (k_intr_save s)) = hlinks s" "current (snd (k_intr_save s)) = current s"
  "idleproc (snd (k_intr_save s)) = idleproc s" "initproc (snd (k_intr_save s)) = initproc s"
  "tfs (snd (k_intr_save s)) = tfs s" "nr_process (snd (k_intr_save s)) = nr_process s"
  "last_pid (snd (k_intr_save s)) = last_pid s" "next_safe (snd (k_intr_save s)) = next_safe s"
  "kont (snd (k_intr_save s)) = kont s" "cpu (snd (k_intr_save s)) = cpu s"
  "sched_flag (snd (k_intr_save s)) = sched_flag s" "forkret_entry (snd (k_intr_save s)) = forkret_entry s"
  "boot_cr3 (snd (k_intr_save s)) = boot_cr3 s" "boot_pgdir (snd (k_intr_save s)) = boot_pgdir s"
  "ticks (snd (k_intr_save s)) = ticks s" "console (snd (k_intr_save s)) = console s"
  by (simp_all add: k_intr_save_def split: prod.splits)

lemma k_intr_save_restore: "k_intr_restore (fst (k_intr_save s)) (snd (k_intr_save s)) = s"
  using intr_save_restore [of "sstatus (mem s)"]
  by (cases "intr_save (sstatus (mem s))")
    (simp add: k_intr_restore_def k_intr_save_def local_intr_save_def local_intr_restore_def)

lemma k_intr_save_mem: "k_intr_save s = (fl, u) \<Longrightarrow> \<exists>m. u = s\<lparr>mem := m\<rparr>"
  by (auto simp: k_intr_save_def split: prod.splits)

text \<open>A section with interrupts off gives back the status register it found.\<close>

lemma intr_sectionE:
  obtains fl m where "k_intr_save s = (fl, s\<lparr>mem := m\<rparr>)"
    and "\<forall>t. mem t = m \<longrightarrow> k_intr_restore fl t = t\<lparr>mem := mem s\<rparr>"
proof -
  obtain fl u where u: "k_intr_save s = (fl, u)" by (cases "k_intr_save s") auto
  obtain m where m: "u = s\<lparr>mem := m\<rparr>" using k_intr_save_mem [OF u] by blast
  have "mem (k_intr_restore fl u) = mem s" using k_intr_save_restore [of s] u by simp
  then have "local_intr_restore fl m = mem s" by (simp add: m k_intr_restore_def)
  with u m show thesis by (intro that [of fl m]) (auto simp: k_intr_restore_def)
qed

lemma k_intr_restore_fields [simp]:
  "procs (k_intr_restore b s) = procs s" "plinks (k_intr_restore b s) = plinks s"
  "hlinks (k_intr_restore b s) = hlinks s" "current (k_intr_restore b s) = current s"
  "idleproc (k_intr_restore b s) = idleproc s" "initproc (k_intr_restore b s) = initproc s"
  "tfs (k_intr_restore b s) = tfs s" "nr_process (k_intr_restore b s) = nr_process s"
  "last_pid (k_intr_restore b s) = last_pid s" "next_safe (k_intr_restore b s) = next_safe s"
  "kont (k_intr_restore b s) = kont s" "cpu (k_intr_restore b s) = cpu s"
  "sched_flag (k_intr_restore b s) = sched_flag s" "forkret_entry (k_intr_restore b s) = forkret_entry s"
  "boot_cr3 (k_intr_restore b s) = boot_cr3 s" "boot_pgdir (k_intr_restore b s) = boot_pgdir s"
  "ticks (k_intr_restore b s) = ticks s" "console (k_intr_restore b s) = console s"
  by (simp_all add: k_intr_restore_def)

definition sched_proc :: "addr \<Rightarrow> addr \<Rightarrow> kcontext \<Rightarrow> addr \<Rightarrow> proc_struct \<Rightarrow> proc_struct" where
  "sched_proc c n regs p q =
     (let q = (if p = c then q\<lparr>p_need_resched := False\<rparr> else q);
          q = (if p = n then q\<lparr>p_runs := p_runs q + 1\<rparr> else q)
      in if p = c \<and> n \<noteq> c then q\<lparr>p_context := regs\<rparr> else q)"

lemma sched_proc_fields [simp]:
  "p_state (sched_proc c n r p q) = p_state q" "p_pid (sched_proc c n r p q) = p_pid q"
  "p_parent (sched_proc c n r p q) = p_parent q" "p_mm (sched_proc c n r p q) = p_mm q"
  "p_cptr (sched_proc c n r p q) = p_cptr q" "p_yptr (sched_proc c n r p q) = p_yptr q"
  "p_optr (sched_proc c n r p q) = p_optr q" "p_wait_state (sched_proc c n r p q) = p_wait_state q"
  "p_flags (sched_proc c n r p q) = p_flags q" "p_tf (sched_proc c n r p q) = p_tf q"
  "p_cr3 (sched_proc c n r p q) = p_cr3 q" "p_kstack (sched_proc c n r p q) = p_kstack q"
  "p_exit_code (sched_proc c n r p q) = p_exit_code q" "p_name (sched_proc c n r p q) = p_name q"
  by (simp_all add: sched_proc_def Let_def)

lemma find_runnable_sched:
  "find (\<lambda>p. p_state (((procs s)(c := (procs s c)\<lparr>p_need_resched := b\<rparr>)) p) = PROC_RUNNABLE) ps =
   find (runnable (procs s)) ps"
  by (rule find_cong) auto

text \<open>What every case of \<open>schedule\<close> leaves alone.\<close>

definition same_table :: "kstate \<Rightarrow> kstate \<Rightarrow> bool" where
  "same_table s t \<longleftrightarrow> plinks t = plinks s \<and> hlinks t = hlinks s \<and> tfs t = tfs s \<and> kont t = kont s \<and>
     idleproc t = idleproc s \<and> initproc t = initproc s \<and> nr_process t = nr_process s \<and>
     last_pid t = last_pid s \<and> next_safe t = next_safe s"

lemma schedule_ok:
  assumes "plist (plinks s) ps" and "current s = idleproc s \<or> current s \<in> set ps" and "0 \<notin> set ps"
  defines "n \<equiv> sched_pick (procs s) (idleproc s) (current s) ps"
  shows "\<exists>t. schedule s = Inr t \<and> current t = n \<and> same_table s t \<and>
     procs t = (\<lambda>p. sched_proc (current s) n (call_regs s) p (procs s p)) \<and>
     (if n = current s then mem t = mem s \<and> cpu t = cpu s
      else cpu t = p_context (procs s n) \<and> sched_flag t = (sched_flag s)(current s := fst (k_intr_save s)) \<and>
        satp (mem t) = (0x8000000000000000 OR drop_bit 12 (p_cr3 (procs s n))))"
proof -
  let ?c = "current s" and ?i = "idleproc s" and ?u = "snd (k_intr_save s)"
  let ?P = "(procs s)(?c := (procs s ?c)\<lparr>p_need_resched := False\<rparr>)"
  let ?lst = "if ?c = ?i then ProcList else ListLink ?c"
  obtain r where r: "sched_loop (plinks s) ?P ?lst ?lst 0 = Some r"
    and pick: "case find (runnable ?P) (sched_order ?i ?c ps) of Some p \<Rightarrow> r = p | None \<Rightarrow> r = 0 \<or> \<not> runnable ?P r"
    using sched_loop_order [OF assms(1,2), of ?P] by blast
  have mem_ps: "set (sched_order ?i ?c ps) \<subseteq> set ps"
    using assms(2) by (auto simp: sched_order_def dest: set_takeWhileD)
      (metis list.set_sel(2) set_dropWhileD tl_Nil list.set(1) empty_iff)
  have n: "(if r = 0 \<or> p_state (?P r) \<noteq> PROC_RUNNABLE then ?i else r) = n"
  proof (cases "find (runnable (procs s)) (sched_order ?i ?c ps)")
    case None
    with pick show ?thesis unfolding n_def sched_pick_def find_runnable_sched by auto
  next
    case (Some p)
    then have "p \<in> set ps" "runnable (procs s) p" using mem_ps by (auto simp: find_Some_iff)
    with Some pick assms(3) show ?thesis unfolding n_def sched_pick_def find_runnable_sched by auto
  qed
  obtain fl u where fl: "k_intr_save s = (fl, u)" by (cases "k_intr_save s") auto
  have uf: "procs u = procs s" "plinks u = plinks s" "current u = ?c" "idleproc u = ?i"
    using k_intr_save_fields [of s] fl by simp_all
  let ?v = "upd_proc n (\<lambda>p. p\<lparr>p_runs := p_runs p + 1\<rparr>) (upd_proc ?c (\<lambda>p. p\<lparr>p_need_resched := False\<rparr>) u)"
  let ?w = "?v\<lparr>sched_flag := (sched_flag s)(?c := fl)\<rparr>"
  have eq: "schedule s = (if n \<noteq> ?c then
       let t = proc_run n ?w in Inr (if ctx_ra (cpu t) = forkret_entry t then t else k_intr_restore (sched_flag t n) t)
     else Inr (k_intr_restore fl ?v))"
    using r n k_intr_save_fields [of s]
    by (simp add: schedule_def fl uf upd_proc_def Let_def cong: if_cong)
  show ?thesis
  proof (cases "n = ?c")
    case True
    have "k_intr_restore fl u = s" using k_intr_save_restore [of s] fl by simp
    then have "k_intr_restore fl ?v = upd_proc n (\<lambda>p. p\<lparr>p_runs := p_runs p + 1\<rparr>)
        (upd_proc ?c (\<lambda>p. p\<lparr>p_need_resched := False\<rparr>) s)"
      by (auto simp: k_intr_restore_def upd_proc_def)
    then have "schedule s = Inr (upd_proc n (\<lambda>p. p\<lparr>p_runs := p_runs p + 1\<rparr>)
        (upd_proc ?c (\<lambda>p. p\<lparr>p_need_resched := False\<rparr>) s))" using eq True by simp
    then show ?thesis using True
      by (auto simp: upd_proc_def same_table_def sched_proc_def Let_def)
  next
    case False
    let ?t = "proc_run n ?w"
    have f: "fl = fst (k_intr_save s)" using fl by simp
    have cur: "current ?w = ?c" by (simp add: upd_proc_def uf)
    obtain fl2 w2 where w2: "k_intr_save ?w = (fl2, w2)" by (cases "k_intr_save ?w") auto
    obtain m where m: "u = s\<lparr>mem := m\<rparr>" using k_intr_save_mem [OF fl] by blast
    obtain m2 where m2: "w2 = ?w\<lparr>mem := m2\<rparr>" using k_intr_save_mem [OF w2] by blast
    have "current w2 = ?c" by (simp add: m2 m upd_proc_def)
    have t: "?t = switch_to ?c n ((lcr3 (p_cr3 (procs w2 n)) (w2\<lparr>current := n\<rparr>))\<lparr>cpu := call_regs w2\<rparr>)"
      using False cur \<open>current w2 = ?c\<close> by (simp add: proc_run_def w2 Let_def lcr3_def call_regs_def)
    define T where "T = ?t"
    obtain b where res: "schedule s = Inr (if b then T else k_intr_restore (sched_flag T n) T)"
      using eq False unfolding T_def by (auto simp: Let_def)
    have T: "T = switch_to ?c n ((lcr3 (p_cr3 (procs s n)) (s\<lparr>procs := procs ?w,
        sched_flag := (sched_flag s)(?c := fl), mem := m2, current := n\<rparr>))\<lparr>cpu := call_regs s\<rparr>)"
      unfolding T_def t by (simp add: m2 m upd_proc_def call_regs_def False)
    have "current T = n" "same_table s T" "cpu T = p_context (procs s n)"
      "sched_flag T = (sched_flag s)(?c := fl)" "satp (mem T) = (0x8000000000000000 OR drop_bit 12 (p_cr3 (procs s n)))"
      "procs T = (\<lambda>p. sched_proc ?c n (call_regs s) p (procs s p))"
      using False by (simp_all add: T switch_to_def lcr3_def upd_proc_def same_table_def uf)
        (auto simp: sched_proc_def Let_def fun_eq_iff)
    then show ?thesis using res False f
      by (cases b) (auto simp: same_table_def k_intr_restore_def local_intr_restore_def)
  qed
qed

section \<open>Fairness\<close>

lemma sched_order_rotates:
  assumes "distinct ps" and "idle \<notin> set ps" and "c = idle \<or> c \<in> set ps"
    and "sched_order idle c ps = xs @ n # ys"
  shows "sched_order idle n ps = ys @ xs @ [n]"
proof (cases "c = idle")
  case True
  with assms have "ps = xs @ n # ys" "n \<noteq> idle" "n \<notin> set xs" by (auto simp: sched_order_def)
  then show ?thesis by (simp add: sched_order_split)
next
  case False
  with assms(3) obtain us vs where ps: "ps = us @ c # vs" "c \<notin> set us" by (meson split_list_first)
  then have o: "vs @ us @ [c] = xs @ n # ys" using False assms(4) by (simp add: sched_order_split)
  have d: "distinct (us @ c # vs)" using assms(1) ps by simp
  have idle: "idle \<notin> set (us @ c # vs)" using assms(2) ps by simp
  from o consider (vs) bs where "vs = xs @ n # bs" "ys = bs @ us @ [c]"
    | (us) as bs where "us = as @ n # bs" "xs = vs @ as" "ys = bs @ [c]"
    | (c) "n = c" "ys = []" "xs = vs @ us"
    by (auto simp: append_eq_append_conv2 append_eq_Cons_conv Cons_eq_append_conv)
  then show ?thesis
  proof cases
    case vs
    then show ?thesis using sched_order_split [of n idle "us @ c # xs" bs] d idle ps by auto
  next
    case us
    then show ?thesis using sched_order_split [of n idle as "bs @ c # vs"] d idle ps by auto
  next
    case c
    then show ?thesis using sched_order_split [of c idle us vs] d idle ps by auto
  qed
qed

lemma sched_order_set: "c = idle \<or> c \<in> set ps \<Longrightarrow> distinct ps \<Longrightarrow> set (sched_order idle c ps) = set ps \<and>
  length (sched_order idle c ps) = length ps"
proof (cases "c = idle")
  case False
  assume "c = idle \<or> c \<in> set ps" "distinct ps"
  with False obtain us vs where "ps = us @ c # vs" "c \<notin> set us" by (meson split_list_first)
  with False show ?thesis by (auto simp: sched_order_split)
qed (simp add: sched_order_def)

text \<open>Each call either picks \<open>p\<close> or one of the processes that come before it, which shortens that list.\<close>

lemma sched_pick_progress:
  assumes "distinct ps" and "idle \<notin> set ps" and "c = idle \<or> c \<in> set ps" and "runnable P p"
    and "sched_order idle c ps = xs @ p # ys" and "sched_pick P idle c ps \<noteq> p"
  shows "sched_pick P idle c ps \<in> set ps \<and>
    (\<exists>us vs. sched_order idle (sched_pick P idle c ps) ps = us @ p # vs \<and> length us < length xs)"
proof -
  let ?n = "sched_pick P idle c ps"
  have "find (runnable P) (xs @ p # ys) \<noteq> None" using assms(4) by (auto simp: find_None_iff)
  then obtain n where n: "find (runnable P) (xs @ p # ys) = Some n" by auto
  then have pick: "?n = n" by (simp add: sched_pick_def assms(5))
  have "n \<in> set xs"
  proof (rule ccontr)
    assume "n \<notin> set xs"
    have "find (runnable P) (xs @ p # ys) = (case find (runnable P) xs of Some q \<Rightarrow> Some q | None \<Rightarrow> Some p)"
      using assms(4) by (induction xs) auto
    moreover have "find (runnable P) xs = Some q \<Longrightarrow> q \<in> set xs" for q by (auto simp: find_Some_iff)
    ultimately show False using n \<open>n \<notin> set xs\<close> pick assms(6) by (auto split: option.splits)
  qed
  then obtain as bs where xs: "xs = as @ n # bs" by (meson split_list)
  have "sched_order idle c ps = as @ n # (bs @ p # ys)" using assms(5) xs by simp
  from sched_order_rotates [OF assms(1-3) this]
  have "sched_order idle n ps = bs @ p # (ys @ as @ [n])" by simp
  moreover have "n \<in> set ps"
    using \<open>n \<in> set xs\<close> sched_order_set [OF assms(3,1)] assms(5) by auto
  ultimately show ?thesis unfolding pick using xs by fastforce
qed

lemma sched_reaches:
  assumes st: "\<And>i. plist (plinks (\<sigma> i)) ps \<and> idleproc (\<sigma> i) = idle \<and> runnable (procs (\<sigma> i)) p"
    and step: "\<And>i. \<exists>t. schedule (\<sigma> i) = Inr t \<and> current (\<sigma> (Suc i)) = current t"
    and wf: "0 \<notin> set ps" "idle \<notin> set ps"
    and cur: "current (\<sigma> k) = idle \<or> current (\<sigma> k) \<in> set ps"
    and ord: "sched_order idle (current (\<sigma> k)) ps = xs @ p # ys"
  shows "\<exists>i. k < i \<and> i \<le> k + length xs + 1 \<and> current (\<sigma> i) = p"
  using cur ord
proof (induction "length xs" arbitrary: k xs ys rule: less_induct)
  case less
  let ?n = "sched_pick (procs (\<sigma> k)) idle (current (\<sigma> k)) ps"
  have d: "distinct ps" using plist_distinct st by blast
  have "current (\<sigma> (Suc k)) = ?n"
    using schedule_ok [of "\<sigma> k" ps] st [of k] step [of k] less.prems(1) wf(1) by auto
  show ?case
  proof (cases "?n = p")
    case True
    with \<open>current (\<sigma> (Suc k)) = ?n\<close> show ?thesis by (intro exI [of _ "Suc k"]) simp
  next
    case False
    from sched_pick_progress [OF d wf(2) less.prems(1) _ less.prems(2) False] st
    obtain us vs where "?n \<in> set ps" "sched_order idle ?n ps = us @ p # vs" "length us < length xs" by blast
    with less.hyps [of us "Suc k" vs] \<open>current (\<sigma> (Suc k)) = ?n\<close>
    obtain i where "Suc k < i" "i \<le> Suc k + length us + 1" "current (\<sigma> i) = p" by auto
    with \<open>length us < length xs\<close> show ?thesis by (intro exI [of _ i]) simp
  qed
qed

end
