(* ===== verification/Proc_Family.thy ===== *)
theory Proc_Family
  imports Proc_Inv
begin

text \<open>
  The two other structures over the processes: the hash lists by pid, and the family relation kept in
  \<open>cptr\<close>, \<open>yptr\<close> and \<open>optr\<close> (first child, younger and older sibling).
\<close>

section \<open>Hash lists\<close>

definition hash_set :: "(addr \<Rightarrow> proc_struct) \<Rightarrow> addr set \<Rightarrow> nat \<Rightarrow> addr set" where
  "hash_set P Q h = {p\<in>Q. pid_hashfn (p_pid (P p)) = h}"

definition hashed :: "hash_ptr links \<Rightarrow> (addr \<Rightarrow> proc_struct) \<Rightarrow> addr set \<Rightarrow> bool" where
  "hashed L P Q \<longleftrightarrow> (\<forall>h<HASH_LIST_SIZE. \<exists>xs. dll L (HashList h) (map HashLink xs) \<and> set xs = hash_set P Q h)"

lemma pid_hashfn_bound: "pid_hashfn x < HASH_LIST_SIZE"
  using hash32_bound [of HASH_SHIFT "of_int x"] by (simp add: pid_hashfn_def HASH_LIST_SIZE_def HASH_SHIFT_def)

lemma hash_lists_disjoint:
  assumes "set xs = hash_set P Q h" and "set ys = hash_set P Q g" and "h \<noteq> g"
  shows "set (HashList h # map HashLink xs) \<inter> set (HashList g # map HashLink ys) = {}"
  using assms by (auto simp: hash_set_def)

lemma hashed_cong: "(\<And>p. p \<in> Q \<Longrightarrow> p_pid (P' p) = p_pid (P p)) \<Longrightarrow> hashed L P' Q = hashed L P Q"
  by (auto simp: hashed_def hash_set_def cong: conj_cong)

lemma hashedE:
  assumes "hashed L P Q"
  obtains xs where "dll L (HashList (pid_hashfn x)) (map HashLink xs)" "set xs = hash_set P Q (pid_hashfn x)"
  using assms pid_hashfn_bound [of x] that unfolding hashed_def by blast

lemma hashed_add:
  assumes "hashed L P Q" and "p \<notin> Q"
  shows "hashed (list_add L (HashList (pid_hashfn (p_pid (P p)))) (HashLink p)) P (insert p Q)"
  unfolding hashed_def
proof (intro allI impI)
  fix h assume h: "h < HASH_LIST_SIZE"
  let ?g = "pid_hashfn (p_pid (P p))"
  obtain xs where xs: "dll L (HashList h) (map HashLink xs)" "set xs = hash_set P Q h"
    using assms(1) h by (auto simp: hashed_def)
  obtain ys where ys: "dll L (HashList ?g) (map HashLink ys)" "set ys = hash_set P Q ?g"
    by (rule hashedE [OF assms(1)])
  show "\<exists>zs. dll (list_add L (HashList ?g) (HashLink p)) (HashList h) (map HashLink zs) \<and> set zs = hash_set P (insert p Q) h"
  proof (cases "h = ?g")
    case True
    have "dll (list_add_after L (HashList h) (HashLink p)) (HashList h) (HashLink p # map HashLink xs)"
      by (rule lh.push_front [OF xs(1)]) (use xs(2) assms(2) in \<open>auto simp: hash_set_def\<close>)
    then have "dll (list_add L (HashList ?g) (HashLink p)) (HashList h) (map HashLink (p # xs))"
      using True by (simp add: list_add_def)
    with True xs(2) show ?thesis by (intro exI [of _ "p # xs"]) (auto simp: hash_set_def)
  next
    case False
    have "dll (list_add_after L (HashList ?g) (HashLink p)) (HashList h) (map HashLink xs)"
      by (rule list_add_after_frame [OF xs(1) ys(1) hash_lists_disjoint [OF xs(2) ys(2) False]])
        (use xs(2) assms(2) in \<open>auto simp: hash_set_def\<close>)
    with False xs(2) show ?thesis by (intro exI [of _ xs]) (auto simp: hash_set_def list_add_def)
  qed
qed

lemma hashed_remove:
  assumes "hashed L P Q" and "p \<in> Q"
  shows "hashed (list_del L (HashLink p)) P (Q - {p})"
  unfolding hashed_def
proof (intro allI impI)
  fix h assume h: "h < HASH_LIST_SIZE"
  let ?g = "pid_hashfn (p_pid (P p))"
  obtain xs where xs: "dll L (HashList h) (map HashLink xs)" "set xs = hash_set P Q h"
    using assms(1) h by (auto simp: hashed_def)
  obtain ys where ys: "dll L (HashList ?g) (map HashLink ys)" "set ys = hash_set P Q ?g"
    by (rule hashedE [OF assms(1)])
  show "\<exists>zs. dll (list_del L (HashLink p)) (HashList h) (map HashLink zs) \<and> set zs = hash_set P (Q - {p}) h"
  proof (cases "h = ?g")
    case True
    then have "p \<in> set xs" using xs(2) assms(2) by (simp add: hash_set_def)
    then obtain us vs where uv: "xs = us @ p # vs" by (meson split_list)
    have "dll L (HashList h) (map HashLink us @ HashLink p # map HashLink vs)" using xs(1) uv by simp
    then have d: "dll (list_del L (HashLink p)) (HashList h) (map HashLink (us @ vs))"
      using dll_del by fastforce
    have "distinct xs" using xs(1) by (auto simp: dll_def distinct_map)
    then have "set (us @ vs) = set xs - {p}" using uv by auto
    with d xs(2) show ?thesis by (intro exI [of _ "us @ vs"]) (auto simp: hash_set_def)
  next
    case False
    have "HashLink p \<in> set (HashList ?g # map HashLink ys)" using ys(2) assms(2) by (auto simp: hash_set_def)
    from list_del_frame [OF xs(1) ys(1) hash_lists_disjoint [OF xs(2) ys(2) False] this]
    show ?thesis using False xs(2) by (intro exI [of _ xs]) (auto simp: hash_set_def)
  qed
qed

lemma find_proc_loop_walk:
  assumes "walk_next L le (map HashLink xs @ [HashList h])"
  shows "find_proc_loop L P pid h le = Some (Inr (case find (\<lambda>p. p_pid (P p) = pid) xs of Some p \<Rightarrow> p | None \<Rightarrow> 0))"
  using assms by (induction xs arbitrary: le) (subst find_proc_loop.simps, simp add: Let_def)+

definition proc_of_pid :: "(addr \<Rightarrow> proc_struct) \<Rightarrow> addr set \<Rightarrow> int \<Rightarrow> addr \<Rightarrow> bool" where
  "proc_of_pid P Q pid p \<longleftrightarrow>
     (if \<exists>q\<in>Q. p_pid (P q) = pid then p \<in> Q \<and> p_pid (P p) = pid else p = 0)"

lemma find_proc_ok:
  assumes "hashed (hlinks s) (procs s) Q" and "\<forall>p\<in>Q. 1 \<le> p_pid (procs s p) \<and> p_pid (procs s p) < MAX_PID"
  shows "\<exists>p. find_proc pid s = Inr p \<and> proc_of_pid (procs s) Q pid p"
proof (cases "0 < pid \<and> pid < MAX_PID")
  case True
  let ?h = "pid_hashfn pid"
  obtain xs where xs: "dll (hlinks s) (HashList ?h) (map HashLink xs)" "set xs = hash_set (procs s) Q ?h"
    by (rule hashedE [OF assms(1)])
  have "walk_next (hlinks s) (HashList ?h) (map HashLink xs @ [HashList ?h])"
    using xs(1) by (auto simp: dll_def intro: seg_walk_next)
  from find_proc_loop_walk [OF this] True
  have f: "find_proc pid s = Inr (case find (\<lambda>p. p_pid (procs s p) = pid) xs of Some p \<Rightarrow> p | None \<Rightarrow> 0)"
    by (simp add: find_proc_def)
  show ?thesis
  proof (cases "find (\<lambda>p. p_pid (procs s p) = pid) xs")
    case None
    then have "\<forall>p\<in>Q. p_pid (procs s p) \<noteq> pid" using xs(2) by (auto simp: find_None_iff hash_set_def)
    with f None show ?thesis by (auto simp: proc_of_pid_def)
  next
    case (Some p)
    then have "p \<in> set xs" "p_pid (procs s p) = pid" by (auto simp: find_Some_iff)
    with f Some xs(2) show ?thesis by (auto simp: proc_of_pid_def hash_set_def)
  qed
next
  case False
  with assms(2) have "\<forall>p\<in>Q. p_pid (procs s p) \<noteq> pid" by force
  with False show ?thesis by (auto simp: find_proc_def proc_of_pid_def)
qed

section \<open>Families\<close>

text \<open>\<open>sib P y ks\<close>: the processes \<open>ks\<close> are chained by \<open>optr\<close>, from the youngest on, and back by \<open>yptr\<close>, \<open>y\<close> before the first.\<close>

fun hd0 :: "addr list \<Rightarrow> addr" where
  "hd0 [] = 0"
| "hd0 (x # xs) = x"

definition sib :: "(addr \<Rightarrow> proc_struct) \<Rightarrow> addr \<Rightarrow> addr list \<Rightarrow> bool" where
  "sib P y ks \<longleftrightarrow> (\<forall>us k vs. ks = us @ k # vs \<longrightarrow> p_yptr (P k) = last (y # us) \<and> p_optr (P k) = hd0 vs)"

definition kids :: "(addr \<Rightarrow> proc_struct) \<Rightarrow> addr \<Rightarrow> addr list \<Rightarrow> bool" where
  "kids P q ks \<longleftrightarrow> p_cptr (P q) = hd0 ks \<and> sib P 0 ks \<and> distinct ks"

definition children :: "(addr \<Rightarrow> proc_struct) \<Rightarrow> addr set \<Rightarrow> addr \<Rightarrow> addr set" where
  "children P Q q = {p\<in>Q. p_parent (P p) = q}"

definition family :: "(addr \<Rightarrow> proc_struct) \<Rightarrow> addr set \<Rightarrow> addr set \<Rightarrow> bool" where
  "family P R Q \<longleftrightarrow> 0 \<notin> Q \<and> Q \<subseteq> R \<and> (\<forall>p\<in>Q. p_parent (P p) \<in> R) \<and>
     (\<forall>q\<in>R. \<exists>ks. kids P q ks \<and> set ks = children P Q q)"

lemma sib_Nil [simp]: "sib P y []"
  by (simp add: sib_def)

lemma sib_Cons: "sib P y (k # ks) \<longleftrightarrow> p_yptr (P k) = y \<and> p_optr (P k) = hd0 ks \<and> sib P k ks"
proof
  assume s: "sib P y (k # ks)"
  have "sib P k ks"
    unfolding sib_def
  proof (intro allI impI)
    fix us j vs assume "ks = us @ j # vs"
    then have "k # ks = (k # us) @ j # vs" by simp
    with s have "p_yptr (P j) = last (y # k # us) \<and> p_optr (P j) = hd0 vs" unfolding sib_def by blast
    then show "p_yptr (P j) = last (k # us) \<and> p_optr (P j) = hd0 vs" by simp
  qed
  moreover have "k # ks = [] @ k # ks" by simp
  ultimately show "p_yptr (P k) = y \<and> p_optr (P k) = hd0 ks \<and> sib P k ks"
    using s unfolding sib_def by (metis last.simps)
next
  assume s: "p_yptr (P k) = y \<and> p_optr (P k) = hd0 ks \<and> sib P k ks"
  show "sib P y (k # ks)"
    unfolding sib_def
  proof (intro allI impI)
    fix us j vs assume e: "k # ks = us @ j # vs"
    show "p_yptr (P j) = last (y # us) \<and> p_optr (P j) = hd0 vs"
    proof (cases us)
      case Nil
      with e s show ?thesis by simp
    next
      case (Cons u us')
      with e have "ks = us' @ j # vs" "u = k" by auto
      with s have "p_yptr (P j) = last (k # us') \<and> p_optr (P j) = hd0 vs" unfolding sib_def by blast
      then show ?thesis using Cons \<open>u = k\<close> by simp
    qed
  qed
qed

lemma sib_cong:
  "(\<And>k. k \<in> set ks \<Longrightarrow> p_yptr (P' k) = p_yptr (P k) \<and> p_optr (P' k) = p_optr (P k)) \<Longrightarrow> sib P' y ks = sib P y ks"
  by (auto simp: sib_def)

lemma kids_cong:
  "p_cptr (P' q) = p_cptr (P q) \<Longrightarrow>
   (\<And>k. k \<in> set ks \<Longrightarrow> p_yptr (P' k) = p_yptr (P k) \<and> p_optr (P' k) = p_optr (P k)) \<Longrightarrow> kids P' q ks = kids P q ks"
  using sib_cong [of ks P' P 0] by (auto simp: kids_def)

lemma hd0_mem: "hd0 ks \<noteq> 0 \<Longrightarrow> hd0 ks \<in> set ks"
  by (cases ks) auto

lemma last0_mem: "last (0 # us) \<noteq> (0 :: addr) \<Longrightarrow> last (0 # us) \<in> set us"
  by (cases us rule: rev_cases) auto

lemma familyE:
  assumes "family P R Q" and "q \<in> R"
  obtains ks where "kids P q ks" "set ks = children P Q q" "0 \<notin> set ks"
  using assms that unfolding family_def children_def by blast

lemma family_cong:
  assumes "\<And>p. p_parent (P' p) = p_parent (P p) \<and> p_cptr (P' p) = p_cptr (P p) \<and>
     p_yptr (P' p) = p_yptr (P p) \<and> p_optr (P' p) = p_optr (P p)"
  shows "family P' R Q = family P R Q"
  using assms by (simp add: family_def kids_def sib_def children_def)

text \<open>A new process becomes the first child of its parent.\<close>

lemma family_add:
  assumes fam: "family P R Q" and p: "p \<notin> R" "p \<noteq> 0" and par: "p_parent (P p) \<in> R" and c0: "p_cptr (P p) = 0"
    and op: "op = p_cptr (P (p_parent (P p)))"
    and P': "\<And>x. p_parent (P' x) = p_parent (P x)"
      "\<And>x. p_cptr (P' x) = (if x = p_parent (P p) then p else p_cptr (P x))"
      "\<And>x. p_optr (P' x) = (if x = p then op else p_optr (P x))"
      "\<And>x. p_yptr (P' x) = (if x = p then 0 else if x = op \<and> op \<noteq> 0 then p else p_yptr (P x))"
  shows "family P' (insert p R) (insert p Q)"
proof -
  let ?par = "p_parent (P p)"
  have Q: "Q \<subseteq> R" "0 \<notin> Q" "\<forall>x\<in>Q. p_parent (P x) \<in> R" using fam by (auto simp: family_def)
  have pp: "?par \<noteq> p" using par p by auto
  obtain ks0 where ks0: "kids P ?par ks0" "set ks0 = children P Q ?par" "0 \<notin> set ks0" by (rule familyE [OF fam par])
  have op_hd: "op = hd0 ks0" using op ks0(1) by (simp add: kids_def)
  have pk: "p \<notin> set ks0" using ks0(2) Q(1) p by (auto simp: children_def)
  have "\<exists>ks. kids P' q ks \<and> set ks = children P' (insert p Q) q" if q: "q \<in> insert p R" for q
  proof (cases "q = p")
    case True
    have "kids P' q []" using True pp c0 by (simp add: kids_def P')
    moreover have "children P' (insert p Q) q = {}" using True Q p pp by (auto simp: children_def P')
    ultimately show ?thesis by (intro exI [of _ "[]"]) simp
  next
    case qp: False
    show ?thesis
    proof (cases "q = ?par")
      case True
      have "sib P' p ks0"
      proof (cases ks0)
        case (Cons k ks)
        then have "sib P k ks" "p_optr (P k) = hd0 ks" "k \<noteq> p" "k \<noteq> 0" "k \<notin> set ks" "p \<notin> set ks"
          using ks0(1,3) pk by (auto simp: kids_def sib_Cons)
        moreover have "sib P' k ks = sib P k ks"
          using \<open>k \<notin> set ks\<close> \<open>p \<notin> set ks\<close> op_hd Cons by (intro sib_cong) (auto simp: P')
        ultimately show ?thesis using Cons op_hd by (simp add: sib_Cons P')
      qed simp
      then have "kids P' q (p # ks0)" using True ks0(1) pk op_hd by (simp add: kids_def sib_Cons P')
      moreover have "set (p # ks0) = children P' (insert p Q) q"
        using ks0(2) True by (auto simp: children_def P')
      ultimately show ?thesis by blast
    next
      case False
      with q qp have "q \<in> R" by simp
      then obtain ks where ks: "kids P q ks" "set ks = children P Q q" "0 \<notin> set ks" by (rule familyE [OF fam])
      have "op \<notin> set ks \<or> op = 0" using ks(2) ks0(2) op_hd hd0_mem [of ks0] False by (auto simp: children_def)
      moreover have "p \<notin> set ks" using ks(2) Q(1) p by (auto simp: children_def)
      ultimately have "kids P' q ks = kids P q ks"
        using False by (intro kids_cong) (auto simp: P')
      moreover have "children P' (insert p Q) q = children P Q q" using False by (auto simp: children_def P')
      ultimately show ?thesis using ks by auto
    qed
  qed
  then show ?thesis using Q p par by (auto simp: family_def P')
qed

lemma sib_remove:
  assumes s: "sib P 0 (us @ p # vs)" and d: "distinct (us @ p # vs)" and z: "0 \<notin> set (us @ p # vs)"
    and P': "\<And>x. p_optr (P' x) = (if x = last (0 # us) \<and> last (0 # us) \<noteq> 0 then hd0 vs else p_optr (P x))"
      "\<And>x. p_yptr (P' x) = (if x = hd0 vs \<and> hd0 vs \<noteq> 0 then last (0 # us) else p_yptr (P x))"
  shows "sib P' 0 (us @ vs)"
  unfolding sib_def
proof (intro allI impI)
  fix as k bs assume "us @ vs = as @ k # bs"
  then consider (l) ws where "us = as @ k # ws" "bs = ws @ vs" | (r) ws where "vs = ws @ k # bs" "as = us @ ws"
    by (auto simp: append_eq_append_conv2 append_eq_Cons_conv Cons_eq_append_conv)
  then show "p_yptr (P' k) = last (0 # as) \<and> p_optr (P' k) = hd0 bs"
  proof cases
    case l
    have old: "p_yptr (P k) = last (0 # as)" "p_optr (P k) = hd0 (ws @ p # vs)"
      using s l(1) unfolding sib_def by auto
    have k: "k \<noteq> hd0 vs \<or> hd0 vs = 0" using d l(1) hd0_mem [of vs] by auto
    show ?thesis
    proof (cases "ws = []")
      case True
      then show ?thesis using old k l z by (auto simp: P')
    next
      case False
      then have "last (0 # us) = last ws" "last ws \<in> set ws" using l(1) by auto
      moreover have "k \<notin> set ws" using d l(1) by auto
      moreover have "hd0 (ws @ p # vs) = hd0 (ws @ vs)" using False by (cases ws) auto
      ultimately have "k \<noteq> last (0 # us)" by metis
      then show ?thesis using old k l \<open>hd0 (ws @ p # vs) = hd0 (ws @ vs)\<close> by (auto simp: P')
    qed
  next
    case r
    have "us @ p # vs = (us @ p # ws) @ k # bs" using r by simp
    then have old: "p_yptr (P k) = last (0 # us @ p # ws)" "p_optr (P k) = hd0 bs"
      using s unfolding sib_def by blast+
    have k: "k \<noteq> last (0 # us) \<or> last (0 # us) = 0" using d r(1) last0_mem [of us] by auto
    show ?thesis
    proof (cases "ws = []")
      case True
      then show ?thesis using old k r z by (auto simp: P')
    next
      case False
      then have "hd0 vs \<in> set ws" using r(1) by (cases ws) auto
      then have "k \<noteq> hd0 vs" using d r(1) by auto
      then show ?thesis using old k r False by (auto simp: P')
    qed
  qed
qed

lemma family_remove:
  assumes fam: "family P R Q" and p: "p \<in> Q" and c0: "p_cptr (P p) = 0"
    and op: "op = p_optr (P p)" and y: "y = p_yptr (P p)" and par: "par = p_parent (P p)"
    and P': "\<And>x. p_parent (P' x) = p_parent (P x)"
      "\<And>x. p_cptr (P' x) = (if x = par \<and> y = 0 then op else p_cptr (P x))"
      "\<And>x. p_optr (P' x) = (if x = y \<and> y \<noteq> 0 then op else p_optr (P x))"
      "\<And>x. p_yptr (P' x) = (if x = op \<and> op \<noteq> 0 then y else p_yptr (P x))"
  shows "family P' (R - {p}) (Q - {p})"
proof -
  have Q: "Q \<subseteq> R" "0 \<notin> Q" "\<forall>x\<in>Q. p_parent (P x) \<in> R" using fam by (auto simp: family_def)
  have parR: "par \<in> R" using Q(3) p par by simp
  obtain ks0 where ks0: "kids P par ks0" "set ks0 = children P Q par" "0 \<notin> set ks0" by (rule familyE [OF fam parR])
  have "p \<in> set ks0" using ks0(2) p par by (simp add: children_def)
  then obtain us vs where uv: "ks0 = us @ p # vs" by (meson split_list)
  have s0: "sib P 0 (us @ p # vs)" and d: "distinct (us @ p # vs)" and c: "p_cptr (P par) = hd0 (us @ p # vs)"
    using ks0(1) uv by (auto simp: kids_def)
  have opv: "op = hd0 vs" and yu: "y = last (0 # us)"
    using s0 op y unfolding sib_def by blast+
  have z: "0 \<notin> set (us @ p # vs)" using ks0(3) uv by simp
  obtain kp where kp: "kids P p kp" "set kp = children P Q p" "0 \<notin> set kp"
    using familyE [OF fam] Q(1) p by blast
  have "kp = []" using kp(1,3) c0 by (cases kp) (auto simp: kids_def)
  then have nokids: "children P Q p = {}" using kp(2) by simp
  then have parp: "par \<noteq> p" using p par by (auto simp: children_def)
  have y0: "y = 0 \<longleftrightarrow> us = []" using yu z by (cases us rule: rev_cases) auto
  have "\<exists>ks. kids P' q ks \<and> set ks = children P' (Q - {p}) q" if q: "q \<in> R - {p}" for q
  proof (cases "q = par")
    case True
    have "sib P' 0 (us @ vs)"
      by (rule sib_remove [OF s0 d z]) (simp_all only: P' opv yu [symmetric])
    moreover have "p_cptr (P' par) = hd0 (us @ vs)"
      using c y0 opv by (cases us) (simp_all add: P')
    ultimately have "kids P' q (us @ vs)" using True d by (simp add: kids_def)
    moreover have "set (us @ vs) = children P' (Q - {p}) q"
      using ks0(2) uv d True by (auto simp: children_def P')
    ultimately show ?thesis by blast
  next
    case False
    obtain ks where ks: "kids P q ks" "set ks = children P Q q" "0 \<notin> set ks" using familyE [OF fam] q by blast
    have disj: "set ks \<inter> set ks0 = {}" using ks(2) ks0(2) False by (auto simp: children_def)
    have "op \<notin> set ks \<or> op = 0" using hd0_mem [of vs] opv disj uv by auto
    moreover have "y \<notin> set ks \<or> y = 0" using last0_mem [of us] yu disj uv by auto
    ultimately have "kids P' q ks = kids P q ks" using False by (intro kids_cong) (auto simp: P')
    moreover have "children P' (Q - {p}) q = children P Q q"
      using False par by (auto simp: children_def P')
    ultimately show ?thesis using ks by auto
  qed
  moreover have "p_parent (P' x) \<in> R - {p}" if "x \<in> Q - {p}" for x
    using that Q(3) nokids by (auto simp: children_def P')
  ultimately show ?thesis using Q by (auto simp: family_def)
qed

subsection \<open>The operations\<close>

lemma upd_proc_sel [simp]:
  "procs (upd_proc p f s) x = (if x = p then f (procs s p) else procs s x)"
  "plinks (upd_proc p f s) = plinks s" "hlinks (upd_proc p f s) = hlinks s" "current (upd_proc p f s) = current s"
  "idleproc (upd_proc p f s) = idleproc s" "initproc (upd_proc p f s) = initproc s" "mem (upd_proc p f s) = mem s"
  "nr_process (upd_proc p f s) = nr_process s" "last_pid (upd_proc p f s) = last_pid s"
  "next_safe (upd_proc p f s) = next_safe s" "tfs (upd_proc p f s) = tfs s" "kont (upd_proc p f s) = kont s"
  "cpu (upd_proc p f s) = cpu s" "sched_flag (upd_proc p f s) = sched_flag s"
  "forkret_entry (upd_proc p f s) = forkret_entry s" "boot_cr3 (upd_proc p f s) = boot_cr3 s"
  by (simp_all add: upd_proc_def)

lemma wakeup_proc_eq:
  "p_state (procs s p) \<noteq> PROC_ZOMBIE \<Longrightarrow> wakeup_proc p s =
     Inr (if p_state (procs s p) \<noteq> PROC_RUNNABLE
          then upd_proc p (\<lambda>q. q\<lparr>p_state := PROC_RUNNABLE, p_wait_state := 0\<rparr>) s else s)"
proof -
  assume z: "p_state (procs s p) \<noteq> PROC_ZOMBIE"
  obtain fl u where u: "k_intr_save s = (fl, u)" by (cases "k_intr_save s") auto
  obtain m where m: "u = s\<lparr>mem := m\<rparr>" using k_intr_save_mem [OF u] by blast
  have "k_intr_restore fl u = s" using k_intr_save_restore [of s] u by simp
  then have mm: "local_intr_restore fl m = mem s"
    unfolding m k_intr_restore_def by (metis kstate.select_convs(1) kstate.surjective kstate.update_convs(1))
  show ?thesis using z
    by (simp add: wakeup_proc_def u) (auto simp: m k_intr_restore_def upd_proc_def mm)
qed

lemma set_links_eq:
  assumes "p_parent (procs s p) \<noteq> p"
  defines "op \<equiv> p_cptr (procs s (p_parent (procs s p)))"
  shows "plinks (set_links p s) = list_add (plinks s) ProcList (ListLink p)"
    "nr_process (set_links p s) = nr_process s + 1"
    "p_parent (procs (set_links p s) x) = p_parent (procs s x)"
    "p_cptr (procs (set_links p s) x) = (if x = p_parent (procs s p) then p else p_cptr (procs s x))"
    "p_optr (procs (set_links p s) x) = (if x = p then op else p_optr (procs s x))"
    "op \<noteq> p \<Longrightarrow> p_yptr (procs (set_links p s) x) = (if x = p then 0 else if x = op \<and> op \<noteq> 0 then p else p_yptr (procs s x))"
  using assms by (simp_all add: set_links_def Let_def op_def)

lemma set_links_frame [simp]:
  "hlinks (set_links p s) = hlinks s" "mem (set_links p s) = mem s" "current (set_links p s) = current s"
  "idleproc (set_links p s) = idleproc s" "initproc (set_links p s) = initproc s" "tfs (set_links p s) = tfs s"
  "last_pid (set_links p s) = last_pid s" "next_safe (set_links p s) = next_safe s" "kont (set_links p s) = kont s"
  "p_state (procs (set_links p s) x) = p_state (procs s x)" "p_pid (procs (set_links p s) x) = p_pid (procs s x)"
  "p_wait_state (procs (set_links p s) x) = p_wait_state (procs s x)" "p_mm (procs (set_links p s) x) = p_mm (procs s x)"
  "p_kstack (procs (set_links p s) x) = p_kstack (procs s x)" "p_flags (procs (set_links p s) x) = p_flags (procs s x)"
  by (simp_all add: set_links_def Let_def)

lemma remove_links_eq:
  assumes "p_parent (procs s p) \<noteq> p" and "p_optr (procs s p) \<noteq> p" and "p_yptr (procs s p) \<noteq> p"
  shows "plinks (remove_links p s) = list_del (plinks s) (ListLink p)"
    "nr_process (remove_links p s) = nr_process s - 1"
    "p_parent (procs (remove_links p s) x) = p_parent (procs s x)"
    "p_cptr (procs (remove_links p s) x) =
       (if x = p_parent (procs s p) \<and> p_yptr (procs s p) = 0 then p_optr (procs s p) else p_cptr (procs s x))"
    "p_optr (procs (remove_links p s) x) =
       (if x = p_yptr (procs s p) \<and> p_yptr (procs s p) \<noteq> 0 then p_optr (procs s p) else p_optr (procs s x))"
    "p_yptr (procs (remove_links p s) x) =
       (if x = p_optr (procs s p) \<and> p_optr (procs s p) \<noteq> 0 then p_yptr (procs s p) else p_yptr (procs s x))"
  using assms by (auto simp: remove_links_def Let_def)

lemma remove_links_frame [simp]:
  "hlinks (remove_links p s) = hlinks s" "mem (remove_links p s) = mem s" "current (remove_links p s) = current s"
  "idleproc (remove_links p s) = idleproc s" "initproc (remove_links p s) = initproc s" "tfs (remove_links p s) = tfs s"
  "last_pid (remove_links p s) = last_pid s" "next_safe (remove_links p s) = next_safe s" "kont (remove_links p s) = kont s"
  "p_state (procs (remove_links p s) x) = p_state (procs s x)" "p_pid (procs (remove_links p s) x) = p_pid (procs s x)"
  "p_wait_state (procs (remove_links p s) x) = p_wait_state (procs s x)" "p_mm (procs (remove_links p s) x) = p_mm (procs s x)"
  "p_kstack (procs (remove_links p s) x) = p_kstack (procs s x)" "p_flags (procs (remove_links p s) x) = p_flags (procs s x)"
  unfolding remove_links_def Let_def
  by (cases "p_optr (procs s p) = 0"; cases "p_yptr (procs s p) = 0"; simp)+

end
