(* ===== verification/Proc_Life.thy ===== *)
theory Proc_Life
  imports Proc_Family Proc_Exec
begin

text \<open>
  The life of a process in the table: \<open>do_fork\<close> links it in, \<open>do_exit\<close> hands its children to \<open>initproc\<close>,
  \<open>do_wait\<close> takes it out; each keeps the invariant \<open>ptab\<close> of the whole table.
\<close>

section \<open>Handing children over\<close>

text \<open>
  The family while \<open>do_exit\<close> moves the children of \<open>c\<close>: the first child left may still name a
  younger sibling that has moved.
\<close>

definition family_but :: "(addr \<Rightarrow> proc_struct) \<Rightarrow> addr set \<Rightarrow> addr set \<Rightarrow> addr \<Rightarrow> addr list \<Rightarrow> bool" where
  "family_but P R Q c ks \<longleftrightarrow> 0 \<notin> Q \<and> Q \<subseteq> R \<and> (\<forall>p\<in>Q. p_parent (P p) \<in> R) \<and>
     (\<forall>q\<in>R - {c}. \<exists>ks. kids P q ks \<and> set ks = children P Q q) \<and>
     p_cptr (P c) = hd0 ks \<and> (\<exists>y. sib P y ks) \<and> distinct ks \<and> set ks = children P Q c"

lemma family_but_start: "family P R Q \<Longrightarrow> c \<in> R \<Longrightarrow> \<exists>ks. family_but P R Q c ks"
  unfolding family_def family_but_def kids_def by blast

lemma family_but_end: "family_but P R Q c [] \<Longrightarrow> family P R Q \<and> children P Q c = {}"
  unfolding family_def family_but_def kids_def by (metis DiffI distinct.simps(1) empty_set hd0.simps(1) sib_Nil singletonD)

lemma adopt_family:
  assumes fam: "family_but P R Q c (k # ks)" and ini: "ini \<in> R" "ini \<noteq> c" and cR: "c \<in> R"
    and op: "op = p_cptr (P ini)"
    and P': "\<And>x. p_parent (P' x) = (if x = k then ini else p_parent (P x))"
      "\<And>x. p_cptr (P' x) = (if x = ini then k else if x = c then p_optr (P k) else p_cptr (P x))"
      "\<And>x. p_optr (P' x) = (if x = k then op else p_optr (P x))"
      "\<And>x. p_yptr (P' x) = (if x = op \<and> op \<noteq> 0 then k else if x = k then 0 else p_yptr (P x))"
  shows "family_but P' R Q c ks"
proof -
  have Q: "Q \<subseteq> R" "0 \<notin> Q" "\<forall>x\<in>Q. p_parent (P x) \<in> R" "set (k # ks) = children P Q c"
    and d: "distinct (k # ks)" 
    using fam by (simp_all only: family_but_def not_False_eq_True) (elim conjE; blast)
  obtain y where "sib P y (k # ks)" using fam unfolding family_but_def by blast
  then have kk: "p_optr (P k) = hd0 ks" "sib P k ks" by (auto simp: sib_Cons)
  have "k \<in> children P Q c" unfolding Q(4) [symmetric] by simp
  then have kQ: "k \<in> Q" "k \<noteq> 0" "p_parent (P k) = c" using Q(2) by (auto simp: children_def intro: gr0I)
  obtain js where js: "kids P ini js" "set js = children P Q ini"
    using fam ini unfolding family_but_def by blast
  have js0: "0 \<notin> set js" and kjs: "k \<notin> set js" using js(2) Q(2) kQ ini by (auto simp: children_def)
  have disj: "set js \<inter> set (k # ks) = {}" unfolding js(2) Q(4) using ini by (auto simp: children_def)
  have op_hd: "op = hd0 js" using op js(1) by (simp add: kids_def)
  have opk: "op \<notin> set (k # ks) \<or> op = 0" using hd0_mem [of "js"] op_hd disj by auto
  have "sib P' k ks = sib P k ks"
    using d opk by (intro sib_cong) (auto simp: P')
  moreover have "set ks = children P' Q c"
  proof -
    have "set ks = set (k # ks) - {k}" using d by auto
    also have "\<dots> = children P' Q c" unfolding Q(4) using ini by (auto simp: children_def P')
    finally show ?thesis .
  qed
  moreover have "p_cptr (P' c) = hd0 ks" using ini kk by (simp add: P')
  moreover have "\<exists>ls. kids P' q ls \<and> set ls = children P' Q q" if q: "q \<in> R - {c}" for q
  proof (cases "q = ini")
    case True
    have "sib P' k js"
    proof (cases "js")
      case (Cons i ls)
      then have "sib P i ls" "p_optr (P i) = hd0 ls" "i \<noteq> k" "i \<noteq> 0" "i \<notin> set ls" "k \<notin> set ls"
        using js(1) js0 kjs by (auto simp: kids_def sib_Cons)
      moreover have "sib P' i ls = sib P i ls"
        using \<open>i \<notin> set ls\<close> \<open>k \<notin> set ls\<close> op_hd Cons by (intro sib_cong) (auto simp: P')
      ultimately show ?thesis using Cons op_hd by (simp add: sib_Cons P')
    qed simp
    then have "kids P' q (k # js)" using True js(1) kjs op_hd kQ opk by (auto simp: kids_def sib_Cons P')
    moreover have "set (k # js) = children P' Q q" using js(2) True kQ ini by (auto simp: children_def P')
    ultimately show ?thesis by blast
  next
    case False
    obtain ls where ls: "kids P q ls" "set ls = children P Q q"
      using fam q unfolding family_but_def by blast
    have "set ls \<inter> set (k # ks) = {}" "set ls \<inter> set js = {}"
      unfolding ls(2) Q(4) js(2) using q False by (auto simp: children_def)
    then have "k \<notin> set ls" "op \<notin> set ls \<or> op = 0" using hd0_mem [of "js"] op_hd by auto
    then have "kids P' q ls = kids P q ls" using False q by (intro kids_cong) (auto simp: P')
    moreover have "children P' Q q = children P Q q" using False q kQ by (auto simp: children_def P')
    ultimately show ?thesis using ls by auto
  qed
  moreover have "sib P' k ks" using calculation(1) kk(2) by simp
  moreover have "\<forall>p\<in>Q. p_parent (P' p) \<in> R" using Q(3) ini by (simp add: P')
  ultimately show ?thesis unfolding family_but_def using Q(1,2) d by (metis distinct.simps(2))
qed

text \<open>Only links, parents and the sleep of \<open>ini\<close> change.\<close>

definition link_rel :: "bool \<Rightarrow> proc_struct \<Rightarrow> proc_struct \<Rightarrow> bool" where
  "link_rel woken q q' \<longleftrightarrow> p_pid q' = p_pid q \<and> p_kstack q' = p_kstack q \<and> p_mm q' = p_mm q \<and> p_flags q' = p_flags q \<and>
     p_exit_code q' = p_exit_code q \<and> p_tf q' = p_tf q \<and>
     (p_state q' = p_state q \<and> p_wait_state q' = p_wait_state q \<or>
      woken \<and> p_state q' = PROC_RUNNABLE \<and> p_wait_state q' = 0 \<and> p_state q \<noteq> PROC_ZOMBIE)"

definition links_rel :: "addr \<Rightarrow> (addr \<Rightarrow> proc_struct) \<Rightarrow> (addr \<Rightarrow> proc_struct) \<Rightarrow> bool" where
  "links_rel ini P P' \<longleftrightarrow> (\<forall>x. link_rel (x = ini) (P x) (P' x))"

definition links_only :: "addr \<Rightarrow> kstate \<Rightarrow> kstate \<Rightarrow> bool" where
  "links_only ini s t \<longleftrightarrow> (\<exists>P'. t = s\<lparr>procs := P'\<rparr> \<and> links_rel ini (procs s) P')"

lemma link_rel_trans: "link_rel b q q' \<Longrightarrow> link_rel b q' q'' \<Longrightarrow> link_rel b q q''"
  unfolding link_rel_def by auto

lemma links_rel_trans: "links_rel ini P P' \<Longrightarrow> links_rel ini P' P'' \<Longrightarrow> links_rel ini P P''"
  unfolding links_rel_def by (meson link_rel_trans)

lemma links_onlyI: "links_rel ini (procs s) P' \<Longrightarrow> links_only ini s (s\<lparr>procs := P'\<rparr>)"
  unfolding links_only_def by blast

lemma links_only_refl: "links_only ini s s"
  using links_onlyI [of ini s "procs s"] by (simp add: links_rel_def link_rel_def)

lemma links_only_trans: "links_only ini s t \<Longrightarrow> links_only ini t u \<Longrightarrow> links_only ini s u"
  unfolding links_only_def
proof (elim exE conjE)
  fix P P' assume "t = s\<lparr>procs := P\<rparr>" "u = t\<lparr>procs := P'\<rparr>" "links_rel ini (procs s) P" "links_rel ini (procs t) P'"
  then show "\<exists>P'. u = s\<lparr>procs := P'\<rparr> \<and> links_rel ini (procs s) P'"
    by (intro exI [of _ P']) (auto intro: links_rel_trans)
qed

lemma links_only_rel: "links_only ini s t \<Longrightarrow> link_rel (x = ini) (procs s x) (procs t x)"
  by (auto simp: links_only_def links_rel_def)

lemma links_only_zombie: "links_only ini s t \<Longrightarrow> p_state (procs t x) = PROC_ZOMBIE \<longleftrightarrow> p_state (procs s x) = PROC_ZOMBIE"
  using links_only_rel [of ini s t x] by (auto simp: link_rel_def)

lemma links_only_frame:
  "links_only ini s t \<Longrightarrow> plinks t = plinks s \<and> hlinks t = hlinks s \<and> mem t = mem s \<and> current t = current s \<and>
     idleproc t = idleproc s \<and> initproc t = initproc s \<and> nr_process t = nr_process s \<and> last_pid t = last_pid s \<and>
     next_safe t = next_safe s \<and> tfs t = tfs s \<and> kont t = kont s \<and> cpu t = cpu s"
  by (auto simp: links_only_def)

lemma wakeup_links_only:
  "p_state (procs s p) \<noteq> PROC_ZOMBIE \<Longrightarrow> \<exists>t. wakeup_proc p s = Inr t \<and> links_only p s t \<and>
     (\<forall>x. p_parent (procs t x) = p_parent (procs s x) \<and> p_cptr (procs t x) = p_cptr (procs s x) \<and>
        p_yptr (procs t x) = p_yptr (procs s x) \<and> p_optr (procs t x) = p_optr (procs s x))"
  by (auto simp: wakeup_proc_eq links_only_refl)
    (auto simp: upd_proc_def links_rel_def link_rel_def intro!: links_onlyI)

lemma adopt_ok:
  assumes "c \<noteq> initproc s" and "p_state (procs s (initproc s)) \<noteq> PROC_ZOMBIE" and "k \<noteq> c"
    and "p_cptr (procs s (initproc s)) \<noteq> k"
  defines "ini \<equiv> initproc s" and "op \<equiv> p_cptr (procs s (initproc s))"
  shows "\<exists>t. adopt c k s = Inr t \<and> links_only ini s t \<and>
     (\<forall>x. p_parent (procs t x) = (if x = k then ini else p_parent (procs s x)) \<and>
        p_cptr (procs t x) = (if x = ini then k else if x = c then p_optr (procs s k) else p_cptr (procs s x)) \<and>
        p_optr (procs t x) = (if x = k then op else p_optr (procs s x)) \<and>
        p_yptr (procs t x) = (if x = op \<and> op \<noteq> 0 then k else if x = k then 0 else p_yptr (procs s x)))"
proof -
  define s1 where "s1 = upd_proc k (\<lambda>p. p\<lparr>p_optr := p_cptr (procs s ini)\<rparr>)
    (upd_proc k (\<lambda>p. p\<lparr>p_yptr := 0\<rparr>) (upd_proc c (\<lambda>p. p\<lparr>p_cptr := p_optr (procs s k)\<rparr>) s))"
  define s2 where "s2 = upd_proc ini (\<lambda>p. p\<lparr>p_cptr := k\<rparr>) (upd_proc k (\<lambda>p. p\<lparr>p_parent := ini\<rparr>)
    (if op \<noteq> 0 then upd_proc op (\<lambda>p. p\<lparr>p_yptr := k\<rparr>) s1 else s1))"
  have run: "adopt c k s = (if p_state (procs s2 k) = PROC_ZOMBIE \<and> p_wait_state (procs s2 ini) = WT_CHILD
      then wakeup_proc ini s2 else Inr s2)"
  proof -
    have e: "p_cptr (procs (upd_proc k (\<lambda>p. p\<lparr>p_yptr := 0\<rparr>) (upd_proc c (\<lambda>p. p\<lparr>p_cptr := p_optr (procs s k)\<rparr>) s)) ini) =
        p_cptr (procs s ini)" using assms by simp
    have e1: "p_optr (procs s1 k) = op" "p_cptr (procs s1 ini) = op"
      using assms by (simp_all add: s1_def op_def ini_def)
    show ?thesis unfolding adopt_def Let_def ini_def [symmetric] e s1_def [symmetric] e1
      by (simp only: s2_def)
  qed
  have s2: "s2 = s\<lparr>procs := procs s2\<rparr>" by (simp add: s2_def s1_def upd_proc_def)
  have "links_rel ini (procs s) (procs s2)" by (auto simp: links_rel_def link_rel_def s2_def s1_def)
  then have lo: "links_only ini s s2" using links_onlyI s2 by metis
  have f: "p_parent (procs s2 x) = (if x = k then ini else p_parent (procs s x))"
    "p_cptr (procs s2 x) = (if x = ini then k else if x = c then p_optr (procs s k) else p_cptr (procs s x))"
    "p_optr (procs s2 x) = (if x = k then op else p_optr (procs s x))"
    "p_yptr (procs s2 x) = (if x = op \<and> op \<noteq> 0 then k else if x = k then 0 else p_yptr (procs s x))" for x
    using assms by (simp_all add: s2_def s1_def op_def ini_def)
  have "p_state (procs s2 ini) \<noteq> PROC_ZOMBIE"
    using links_only_zombie [OF lo] assms by (simp add: ini_def)
  from wakeup_links_only [OF this] obtain t where t: "wakeup_proc ini s2 = Inr t" "links_only ini s2 t"
    "\<forall>x. p_parent (procs t x) = p_parent (procs s2 x) \<and> p_cptr (procs t x) = p_cptr (procs s2 x) \<and>
        p_yptr (procs t x) = p_yptr (procs s2 x) \<and> p_optr (procs t x) = p_optr (procs s2 x)" by blast
  show ?thesis
  proof (cases "p_state (procs s2 k) = PROC_ZOMBIE \<and> p_wait_state (procs s2 ini) = WT_CHILD")
    case True
    with run t lo f show ?thesis by (auto intro: links_only_trans)
  next
    case False
    with run lo f show ?thesis by auto
  qed
qed

lemma adopt_loop_ok:
  assumes "family_but (procs s) R Q c ks" and "initproc s \<in> R" and "initproc s \<noteq> c" and "c \<in> R" and "c \<notin> set ks"
    and "p_state (procs s (initproc s)) \<noteq> PROC_ZOMBIE"
  shows "\<exists>t. adopt_loop c s = Some (Inr t) \<and> links_only (initproc s) s t \<and> family (procs t) R Q \<and>
     children (procs t) Q c = {} \<and>
     (\<forall>p. p_parent (procs t p) = (if p \<in> set ks then initproc s else p_parent (procs s p)))"
  using assms
proof (induction ks arbitrary: s)
  case Nil
  then have "p_cptr (procs s c) = 0" by (simp add: family_but_def)
  then have "adopt_loop c s = Some (Inr s)" by (subst adopt_loop.simps) simp
  with family_but_end [OF Nil.prems(1)] show ?case by (simp add: links_only_refl)
next
  case (Cons k ks)
  let ?ini = "initproc s"
  have ck: "p_cptr (procs s c) = k" and kc: "k \<noteq> c" and Q0: "0 \<notin> Q" and kset: "set (k # ks) = children (procs s) Q c"
    and d: "distinct (k # ks)"
    using Cons.prems(1,5) unfolding family_but_def by auto
  have kch: "k \<in> children (procs s) Q c" unfolding kset [symmetric] by simp
  then have k0: "k \<noteq> 0" using Q0 by (auto simp: children_def intro: gr0I)
  obtain js where js: "kids (procs s) ?ini js" "set js = children (procs s) Q ?ini"
    using Cons.prems(1-3) unfolding family_but_def by blast
  have "p_cptr (procs s ?ini) \<noteq> k"
    using js hd0_mem [of js] kch k0 Cons.prems(3) by (auto simp: kids_def children_def)
  from adopt_ok [OF Cons.prems(3) [symmetric] Cons.prems(6) kc this]
  obtain t where t: "adopt c k s = Inr t" "links_only ?ini s t"
    and f: "\<forall>x. p_parent (procs t x) = (if x = k then ?ini else p_parent (procs s x)) \<and>
        p_cptr (procs t x) = (if x = ?ini then k else if x = c then p_optr (procs s k) else p_cptr (procs s x)) \<and>
        p_optr (procs t x) = (if x = k then p_cptr (procs s ?ini) else p_optr (procs s x)) \<and>
        p_yptr (procs t x) = (if x = p_cptr (procs s ?ini) \<and> p_cptr (procs s ?ini) \<noteq> 0 then k
          else if x = k then 0 else p_yptr (procs s x))" by blast
  have fam: "family_but (procs t) R Q c ks"
    by (rule adopt_family [OF Cons.prems(1-4) refl]) (use f in blast)+
  have ini_t: "initproc t = ?ini" using links_only_frame [OF t(2)] by simp
  have "adopt_loop c s = adopt_loop c t"
    by (subst adopt_loop.simps) (simp add: ck k0 t(1))
  moreover obtain u where u: "adopt_loop c t = Some (Inr u)" "links_only ?ini t u" "family (procs u) R Q"
    "children (procs u) Q c = {}" "\<forall>p. p_parent (procs u p) = (if p \<in> set ks then ?ini else p_parent (procs t p))"
    using Cons.IH [OF fam] Cons.prems(2-6) links_only_zombie [OF t(2)] ini_t by auto
  ultimately show ?case using links_only_trans [OF t(2) u(2)] f by (intro exI [of _ u]) auto
qed

section \<open>The invariant of the process table\<close>

definition ptab :: "kstate \<Rightarrow> addr list \<Rightarrow> bool" where
  "ptab s ps \<longleftrightarrow> pid_inv s ps \<and> hashed (hlinks s) (procs s) (set ps) \<and>
     family (procs s) (insert (idleproc s) (set ps)) (set ps) \<and>
     idleproc s \<notin> set ps \<and> idleproc s \<noteq> 0 \<and> nr_process s = int (length ps) + 1 \<and>
     (\<forall>p\<in>set ps. p_state (procs s p) = PROC_ZOMBIE \<longrightarrow> children (procs s) (set ps) p = {})"

lemma plist_add: "plist L ps \<Longrightarrow> p \<notin> set ps \<Longrightarrow> plist (list_add L ProcList (ListLink p)) (p # ps)"
  unfolding plist_def list_add_def using lh.push_front [of L ProcList "map ListLink ps" "ListLink p"] by auto

lemma plist_remove: "plist L (us @ p # vs) \<Longrightarrow> plist (list_del L (ListLink p)) (us @ vs)"
  unfolding plist_def using dll_del [of L ProcList "map ListLink us" "ListLink p" "map ListLink vs"] by simp

lemma children_cong:
  "(\<And>x. x \<in> Q \<Longrightarrow> p_parent (P' x) = p_parent (P x)) \<Longrightarrow> children P' Q q = children P Q q"
  by (auto simp: children_def)

text \<open>Changes that keep the table: no link, pid or counter changes, and no process becomes a zombie.\<close>

definition table_eq :: "kstate \<Rightarrow> kstate \<Rightarrow> bool" where
  "table_eq s t \<longleftrightarrow> plinks t = plinks s \<and> hlinks t = hlinks s \<and> idleproc t = idleproc s \<and> nr_process t = nr_process s \<and>
     last_pid t = last_pid s \<and> next_safe t = next_safe s \<and>
     (\<forall>x. p_pid (procs t x) = p_pid (procs s x) \<and> p_parent (procs t x) = p_parent (procs s x) \<and>
        p_cptr (procs t x) = p_cptr (procs s x) \<and> p_yptr (procs t x) = p_yptr (procs s x) \<and>
        p_optr (procs t x) = p_optr (procs s x))"

lemma table_eq_refl: "table_eq s s"
  by (simp add: table_eq_def)

lemma table_eq_trans: "table_eq s t \<Longrightarrow> table_eq t u \<Longrightarrow> table_eq s u"
  by (simp add: table_eq_def)

lemma ptab_table_eq:
  assumes "table_eq s t" and "ptab s ps"
    and "\<And>p. p \<in> set ps \<Longrightarrow> p_state (procs t p) = PROC_ZOMBIE \<Longrightarrow>
       p_state (procs s p) = PROC_ZOMBIE \<or> children (procs s) (set ps) p = {}"
  shows "ptab t ps"
proof -
  have e: "\<And>x. p_pid (procs t x) = p_pid (procs s x)" "\<And>x. p_parent (procs t x) = p_parent (procs s x)"
    "\<And>x. p_cptr (procs t x) = p_cptr (procs s x)" "\<And>x. p_yptr (procs t x) = p_yptr (procs s x)"
    "\<And>x. p_optr (procs t x) = p_optr (procs s x)"
    using assms(1) by (simp_all add: table_eq_def)
  have "pid_inv t ps" using assms(1,2) e by (simp add: ptab_def pid_inv_def table_eq_def pid_gap_def)
  moreover have "hashed (hlinks t) (procs t) (set ps)"
    using assms(1,2) hashed_cong [of "set ps" "procs t" "procs s"] e(1) by (simp add: ptab_def table_eq_def)
  moreover have "family (procs t) (insert (idleproc t) (set ps)) (set ps)"
    using assms(1,2) family_cong [of "procs t" "procs s"] e by (simp add: ptab_def table_eq_def)
  moreover have "children (procs t) (set ps) p = children (procs s) (set ps) p" for p
    using e(2) by (intro children_cong) simp
  ultimately show ?thesis using assms unfolding ptab_def table_eq_def by metis
qed

lemma table_eq_schedule: "same_table s t \<Longrightarrow> procs t = (\<lambda>p. sched_proc c n r p (procs s p)) \<Longrightarrow> table_eq s t"
  by (simp add: same_table_def table_eq_def)

lemma ptab_schedule:
  assumes "ptab s ps" and "current s = idleproc s \<or> current s \<in> set ps"
  shows "\<exists>t. schedule s = Inr t \<and> ptab t ps \<and>
     current t = sched_pick (procs s) (idleproc s) (current s) ps \<and> same_table s t \<and>
     procs t = (\<lambda>p. sched_proc (current s) (current t) (call_regs s) p (procs s p))"
proof -
  have "plist (plinks s) ps" "0 \<notin> set ps" using assms(1) by (auto simp: ptab_def pid_inv_def family_def)
  from schedule_ok [OF this(1) assms(2) this(2)] obtain t where t: "schedule s = Inr t"
    "current t = sched_pick (procs s) (idleproc s) (current s) ps" "same_table s t"
    "procs t = (\<lambda>p. sched_proc (current s) (sched_pick (procs s) (idleproc s) (current s) ps) (call_regs s) p (procs s p))" by blast
  have "ptab t ps" by (rule ptab_table_eq [OF table_eq_schedule [OF t(3,4)] assms(1)]) (simp add: t(4))
  with t show ?thesis by (intro exI [of _ t]) simp
qed

lemma ptab_links: "ptab s ps \<Longrightarrow> p \<in> set ps \<Longrightarrow> children (procs s) (set ps) p = {} \<Longrightarrow>
  p_cptr (procs s p) = 0 \<and> p_parent (procs s p) \<noteq> p \<and> p_optr (procs s p) \<noteq> p \<and> p_yptr (procs s p) \<noteq> p"
proof -
  assume pt: "ptab s ps" and p: "p \<in> set ps" and c: "children (procs s) (set ps) p = {}"
  let ?R = "insert (idleproc s) (set ps)"
  have fam: "family (procs s) ?R (set ps)" and p0: "p \<noteq> 0" using pt p by (auto simp: ptab_def family_def intro: gr0I)
  have par: "p_parent (procs s p) \<noteq> p" using c p by (auto simp: children_def)
  obtain ks where ks: "kids (procs s) p ks" "set ks = children (procs s) (set ps) p"
    by (rule familyE [OF fam insertI2 [OF p]])
  then have c0: "p_cptr (procs s p) = 0" using c by (simp add: kids_def)
  have "p_parent (procs s p) \<in> ?R" using fam p by (simp add: family_def)
  then obtain js where js: "kids (procs s) (p_parent (procs s p)) js"
    "set js = children (procs s) (set ps) (p_parent (procs s p))"
    by (rule familyE [OF fam])
  then have "p \<in> set js" using p by (simp add: children_def)
  then obtain us vs where uv: "js = us @ p # vs" by (meson split_list)
  then have "p_optr (procs s p) = hd0 vs" "p_yptr (procs s p) = last (0 # us)" "distinct js"
    using js(1) unfolding kids_def sib_def by blast+
  then have "p_optr (procs s p) \<noteq> p \<and> p_yptr (procs s p) \<noteq> p"
    using uv p0 hd0_mem [of vs] last0_mem [of us] by fastforce
  with par c0 show ?thesis by blast
qed

section \<open>Forking\<close>

lemma fork_link_ok:
  assumes pt: "ptab s ps" and p: "p \<notin> insert (idleproc s) (set ps)" "p \<noteq> 0" and par: "p_parent (procs s p) \<in> insert (idleproc s) (set ps)"
    and parz: "p_state (procs s (p_parent (procs s p))) \<noteq> PROC_ZOMBIE \<or> p_parent (procs s p) = idleproc s"
    and pz: "p_cptr (procs s p) = 0" "p_state (procs s p) \<noteq> PROC_ZOMBIE" and pw: "p_wait_state (procs s p) = 0"
    and room: "nr_process s < MAX_PROCESS"
  shows "\<exists>t pid. fork_link p s = Inr (t, pid) \<and> ptab t (p # ps) \<and> 1 \<le> pid \<and> pid < MAX_PID \<and>
     (\<forall>q\<in>set ps. p_pid (procs s q) \<noteq> pid) \<and> p_pid (procs t p) = pid \<and> p_state (procs t p) = PROC_RUNNABLE \<and>
     p_wait_state (procs t p) = 0 \<and> p_parent (procs t p) = p_parent (procs s p) \<and>
     (\<forall>q. q \<noteq> p \<longrightarrow> p_pid (procs t q) = p_pid (procs s q) \<and> p_state (procs t q) = p_state (procs s q) \<and>
        p_wait_state (procs t q) = p_wait_state (procs s q) \<and> p_parent (procs t q) = p_parent (procs s q)) \<and>
     p_cptr (procs t (p_parent (procs s p))) = p \<and> (\<exists>u. get_pid s = Inr (u, pid)) \<and>
     mem t = mem s \<and> current t = current s \<and> idleproc t = idleproc s \<and> initproc t = initproc s"
proof -
  let ?R = "insert (idleproc s) (set ps)" and ?par = "p_parent (procs s p)"
  have inv: "pid_inv s ps" and hs: "hashed (hlinks s) (procs s) (set ps)" and fam: "family (procs s) ?R (set ps)"
    and nr: "nr_process s = int (length ps) + 1" and idle: "idleproc s \<notin> set ps" "idleproc s \<noteq> 0"
    and zc: "\<forall>q\<in>set ps. p_state (procs s q) = PROC_ZOMBIE \<longrightarrow> children (procs s) (set ps) q = {}"
    using pt unfolding ptab_def by blast+
  obtain fl u where u: "k_intr_save s = (fl, u)" by (cases "k_intr_save s") auto
  obtain m where m: "u = s\<lparr>mem := m\<rparr>" using k_intr_save_mem [OF u] by blast
  have ru: "local_intr_restore fl m = mem s"
    using k_intr_save_restore [of s] u m unfolding k_intr_restore_def
    by (metis fst_conv kstate.select_convs(1) kstate.surjective kstate.update_convs(1) snd_conv)
  have "pid_inv u ps" using inv by (simp add: m pid_inv_def)
  moreover have "int (length ps) < MAX_PID - 1" using room nr by (simp add: MAX_PID_def MAX_PROCESS_def)
  ultimately obtain pid ns where gp: "get_pid u = Inr (u\<lparr>last_pid := pid, next_safe := ns\<rparr>, pid)" "1 \<le> pid" "pid < ns"
    "ns \<le> MAX_PID" "pid_gap (procs s) (set ps) pid ns" using get_pid_ok [of u ps] m by auto
  have gs: "\<exists>v. get_pid s = Inr (v, pid)"
    using gp(1) by (auto simp: get_pid_def m Let_def bindR_eq_Inr returned_def split: if_splits option.splits)
  define s2 where "s2 = upd_proc p (\<lambda>q. q\<lparr>p_pid := pid\<rparr>) (u\<lparr>last_pid := pid, next_safe := ns\<rparr>)"
  define s4 where "s4 = k_intr_restore fl (set_links p (hash_proc p s2))"
  have h: "procs (hash_proc p s2) = procs s2" by (simp add: hash_proc_def)
  have P2: "procs s2 = (procs s)(p := (procs s p)\<lparr>p_pid := pid\<rparr>)" by (simp add: s2_def upd_proc_def m)
  have parp: "?par \<noteq> p" using par p by auto
  obtain js where js: "kids (procs s) ?par js" "set js = children (procs s) (set ps) ?par" "0 \<notin> set js"
    by (rule familyE [OF fam par])
  have opp: "p_cptr (procs s ?par) \<noteq> p"
    using js hd0_mem [of js] p by (auto simp: kids_def children_def)
  note sl = set_links_eq [of "hash_proc p s2" p, unfolded h]
  have P4: "p_parent (procs s4 x) = p_parent (procs s x)"
    "p_cptr (procs s4 x) = (if x = ?par then p else p_cptr (procs s x))"
    "p_optr (procs s4 x) = (if x = p then p_cptr (procs s ?par) else p_optr (procs s x))"
    "p_yptr (procs s4 x) = (if x = p then 0 else if x = p_cptr (procs s ?par) \<and> p_cptr (procs s ?par) \<noteq> 0 then p
       else p_yptr (procs s x))"
    "p_pid (procs s4 x) = (if x = p then pid else p_pid (procs s x))"
    "p_state (procs s4 x) = p_state (procs s x)" "p_wait_state (procs s4 x) = p_wait_state (procs s x)" for x
    using sl parp opp by (simp_all add: s4_def P2 h)
  have F4: "plinks s4 = list_add (plinks s) ProcList (ListLink p)" "nr_process s4 = nr_process s + 1"
    "hlinks s4 = list_add (hlinks s) (HashList (pid_hashfn pid)) (HashLink p)" "last_pid s4 = pid" "next_safe s4 = ns"
    "mem s4 = mem s" "current s4 = current s" "idleproc s4 = idleproc s" "initproc s4 = initproc s"
    using sl parp ru by (simp_all add: s4_def P2 h k_intr_restore_def hash_proc_def s2_def m)
  have "family (procs s4) (insert p ?R) (insert p (set ps))"
    by (rule family_add [OF fam p par pz(1) refl]) (simp_all add: P4)
  moreover have "hashed (hlinks s4) (procs s4) (insert p (set ps))"
  proof -
    have "hashed (hlinks s) (procs s4) (set ps)"
      using hs p by (subst hashed_cong [of "set ps" "procs s4" "procs s"]) (auto simp: P4)
    from hashed_add [OF this, of p] p show ?thesis by (simp add: F4 P4)
  qed
  moreover have "pid_inv s4 (p # ps)"
  proof -
    have "pid \<notin> (\<lambda>q. p_pid (procs s q)) ` set ps" using gp(3,5) by (auto simp: pid_gap_def)
    moreover have "map (\<lambda>q. p_pid (procs s4 q)) ps = map (\<lambda>q. p_pid (procs s q)) ps" using p by (auto simp: P4)
    then have "distinct (map (\<lambda>q. p_pid (procs s4 q)) ps)" using inv by (simp only: pid_inv_def)
    moreover have "pid_gap (procs s4) (set (p # ps)) (pid + 1) ns"
      using gp(3,5) p by (auto simp: pid_gap_def P4)
    moreover have "p_pid (procs s4 p) = pid" "\<And>q. q \<in> set ps \<Longrightarrow> p_pid (procs s4 q) = p_pid (procs s q)"
      using p by (auto simp: P4)
    ultimately show ?thesis using inv gp(2-4) plist_add [of "plinks s" ps p] p
      by (simp add: pid_inv_def F4)
  qed
  moreover have "children (procs s4) (insert p (set ps)) q = {}"
    if "q \<in> insert p (set ps)" "p_state (procs s4 q) = PROC_ZOMBIE" for q
    using that zc pz(2) parz par idle fam p by (auto simp: children_def P4)
  ultimately have pt4: "ptab s4 (p # ps)"
    using nr idle p by (auto simp: ptab_def F4 insert_commute)
  have "p_state (procs s4 p) \<noteq> PROC_ZOMBIE" using pz(2) by (simp add: P4)
  note wk = wakeup_proc_eq [OF this]
  define t where "t = (if p_state (procs s4 p) \<noteq> PROC_RUNNABLE
      then upd_proc p (\<lambda>q. q\<lparr>p_state := PROC_RUNNABLE, p_wait_state := 0\<rparr>) s4 else s4)"
  have run: "fork_link p s = Inr (t, pid)"
    using gp(1) wk unfolding fork_link_def by (simp add: u s2_def [symmetric] s4_def [symmetric] t_def P4)
  have "table_eq s4 t" by (simp add: t_def table_eq_def)
  then have "ptab t (p # ps)" by (rule ptab_table_eq [OF _ pt4]) (auto simp: t_def split: if_splits)
  moreover have "pid_gap (procs s) (set ps) pid ns \<Longrightarrow> q \<in> set ps \<Longrightarrow> p_pid (procs s q) \<noteq> pid" for q
    using gp(3) by (auto simp: pid_gap_def)
  ultimately show ?thesis using run gp pw gs
    by (intro exI [of _ t] exI [of _ pid]) (auto simp: t_def P4 F4)
qed

end
