(* ===== verification/Proc_Exit.thy ===== *)
theory Proc_Exit
  imports Proc_Life
begin

text \<open>
  Exit, waiting and killing: \<open>do_exit\<close> leaves a zombie without children and hands its children to
  \<open>initproc\<close>, \<open>reap\<close> takes the zombie out of the table, \<open>do_kill\<close> marks and wakes; all keep \<open>ptab\<close>.
\<close>

section \<open>The root of the process tree\<close>

definition init_ok :: "kstate \<Rightarrow> addr list \<Rightarrow> bool" where
  "init_ok s ps \<longleftrightarrow> initproc s \<in> set ps \<and> p_parent (procs s (initproc s)) = idleproc s \<and>
     p_state (procs s (initproc s)) \<noteq> PROC_ZOMBIE \<and> p_state (procs s (idleproc s)) \<noteq> PROC_ZOMBIE \<and>
     (\<forall>p\<in>set ps. p_parent (procs s p) \<noteq> p)"

lemma ptabD:
  assumes "ptab s ps"
  shows "pid_inv s ps" "hashed (hlinks s) (procs s) (set ps)" "family (procs s) (insert (idleproc s) (set ps)) (set ps)"
    "idleproc s \<notin> set ps" "idleproc s \<noteq> 0" "nr_process s = int (length ps) + 1"
    "\<And>p. p \<in> set ps \<Longrightarrow> p_state (procs s p) = PROC_ZOMBIE \<Longrightarrow> children (procs s) (set ps) p = {}"
    "\<And>p. p \<in> set ps \<Longrightarrow> p_parent (procs s p) \<in> insert (idleproc s) (set ps)" "0 \<notin> set ps"
  using assms unfolding ptab_def family_def by blast+

lemma pid_inv_cong:
  "plinks t = plinks s \<Longrightarrow> last_pid t = last_pid s \<Longrightarrow> next_safe t = next_safe s \<Longrightarrow>
     (\<And>x. p_pid (procs t x) = p_pid (procs s x)) \<Longrightarrow> pid_inv t ps = pid_inv s ps"
  by (simp add: pid_inv_def pid_gap_def)

lemma parent_not_zombie:
  "ptab s ps \<Longrightarrow> init_ok s ps \<Longrightarrow> c \<in> set ps \<Longrightarrow> p_state (procs s (p_parent (procs s c))) \<noteq> PROC_ZOMBIE"
  using ptabD(7,8) [of s ps] unfolding init_ok_def children_def by fastforce

section \<open>Exit\<close>

text \<open>A process sleeps as before, or has been woken.\<close>

definition same_sleep :: "proc_struct \<Rightarrow> proc_struct \<Rightarrow> bool" where
  "same_sleep q q' \<longleftrightarrow> p_state q' = p_state q \<and> p_wait_state q' = p_wait_state q \<or>
     p_state q' = PROC_RUNNABLE \<and> p_wait_state q' = 0"

lemma exit_links_ok:
  assumes pt: "ptab s ps" and ini: "init_ok s ps" and c: "current s \<in> set ps" "current s \<noteq> initproc s"
  defines "c \<equiv> current s"
  shows "\<exists>t. exit_links (exit_state code s) = Inr t \<and> ptab t ps \<and> init_ok t ps \<and>
     current t = c \<and> idleproc t = idleproc s \<and> initproc t = initproc s \<and> mem t = mem s \<and>
     p_state (procs t c) = PROC_ZOMBIE \<and> p_exit_code (procs t c) = code \<and> children (procs t) (set ps) c = {} \<and>
     (\<forall>p\<in>set ps. p_parent (procs t p) = (if p_parent (procs s p) = c then initproc s else p_parent (procs s p))) \<and>
     p_wait_state (procs t c) = p_wait_state (procs s c) \<and>
     (\<forall>x. x \<noteq> c \<longrightarrow> same_sleep (procs s x) (procs t x)) \<and>
     (p_wait_state (procs s (p_parent (procs s c))) = WT_CHILD \<longrightarrow>
        p_state (procs t (p_parent (procs s c))) = PROC_RUNNABLE)"
proof -
  let ?R = "insert (idleproc s) (set ps)" and ?par = "p_parent (procs s c)" and ?ini = "initproc s"
  note D = ptabD [OF pt]
  have cps: "c \<in> set ps" and cini: "?ini \<noteq> c" using c by (auto simp: c_def)
  have iniR: "?ini \<in> set ps" "p_state (procs s ?ini) \<noteq> PROC_ZOMBIE" and parc: "?par \<noteq> c"
    and parz: "p_state (procs s ?par) \<noteq> PROC_ZOMBIE"
    using ini cps parent_not_zombie [OF pt ini cps] by (auto simp: init_ok_def)
  define s1 where "s1 = exit_state code s"
  have s1: "procs s1 x = (if x = c then (procs s c)\<lparr>p_state := PROC_ZOMBIE, p_exit_code := code\<rparr> else procs s x)" for x
    by (simp add: s1_def exit_state_def c_def)
  obtain fl m where fl: "k_intr_save s1 = (fl, s1\<lparr>mem := m\<rparr>)"
    and ru: "\<forall>t. mem t = m \<longrightarrow> k_intr_restore fl t = t\<lparr>mem := mem s1\<rparr>" by (rule intr_sectionE [of s1])
  define u where "u = s1\<lparr>mem := m\<rparr>"
  have uf: "procs u = procs s1" "current u = c" "initproc u = ?ini" "idleproc u = idleproc s" "mem u = m"
    "mem s1 = mem s" "table_eq s u"
    by (simp_all add: u_def s1_def exit_state_def c_def table_eq_def)
  obtain t1 where t1: "(if p_wait_state (procs u ?par) = WT_CHILD then wakeup_proc ?par u else Inr u) = Inr t1"
    "links_only ?par u t1"
    "\<forall>x. p_parent (procs t1 x) = p_parent (procs u x) \<and> p_cptr (procs t1 x) = p_cptr (procs u x) \<and>
        p_yptr (procs t1 x) = p_yptr (procs u x) \<and> p_optr (procs t1 x) = p_optr (procs u x)"
    "p_wait_state (procs u ?par) = WT_CHILD \<Longrightarrow> p_state (procs t1 ?par) = PROC_RUNNABLE"
  proof (cases "p_wait_state (procs u ?par) = WT_CHILD")
    case True
    have z: "p_state (procs u ?par) \<noteq> PROC_ZOMBIE" using parz parc by (simp add: uf s1)
    show thesis using wakeup_links_only [OF z] wakeup_proc_eq [OF z] True
      by (elim exE) (rule that, auto split: if_splits)
  next
    case False
    then show thesis using that [of u] links_only_refl by simp
  qed
  have pp: "p_parent (procs t1 x) = p_parent (procs s x)" for x using t1(3) by (simp add: uf s1)
  have "family (procs t1) ?R (set ps)"
    using D(3) t1(3) by (subst family_cong [of "procs t1" "procs s"]) (auto simp: uf s1)
  with cps obtain ks where ks: "family_but (procs t1) ?R (set ps) c ks" using family_but_start [of "procs t1" ?R "set ps" c] by blast
  then have kset: "set ks = children (procs s) (set ps) c"
    using children_cong [of "set ps" "procs t1" "procs s" c] pp by (simp add: family_but_def)
  have fr1: "initproc t1 = ?ini" "idleproc t1 = idleproc s" "current t1 = c" "mem t1 = m"
    using links_only_frame [OF t1(2)] uf by simp_all
  have "c \<notin> set ks" using parc by (simp add: kset children_def)
  moreover have "p_state (procs t1 ?ini) \<noteq> PROC_ZOMBIE"
    using links_only_zombie [OF t1(2)] iniR cini by (simp add: uf s1)
  ultimately obtain t2 where t2: "adopt_loop c t1 = Some (Inr t2)" "links_only ?ini t1 t2"
    "family (procs t2) ?R (set ps)" "children (procs t2) (set ps) c = {}"
    "\<forall>p. p_parent (procs t2 p) = (if p \<in> set ks then ?ini else p_parent (procs t1 p))"
    using adopt_loop_ok [OF ks] iniR cini cps by (auto simp: fr1)
  define t where "t = k_intr_restore fl t2"
  have fr: "plinks t2 = plinks s" "hlinks t2 = hlinks s" "nr_process t2 = nr_process s" "last_pid t2 = last_pid s"
    "next_safe t2 = next_safe s" "idleproc t2 = idleproc s" "initproc t2 = ?ini" "current t2 = c" "mem t2 = m"
    using links_only_frame [OF t1(2)] links_only_frame [OF t2(2)] uf(2-5,7) by (simp_all add: table_eq_def)
  have t: "t = t2\<lparr>mem := mem s\<rparr>" unfolding t_def using ru fr(9) uf(6) by simp
  have run: "exit_links (exit_state code s) = Inr t"
    using t1(1) t2(1) unfolding exit_links_def s1_def [symmetric] t_def
    by (simp add: fl u_def [symmetric] uf(1,2) s1)
  have par: "p_parent (procs t p) = (if p_parent (procs s p) = c then ?ini else p_parent (procs s p))" if "p \<in> set ps" for p
    using t2(5) that by (auto simp: t pp kset children_def)
  have rel1: "link_rel (x = ?par) (procs s1 x) (procs t1 x)" and rel2: "link_rel (x = ?ini) (procs t1 x) (procs t x)" for x
    using links_only_rel [OF t1(2)] links_only_rel [OF t2(2)] by (simp_all add: uf t)
  have st: "p_state (procs t x) = p_state (procs s1 x) \<or> p_state (procs t x) = PROC_RUNNABLE \<and> p_state (procs s1 x) \<noteq> PROC_ZOMBIE"
    and pid: "p_pid (procs t x) = p_pid (procs s1 x)" and ec: "p_exit_code (procs t x) = p_exit_code (procs s1 x)" for x
    using rel1 [of x] rel2 [of x] by (auto simp: link_rel_def)
  have zc: "p_state (procs t c) = PROC_ZOMBIE" using st [of c] by (simp add: s1)
  have fin: "same_sleep (procs s x) (procs t x)" if "x \<noteq> c" for x
    using rel1 [of x] rel2 [of x] that by (auto simp: s1 link_rel_def same_sleep_def)
  have wc: "p_wait_state (procs t c) = p_wait_state (procs s c)"
    using rel1 [of c] rel2 [of c] by (auto simp: s1 link_rel_def)
  have wake: "p_state (procs t ?par) = PROC_RUNNABLE" if "p_wait_state (procs s ?par) = WT_CHILD"
    using t1(4) that parc rel2 [of ?par] by (auto simp: uf s1 link_rel_def)
  have zk: "children (procs t) (set ps) q = {}" if q: "q \<in> set ps" "p_state (procs t q) = PROC_ZOMBIE" for q
  proof (cases "q = c")
    case True
    then show ?thesis using t2(4) by (simp add: t)
  next
    case False
    then have "p_state (procs s q) = PROC_ZOMBIE" using st [of q] q(2) by (auto simp: s1)
    then show ?thesis using D(7) [OF q(1)] iniR(2) by (auto simp: children_def par split: if_splits)
  qed
  have "pid_inv t ps"
    using D(1) pid by (subst pid_inv_cong [of t s]) (auto simp: t fr s1)
  moreover have "hashed (hlinks t) (procs t) (set ps)"
    using D(2) pid hashed_cong [of "set ps" "procs t" "procs s"] by (auto simp: t fr s1)
  moreover have "family (procs t) (insert (idleproc t) (set ps)) (set ps)" using t2(3) by (simp add: t fr)
  ultimately have "ptab t ps" using zk D(4-6) by (simp add: ptab_def t fr)
  moreover have "init_ok t ps"
    using ini fin [of ?ini] fin [of "idleproc s"] par D(4) cps cini by (auto simp: init_ok_def same_sleep_def t fr)
  moreover have "p_exit_code (procs t c) = code" using ec [of c] by (simp add: s1)
  ultimately show ?thesis using run zc zk [OF cps zc] par fin wc wake
    by (intro exI [of _ t]) (simp add: t fr)
qed

section \<open>Operations that only touch memory\<close>

definition mem_only :: "kstate \<Rightarrow> kstate \<Rightarrow> bool" where
  "mem_only s t \<longleftrightarrow> (\<exists>m. t = s\<lparr>mem := m\<rparr>)"

lemma mem_only_refl [simp]: "mem_only s s"
  unfolding mem_only_def by (intro exI [of _ "mem s"]) simp

lemma mem_only_trans: "mem_only s t \<Longrightarrow> mem_only t u \<Longrightarrow> mem_only s u"
  unfolding mem_only_def by auto

lemma mem_onlyI [simp]: "mem_only s (s\<lparr>mem := m\<rparr>)"
  unfolding mem_only_def by blast

lemma mem_only_fields:
  "mem_only s t \<Longrightarrow> procs t = procs s \<and> plinks t = plinks s \<and> hlinks t = hlinks s \<and> current t = current s \<and>
     idleproc t = idleproc s \<and> initproc t = initproc s \<and> nr_process t = nr_process s \<and> last_pid t = last_pid s \<and>
     next_safe t = next_safe s \<and> tfs t = tfs s \<and> kont t = kont s \<and> cpu t = cpu s"
  by (auto simp: mem_only_def)

lemma on_mem0_only: "on_mem0 f s = Inr t \<Longrightarrow> mem_only s t"
  by (auto simp: on_mem0_def bindR_eq_Inr)

lemma on_mem_only: "on_mem f s = Inr (t, r) \<Longrightarrow> mem_only s t"
  by (auto simp: on_mem_def bindR_eq_Inr)

lemma put_kstack_only: "put_kstack p s = Inr t \<Longrightarrow> mem_only s t"
  by (auto simp: put_kstack_def bindR_eq_Inr dest: on_mem0_only)

lemma put_pgdir_only: "put_pgdir mm s = Inr t \<Longrightarrow> mem_only s t"
  by (auto simp: put_pgdir_def bindR_eq_Inr dest: on_mem0_only)

lemma drop_pgdir_only: "drop_pgdir_mm mm r s = Inr (t, r') \<Longrightarrow> mem_only s t"
  by (auto simp: drop_pgdir_mm_def bindR_eq_Inr dest!: on_mem0_only put_pgdir_only intro: mem_only_trans)

lemma drop_mmap_only: "drop_mmap_mm mm r s = Inr (t, r') \<Longrightarrow> mem_only s t"
  by (auto simp: drop_mmap_mm_def bindR_eq_Inr dest!: on_mem0_only drop_pgdir_only intro: mem_only_trans)

lemma pgfault_handler_only: "pgfault_handler c a s = Inr (t, r) \<Longrightarrow> mem_only s t"
  by (auto simp: pgfault_handler_def bindR_eq_Inr dest: on_mem_only split: if_splits)

lemma store_byte_only:
  assumes "store_byte va b s = Some r" and "r = Inr t"
  shows "mem_only s t"
proof -
  have "\<forall>t. r = Inr t \<longrightarrow> mem_only s t"
    by (rule store_byte.raw_induct [OF _ assms(1), where P = "\<lambda>va b s r. \<forall>t. r = Inr t \<longrightarrow> mem_only s t"])
      (auto split: if_splits sum.splits option.splits prod.splits intro: mem_only_trans pgfault_handler_only)
  with assms(2) show ?thesis by blast
qed

lemma store_bytes_only: "store_bytes va bs s = Inr t \<Longrightarrow> mem_only s t"
proof (induction bs arbitrary: va s)
  case (Cons b bs)
  then show ?case
    by (auto simp: bindR_eq_Inr returned_def split: option.splits intro: mem_only_trans store_byte_only)
qed simp

lemma leave_mm_eq:
  assumes "leave_mm s = Inr t"
  shows "\<exists>m. t = upd_proc (current s) (\<lambda>p. p\<lparr>p_mm := 0\<rparr>) (s\<lparr>mem := m\<rparr>)"
proof (cases "p_mm (procs s (current s)) = 0")
  case True
  then have "t = s" using assms by (simp add: leave_mm_def)
  moreover have "procs s (current s)\<lparr>p_mm := 0\<rparr> = procs s (current s)"
    using True by (cases "procs s (current s)") simp
  ultimately show ?thesis by (intro exI [of _ "mem s"]) (simp add: upd_proc_def)
next
  case False
  obtain m cnt where "mm_count_dec (p_mm (procs s (current s))) (mem (lcr3 (boot_cr3 s) s)) = (m, cnt)" by fastforce
  then have "\<exists>u. mem_only (s\<lparr>mem := m\<rparr>) u \<and> t = upd_proc (current u) (\<lambda>p. p\<lparr>p_mm := 0\<rparr>) u"
  proof (cases "cnt = 0")
    case True
    with \<open>_ = (m, cnt)\<close> show ?thesis
      using assms False by (auto simp: leave_mm_def lcr3_def bindR_eq_Inr dest: drop_mmap_only)
  next
    case False
    with \<open>_ = (m, cnt)\<close> show ?thesis
      using assms \<open>p_mm _ \<noteq> 0\<close> by (intro exI [of _ "s\<lparr>mem := m\<rparr>"]) (auto simp: leave_mm_def lcr3_def)
  qed
  then show ?thesis by (auto simp: mem_only_def)
qed

section \<open>\<open>do_exit\<close>\<close>

lemma sched_pick_not: "distinct ps \<Longrightarrow> c = idle \<or> c \<in> set ps \<Longrightarrow> \<not> runnable P c \<Longrightarrow> c \<noteq> idle \<Longrightarrow> sched_pick P idle c ps \<noteq> c"
  by (auto simp: sched_pick_def find_Some_iff split: option.splits)

lemma table_eq_upd:
  assumes "\<And>q. p_pid (f q) = p_pid q \<and> p_parent (f q) = p_parent q \<and> p_cptr (f q) = p_cptr q \<and>
     p_yptr (f q) = p_yptr q \<and> p_optr (f q) = p_optr q"
  shows "table_eq s (upd_proc p f s)"
  using assms by (simp add: table_eq_def)

lemma table_eq_mem: "mem_only s t \<Longrightarrow> table_eq s t"
  by (auto simp: mem_only_def table_eq_def)

lemma init_ok_table_eq:
  assumes "table_eq s t" and "initproc t = initproc s" and "init_ok s ps"
    and "p_state (procs t (initproc s)) \<noteq> PROC_ZOMBIE" and "p_state (procs t (idleproc s)) \<noteq> PROC_ZOMBIE"
  shows "init_ok t ps"
  using assms by (simp add: init_ok_def table_eq_def)

lemma do_exit_ok:
  assumes pt: "ptab s ps" and ini: "init_ok s ps" and c: "current s \<in> set ps" "current s \<noteq> initproc s"
    and leave: "leave_mm s = Inr s1"
  defines "c \<equiv> current s"
  shows "\<exists>t. do_exit code s = Inr (t, Away) \<and> ptab t ps \<and> init_ok t ps \<and> current t \<noteq> c \<and>
     current t \<in> insert (idleproc s) (set ps) \<and> idleproc t = idleproc s \<and>
     p_state (procs t c) = PROC_ZOMBIE \<and> p_exit_code (procs t c) = code \<and> children (procs t) (set ps) c = {} \<and>
     (\<forall>p\<in>set ps. p_parent (procs t p) = (if p_parent (procs s p) = c then initproc s else p_parent (procs s p))) \<and>
     p_wait_state (procs t c) = p_wait_state (procs s c) \<and> (\<forall>x. x \<noteq> c \<longrightarrow> same_sleep (procs s x) (procs t x)) \<and>
     (current t = idleproc t \<or> p_state (procs t (current t)) = PROC_RUNNABLE) \<and>
     (p_wait_state (procs s (p_parent (procs s c))) = WT_CHILD \<longrightarrow>
        p_state (procs t (p_parent (procs s c))) = PROC_RUNNABLE)"
proof -
  obtain m where s1: "s1 = upd_proc c (\<lambda>p. p\<lparr>p_mm := 0\<rparr>) (s\<lparr>mem := m\<rparr>)"
    using leave_mm_eq [OF leave] c_def by blast
  have te: "table_eq s s1" unfolding s1 by (rule table_eq_trans [OF table_eq_mem table_eq_upd]) simp_all
  have f1: "current s1 = c" "initproc s1 = initproc s" "idleproc s1 = idleproc s"
    "\<And>x. p_state (procs s1 x) = p_state (procs s x)" "\<And>x. p_parent (procs s1 x) = p_parent (procs s x)"
    "\<And>x. p_wait_state (procs s1 x) = p_wait_state (procs s x)" by (simp_all add: s1 c_def)
  have pt1: "ptab s1 ps" by (rule ptab_table_eq [OF te pt]) (simp add: f1)
  have ini1: "init_ok s1 ps" using init_ok_table_eq [OF te f1(2) ini] ini by (simp add: f1 init_ok_def)
  from exit_links_ok [OF pt1 ini1, of code] c obtain s2 where s2: "exit_links (exit_state code s1) = Inr s2" "ptab s2 ps" "init_ok s2 ps"
    "current s2 = c" "idleproc s2 = idleproc s" "initproc s2 = initproc s"
    "p_state (procs s2 c) = PROC_ZOMBIE" "p_exit_code (procs s2 c) = code" "children (procs s2) (set ps) c = {}"
    "\<forall>p\<in>set ps. p_parent (procs s2 p) = (if p_parent (procs s p) = c then initproc s else p_parent (procs s p))"
    "p_wait_state (procs s2 c) = p_wait_state (procs s c)" "\<forall>x. x \<noteq> c \<longrightarrow> same_sleep (procs s1 x) (procs s2 x)"
    "p_wait_state (procs s (p_parent (procs s c))) = WT_CHILD \<longrightarrow> p_state (procs s2 (p_parent (procs s c))) = PROC_RUNNABLE"
    unfolding f1 c_def [symmetric] by blast
  have cps: "c \<in> set ps" "c \<noteq> initproc s" using c by (simp_all add: c_def)
  have cid: "c \<noteq> idleproc s" using cps ptabD(4) [OF pt] by blast
  obtain t where t: "schedule s2 = Inr t" "ptab t ps" "current t = sched_pick (procs s2) (idleproc s) c ps" "same_table s2 t"
    "procs t = (\<lambda>p. sched_proc c (current t) (call_regs s2) p (procs s2 p))"
    using ptab_schedule [OF s2(2)] cps by (auto simp: s2)
  have "distinct ps" using ptabD(1) [OF pt] plist_distinct by (auto simp: pid_inv_def)
  then have cur: "current t \<noteq> c" using sched_pick_not [of ps c "idleproc s" "procs s2"] cps cid s2(7) by (simp add: t(3))
  have "current t \<in> insert (idleproc s) (set ps)"
    using sched_order_set [of c "idleproc s" ps] cps \<open>distinct ps\<close>
    by (auto simp: t(3) sched_pick_def find_Some_iff split: option.splits)
  moreover have "init_ok t ps"
    by (rule init_ok_table_eq [OF table_eq_schedule [OF t(4,5)] _ s2(3)])
      (use t(4) s2(3) in \<open>simp_all add: t(5) same_table_def init_ok_def\<close>)
  moreover have "children (procs t) (set ps) c = {}" using s2(9) by (simp add: t(5) children_def)
  moreover have "do_exit code s = Inr (t, Away)"
    using cps cid leave s2(1,4) t(1) cur by (simp add: do_exit_def c_def)
  moreover have idt: "idleproc t = idleproc s" using t(4) s2(5) by (simp add: same_table_def)
  then have "current t = idleproc t \<or> p_state (procs t (current t)) = PROC_RUNNABLE"
    by (auto simp: t(3,5) sched_pick_def find_Some_iff split: option.splits)
  moreover have "same_sleep (procs s x) (procs t x)" if "x \<noteq> c" for x
    using s2(12) that by (simp add: t(5) same_sleep_def f1)
  ultimately show ?thesis using t(2) cur idt s2(7,8,10,11,13) by (intro exI [of _ t]) (simp add: t(5))
qed

section \<open>Taking a zombie out of the table\<close>

lemma hashed_remove_list:
  "hashed L P (set ps) \<Longrightarrow> p \<in> set ps \<Longrightarrow> distinct ps \<Longrightarrow> hashed (list_del L (HashLink p)) P (set (remove1 p ps))"
  using hashed_remove [of L P "set ps" p] by (simp add: set_remove1_eq)

lemma plist_remove1: "plist L ps \<Longrightarrow> p \<in> set ps \<Longrightarrow> plist (list_del L (ListLink p)) (remove1 p ps)"
  using plist_remove by (metis remove1_split)

lemma unlink_ok:
  assumes pt: "ptab s ps" and ini: "init_ok s ps" and p: "p \<in> set ps" "p_state (procs s p) = PROC_ZOMBIE"
  defines "t \<equiv> remove_links p (unhash_proc p s)"
  shows "ptab t (remove1 p ps)" "init_ok t (remove1 p ps)"
    "p_pid (procs t x) = p_pid (procs s x)" "p_state (procs t x) = p_state (procs s x)"
    "p_parent (procs t x) = p_parent (procs s x)" "p_kstack (procs t x) = p_kstack (procs s x)"
    "p_wait_state (procs t x) = p_wait_state (procs s x)" "idleproc t = idleproc s"
proof -
  note D = ptabD [OF pt]
  have pl: "p_cptr (procs s p) = 0" "p_parent (procs s p) \<noteq> p" "p_optr (procs s p) \<noteq> p" "p_yptr (procs s p) \<noteq> p"
    using ptab_links [OF pt p(1) D(7) [OF p]] by simp_all
  have d: "distinct ps" and sub: "set (remove1 p ps) = set ps - {p}"
    using D(1) plist_distinct by (auto simp: pid_inv_def set_remove1_eq)
  have u: "procs (unhash_proc p s) = procs s" by (simp add: unhash_proc_def)
  note rl = remove_links_eq [of "unhash_proc p s" p, unfolded u, OF pl(2-4), folded t_def]
  have fr: "hlinks t = list_del (hlinks s) (HashLink p)" "idleproc t = idleproc s" "initproc t = initproc s"
    "last_pid t = last_pid s" "next_safe t = next_safe s" "plinks t = list_del (plinks s) (ListLink p)"
    "nr_process t = nr_process s - 1"
    using rl by (simp_all add: t_def unhash_proc_def)
  show pid: "p_pid (procs t x) = p_pid (procs s x)" and st: "p_state (procs t x) = p_state (procs s x)"
    and "p_kstack (procs t x) = p_kstack (procs s x)" "p_wait_state (procs t x) = p_wait_state (procs s x)"
    and par: "p_parent (procs t x) = p_parent (procs s x)" for x
    using rl(3) by (simp_all add: t_def u)
  show "idleproc t = idleproc s" by (rule fr(2))
  have pid': "\<And>x. p_pid (procs t x) = p_pid (procs s x)" using pid by simp
  have nokid: "p_parent (procs s x) \<noteq> p" if "x \<in> set ps" for x using D(7) [OF p] that by (auto simp: children_def)
  have "family (procs t) (insert (idleproc s) (set ps) - {p}) (set ps - {p})"
    by (rule family_remove [OF D(3) p(1) pl(1) refl refl refl]) (simp_all add: rl)
  moreover have "insert (idleproc s) (set ps) - {p} = insert (idleproc s) (set (remove1 p ps))"
    using D(4) p(1) sub by auto
  ultimately have "family (procs t) (insert (idleproc t) (set (remove1 p ps))) (set (remove1 p ps))"
    by (simp add: sub fr)
  moreover have "hashed (hlinks t) (procs t) (set (remove1 p ps))"
    using hashed_remove_list [OF D(2) p(1) d] hashed_cong [of _ "procs t" "procs s"] by (simp add: fr pid')
  moreover have "pid_inv t (remove1 p ps)"
    using D(1) p(1) sub plist_remove1 unfolding pid_inv_def pid_gap_def
    by (auto simp: fr pid' distinct_map distinct_remove1 inj_on_def)
  moreover have "int (length (remove1 p ps)) = int (length ps) - 1" using length_pos_if_in_set [OF p(1)] p(1) by (auto simp only: length_remove1 if_True)
  moreover have "children (procs t) (set (remove1 p ps)) q = {}" if "q \<in> set (remove1 p ps)" "p_state (procs t q) = PROC_ZOMBIE" for q
    using D(7) [of q] that sub by (auto simp: children_def par st)
  ultimately show "ptab t (remove1 p ps)" using D(4-6) sub unfolding ptab_def fr by simp
  show "init_ok t (remove1 p ps)" using ini p sub by (auto simp: init_ok_def fr par st)
qed

text \<open>
  \<open>reap\<close> succeeds when the exit code can be stored and the two blocks of the process can be given back
  to the memory subsystem.
\<close>

lemma reap_ok:
  assumes pt: "ptab s ps" and ini: "init_ok s ps" and p: "p \<in> set ps" "p_state (procs s p) = PROC_ZOMBIE"
    and store: "(if cs \<noteq> 0 then store_bytes cs (int_bytes (p_exit_code (procs s p))) s else Inr s) = Inr s1"
    and kst: "kva2page (mem s1) (p_kstack (procs s p)) = Inr pg" "free_pages pg KSTACKPAGE (mem s1) = Inr m1"
    and fre: "kfree p m1 = Inr m2"
  shows "\<exists>t. reap p cs s = Inr t \<and> mem t = m2 \<and> current t = current s \<and> idleproc t = idleproc s \<and>
     ptab t (remove1 p ps) \<and> init_ok t (remove1 p ps) \<and>
     (\<forall>x. p_pid (procs t x) = p_pid (procs s x) \<and> p_state (procs t x) = p_state (procs s x) \<and>
        p_wait_state (procs t x) = p_wait_state (procs s x) \<and> p_parent (procs t x) = p_parent (procs s x))"
proof -
  have m1: "mem_only s s1" using store store_bytes_only by (auto split: if_splits)
  then have pr: "procs s1 = procs s" and cur: "current s1 = current s" using mem_only_fields by blast+
  obtain fl m where fl: "k_intr_save s1 = (fl, s1\<lparr>mem := m\<rparr>)"
    and ru: "\<forall>t. mem t = m \<longrightarrow> k_intr_restore fl t = t\<lparr>mem := mem s1\<rparr>" by (rule intr_sectionE [of s1])
  define u where "u = s1\<lparr>mem := m\<rparr>"
  have mu: "mem_only s u" using m1 by (simp add: u_def mem_only_trans [OF m1])
  then have pu: "procs u = procs s" "initproc u = initproc s" "idleproc u = idleproc s" "current u = current s"
    using mem_only_fields by blast+
  have ptu: "ptab u ps" by (rule ptab_table_eq [OF table_eq_mem [OF mu] pt]) (simp add: pu)
  have iniu: "init_ok u ps" using ini by (simp add: init_ok_def pu)
  define v where "v = remove_links p (unhash_proc p u)"
  note U = unlink_ok [OF ptu iniu p(1), unfolded pu, OF p(2), folded v_def]
  have mv: "mem v = m" "current v = current s" by (simp_all add: v_def unhash_proc_def u_def cur)
  define w where "w = k_intr_restore fl v"
  have w: "w = v\<lparr>mem := mem s1\<rparr>" using ru mv by (simp add: w_def)
  have pz: "p \<noteq> idleproc s" "p \<noteq> initproc s" using p ini ptabD(4) [OF pt] by (auto simp: init_ok_def)
  have wk: "p_kstack (procs w p) = p_kstack (procs s p)" "mem w = mem s1"
    "procs (unhash_proc p u) = procs s" using U(6) [of p] by (simp_all add: w unhash_proc_def pu)
  have run: "reap p cs s = Inr (w\<lparr>mem := m2\<rparr>)"
    using pz kst fre unfolding reap_def store
    by (simp add: fl u_def [symmetric] v_def [symmetric] w_def [symmetric] put_kstack_def on_mem0_def wk)
  define t where "t = w\<lparr>mem := m2\<rparr>"
  have mt: "mem_only v t" by (simp add: t_def w)
  have tp: "procs t = procs v" "initproc t = initproc v" "idleproc t = idleproc v" using mem_only_fields [OF mt] by blast+
  have "ptab t (remove1 p ps)" by (rule ptab_table_eq [OF table_eq_mem [OF mt] U(1)]) (simp add: tp)
  moreover have "init_ok t (remove1 p ps)" using U(2) by (simp add: init_ok_def tp)
  ultimately show ?thesis using run U(3-5,7,8)
    by (intro exI [of _ t]) (simp add: t_def [symmetric] tp, simp add: t_def w mv)
qed

section \<open>Waiting\<close>

lemma zombie_loop_ok:
  assumes "sib P y ks" and "0 \<notin> set ks"
  shows "zombie_loop P (hd0 ks) h =
    Some (h \<or> ks \<noteq> [], case find (\<lambda>k. p_state (P k) = PROC_ZOMBIE) ks of Some k \<Rightarrow> k | None \<Rightarrow> 0)"
  using assms
proof (induction ks arbitrary: y h)
  case Nil
  then show ?case by (subst zombie_loop.simps) simp
next
  case (Cons k ks)
  then have "p_optr (P k) = hd0 ks" "sib P k ks" "k \<noteq> 0" by (auto simp: sib_Cons)
  with Cons.IH [of k True] Cons.prems(2) show ?case by (subst zombie_loop.simps) simp
qed

text \<open>The children that \<open>do_wait(pid, _)\<close> of \<open>c\<close> waits for.\<close>

definition waits_for :: "(addr \<Rightarrow> proc_struct) \<Rightarrow> addr set \<Rightarrow> addr \<Rightarrow> int \<Rightarrow> addr set" where
  "waits_for P Q c pid = {p \<in> children P Q c. pid = 0 \<or> p_pid (P p) = pid}"

lemma pids_inj:
  "ptab s ps \<Longrightarrow> p \<in> set ps \<Longrightarrow> q \<in> set ps \<Longrightarrow> p_pid (procs s p) = p_pid (procs s q) \<Longrightarrow> p = q"
  using ptabD(1) [of s ps] by (auto simp: pid_inv_def distinct_map inj_on_def)

lemma find_zombie_ok:
  assumes pt: "ptab s ps" and c: "current s \<in> insert (idleproc s) (set ps)"
  shows "\<exists>p. find_zombie pid s = Inr (waits_for (procs s) (set ps) (current s) pid \<noteq> {}, p) \<and>
     (if \<exists>q\<in>waits_for (procs s) (set ps) (current s) pid. p_state (procs s q) = PROC_ZOMBIE
      then p \<in> waits_for (procs s) (set ps) (current s) pid \<and> p_state (procs s p) = PROC_ZOMBIE else p = 0)"
proof (cases "pid = 0")
  case True
  obtain ks where ks: "kids (procs s) (current s) ks" "set ks = children (procs s) (set ps) (current s)" "0 \<notin> set ks"
    by (rule familyE [OF ptabD(3) [OF pt] c])
  have w: "waits_for (procs s) (set ps) (current s) pid = set ks" using True ks(2) by (auto simp: waits_for_def)
  have "find_zombie pid s = Inr (ks \<noteq> [], case find (\<lambda>k. p_state (procs s k) = PROC_ZOMBIE) ks of Some k \<Rightarrow> k | None \<Rightarrow> 0)"
    using True zombie_loop_ok [of "procs s" 0 ks False] ks(1,3) by (simp add: find_zombie_def kids_def)
  then show ?thesis unfolding w
    by (cases "find (\<lambda>k. p_state (procs s k) = PROC_ZOMBIE) ks") (auto simp: find_None_iff find_Some_iff)
next
  case False
  have "\<forall>p\<in>set ps. 1 \<le> p_pid (procs s p) \<and> p_pid (procs s p) < MAX_PID" using ptabD(1) [OF pt] by (simp add: pid_inv_def)
  from find_proc_ok [OF ptabD(2) [OF pt] this] obtain p
    where p: "find_proc pid s = Inr p" "proc_of_pid (procs s) (set ps) pid p" by blast
  have 0: "0 \<notin> set ps" using ptabD(9) [OF pt] .
  have w: "waits_for (procs s) (set ps) (current s) pid =
      (if p \<noteq> 0 \<and> p_parent (procs s p) = current s then {p} else {})"
    using p(2) False 0 pids_inj [OF pt] by (auto simp: waits_for_def children_def proc_of_pid_def split: if_splits)
  show ?thesis unfolding w using p(1) False by (auto simp: find_zombie_def)
qed

text \<open>A caller whose children are all alive sleeps until one of them exits.\<close>

lemma wait_sleeps:
  assumes pt: "ptab s ps" and ini: "init_ok s ps" and c: "current s \<in> set ps"
    and w: "waits_for (procs s) (set ps) (current s) pid \<noteq> {}"
    and nz: "\<forall>q\<in>waits_for (procs s) (set ps) (current s) pid. p_state (procs s q) \<noteq> PROC_ZOMBIE"
  shows "\<exists>t. wait_repeat pid cs s = Inr (t, Away) \<and> ptab t ps \<and> init_ok t ps \<and> current t \<noteq> current s \<and>
     p_state (procs t (current s)) = PROC_SLEEPING \<and> p_wait_state (procs t (current s)) = WT_CHILD \<and>
     kont t (current s) = F_wait pid cs # kont s (current s)"
proof -
  let ?c = "current s"
  define u where "u = upd_proc ?c (\<lambda>p. p\<lparr>p_state := PROC_SLEEPING, p_wait_state := WT_CHILD\<rparr>) s"
  define v where "v = u\<lparr>kont := (kont s)(?c := F_wait pid cs # kont s ?c)\<rparr>"
  have pv: "procs v = procs u" "current v = ?c" "idleproc v = idleproc s" "initproc v = initproc s" by (simp_all add: v_def u_def)
  have te: "table_eq s v" by (simp add: table_eq_def v_def u_def)
  have "find_zombie pid s = Inr (True, 0)" using find_zombie_ok [OF pt, of pid] c w nz by auto
  then have run: "wait_repeat pid cs s = bindR (schedule v) (\<lambda>t. Inr (t, Away))"
    by (simp add: wait_repeat_def v_def u_def)
  have ptv: "ptab v ps" by (rule ptab_table_eq [OF te pt]) (auto simp: pv u_def split: if_splits)
  have iniv: "init_ok v ps" by (rule init_ok_table_eq [OF te pv(4) ini]) (use ini in \<open>auto simp: pv u_def init_ok_def\<close>)
  obtain t where t: "schedule v = Inr t" "ptab t ps" "current t = sched_pick (procs v) (idleproc s) ?c ps" "same_table v t"
    "procs t = (\<lambda>p. sched_proc ?c (current t) (call_regs v) p (procs v p))"
    using ptab_schedule [OF ptv] c by (auto simp: pv)
  have "distinct ps" using ptabD(1) [OF pt] plist_distinct by (auto simp: pid_inv_def)
  moreover have "?c \<noteq> idleproc s" using c ptabD(4) [OF pt] by metis
  ultimately have "current t \<noteq> ?c" using sched_pick_not [of ps ?c "idleproc s" "procs v"] c by (simp add: t(3) pv u_def)
  moreover have "init_ok t ps"
    by (rule init_ok_table_eq [OF table_eq_schedule [OF t(4,5)] _ iniv])
      (use t(4) iniv in \<open>simp_all add: t(5) same_table_def init_ok_def\<close>)
  moreover have "kont t ?c = F_wait pid cs # kont s ?c" using t(4) by (simp add: same_table_def v_def)
  ultimately show ?thesis using run t(1,2) by (intro exI [of _ t]) (simp add: t(5) pv u_def)
qed

section \<open>Killing\<close>

lemma do_kill_ok:
  assumes pt: "ptab s ps" and ini: "init_ok s ps" and p: "p \<in> set ps"
    and pid: "p_pid (procs s p) = pid" and alive: "p_flags (procs s p) AND PF_EXITING = 0"
    and z: "p_wait_state (procs s p) AND WT_INTERRUPTED \<noteq> 0 \<longrightarrow> p_state (procs s p) \<noteq> PROC_ZOMBIE"
  shows "\<exists>t. do_kill pid s = Inr (t, 0) \<and> ptab t ps \<and> init_ok t ps \<and>
     p_flags (procs t p) = p_flags (procs s p) OR PF_EXITING \<and>
     (p_wait_state (procs s p) AND WT_INTERRUPTED \<noteq> 0 \<longrightarrow> p_state (procs t p) = PROC_RUNNABLE) \<and>
     same_sleep (procs s p) (procs t p) \<and>
     (\<forall>q. q \<noteq> p \<longrightarrow> procs t q = procs s q) \<and> current t = current s \<and> idleproc t = idleproc s"
proof -
  have "\<forall>p\<in>set ps. 1 \<le> p_pid (procs s p) \<and> p_pid (procs s p) < MAX_PID" using ptabD(1) [OF pt] by (simp add: pid_inv_def)
  from find_proc_ok [OF ptabD(2) [OF pt] this, of pid] obtain p'
    where "find_proc pid s = Inr p'" "proc_of_pid (procs s) (set ps) pid p'" by blast
  then have f: "find_proc pid s = Inr p" using p pid pids_inj [OF pt] by (auto simp: proc_of_pid_def split: if_splits)
  have p0: "p \<noteq> 0" using p ptabD(9) [OF pt] by metis
  define u where "u = upd_proc p (\<lambda>p. p\<lparr>p_flags := p_flags p OR PF_EXITING\<rparr>) s"
  define t where "t = (if p_wait_state (procs s p) AND WT_INTERRUPTED \<noteq> 0 \<and> p_state (procs s p) \<noteq> PROC_RUNNABLE
     then upd_proc p (\<lambda>q. q\<lparr>p_state := PROC_RUNNABLE, p_wait_state := 0\<rparr>) u else u)"
  have "p_state (procs u p) \<noteq> PROC_ZOMBIE" if "p_wait_state (procs s p) AND WT_INTERRUPTED \<noteq> 0" using z that by (simp add: u_def)
  then have run: "do_kill pid s = Inr (t, 0)"
    using f p0 alive wakeup_proc_eq [of u p] by (auto simp: do_kill_def u_def [symmetric] t_def) (auto simp: u_def)
  have te: "table_eq s t" "initproc t = initproc s" by (simp_all add: table_eq_def t_def u_def)
  have st: "p_state (procs t x) = PROC_ZOMBIE \<Longrightarrow> p_state (procs s x) = PROC_ZOMBIE" for x
    by (auto simp: t_def u_def split: if_splits)
  have "ptab t ps" by (rule ptab_table_eq [OF te(1) pt]) (use st in blast)
  moreover have "init_ok t ps" by (rule init_ok_table_eq [OF te ini]) (use st ini in \<open>auto simp: init_ok_def\<close>)
  ultimately show ?thesis using run by (intro exI [of _ t]) (auto simp: t_def u_def same_sleep_def)
qed

end
