(* ===== verification/Proc_Fork.thy ===== *)
theory Proc_Fork
  imports Proc_Exit
begin

text \<open>
  \<open>do_fork\<close> as a whole: until \<open>fork_link\<close> it only works on memory and on the new structure, which is not
  in the table yet.
\<close>

section \<open>Work on a structure outside the table\<close>

definition off_table :: "addr \<Rightarrow> kstate \<Rightarrow> kstate \<Rightarrow> bool" where
  "off_table p s t \<longleftrightarrow> (\<forall>x. x \<noteq> p \<longrightarrow> procs t x = procs s x) \<and>
     plinks t = plinks s \<and> hlinks t = hlinks s \<and> idleproc t = idleproc s \<and> initproc t = initproc s \<and>
     current t = current s \<and> nr_process t = nr_process s \<and> last_pid t = last_pid s \<and> next_safe t = next_safe s"

text \<open>What the setup of a new process leaves alone in its structure.\<close>

definition set_up :: "proc_struct \<Rightarrow> proc_struct \<Rightarrow> bool" where
  "set_up q q' \<longleftrightarrow> p_parent q' = p_parent q \<and> p_cptr q' = p_cptr q \<and> p_state q' = p_state q \<and>
     p_wait_state q' = p_wait_state q \<and> p_flags q' = p_flags q"

definition sets_up :: "addr \<Rightarrow> kstate \<Rightarrow> kstate \<Rightarrow> bool" where
  "sets_up p s t \<longleftrightarrow> off_table p s t \<and> set_up (procs s p) (procs t p)"

lemma sets_up_refl: "sets_up p s s"
  by (simp add: sets_up_def off_table_def set_up_def)

lemma off_table_trans: "off_table p s t \<Longrightarrow> off_table p t u \<Longrightarrow> off_table p s u"
  by (simp add: off_table_def)

lemma sets_up_trans: "sets_up p s t \<Longrightarrow> sets_up p t u \<Longrightarrow> sets_up p s u"
  by (auto simp: sets_up_def set_up_def intro: off_table_trans)

lemma sets_up_mem: "mem_only s t \<Longrightarrow> sets_up p s t"
  by (auto simp: mem_only_def sets_up_def off_table_def set_up_def)

lemma sets_up_upd: "set_up (procs s p) (f (procs s p)) \<Longrightarrow> sets_up p s (upd_proc p f s)"
  by (simp add: sets_up_def off_table_def)

lemma off_table_upd: "off_table p s (upd_proc p f s)"
  by (simp add: off_table_def)

lemma setup_kstack_sets_up: "setup_kstack p s = Inr (t, r) \<Longrightarrow> sets_up p s t"
  by (auto simp: setup_kstack_def bindR_eq_Inr set_up_def split: option.splits
      dest!: on_mem_only intro: sets_up_mem intro!: sets_up_trans [OF sets_up_mem sets_up_upd])

lemma setup_pgdir_only: "setup_pgdir mm s = Inr (t, r) \<Longrightarrow> mem_only s t"
  by (auto simp: setup_pgdir_def bindR_eq_Inr split: option.splits dest!: on_mem_only
      intro: mem_only_trans [OF _ mem_onlyI])

lemma share_mm_sets_up:
  assumes "share_mm mm p s = Inr (t, r)"
  shows "sets_up p s t"
proof -
  let ?m = "fst (mm_count_inc mm (mem s))"
  obtain c where "t = upd_proc p (\<lambda>q. q\<lparr>p_cr3 := c\<rparr>) (upd_proc p (\<lambda>q. q\<lparr>p_mm := mm\<rparr>) (s\<lparr>mem := ?m\<rparr>))"
    using assms by (auto simp: share_mm_def Let_def bindR_eq_Inr)
  then show ?thesis by (auto simp: sets_up_def off_table_def set_up_def)
qed

lemmas sets_up_ops = on_mem_only [THEN sets_up_mem] on_mem0_only [THEN sets_up_mem] setup_pgdir_only [THEN sets_up_mem]
  drop_mmap_only [THEN sets_up_mem] share_mm_sets_up

lemma copy_mm_sets_up: "copy_mm fl p s = Inr (t, r) \<Longrightarrow> sets_up p s t"
  unfolding copy_mm_def Let_def
  by (auto simp: bindR_eq_Inr sets_up_refl split: if_splits dest!: sets_up_ops [where p = p])
    (meson sets_up_trans)+

lemma copy_thread_sets_up: "sets_up p s (copy_thread p esp tf s)"
  by (simp add: copy_thread_def Let_def sets_up_def off_table_def set_up_def upd_tf_def)

lemma alloc_proc_new:
  assumes "alloc_proc s = Inr (t, p)" and "p \<noteq> 0"
  shows "off_table p s t \<and> p_cptr (procs t p) = 0 \<and> p_state (procs t p) = PROC_UNINIT \<and>
    p_wait_state (procs t p) = 0 \<and> p_flags (procs t p) = 0"
proof -
  obtain u where u: "on_mem (kmalloc sizeof_proc_struct) s = Inr (u, p)"
    and t: "t = upd_proc p (\<lambda>_. zero_proc\<lparr>p_state := PROC_UNINIT, p_pid := - 1, p_cr3 := boot_cr3 u\<rparr>) u"
    using assms by (fastforce simp: alloc_proc_def bindR_eq_Inr split: if_splits)
  show ?thesis using mem_only_fields [OF on_mem_only [OF u]] by (simp add: t off_table_def zero_proc_def)
qed

lemma family_cong_on:
  assumes "\<And>x. x \<in> R \<Longrightarrow> P' x = P x" and "Q \<subseteq> R"
  shows "family P' R Q = family P R Q"
proof -
  have c: "children P' Q q = children P Q q" for q using assms by (intro children_cong) auto
  have "kids P' q ks = kids P q ks" if "q \<in> R" "set ks = children P Q q" for q ks
    using that assms by (intro kids_cong) (auto simp: children_def)
  then have "(\<exists>ks. kids P' q ks \<and> set ks = children P' Q q) = (\<exists>ks. kids P q ks \<and> set ks = children P Q q)" if "q \<in> R" for q
    using that c by auto
  moreover have "(\<forall>p\<in>Q. p_parent (P' p) \<in> R) = (\<forall>p\<in>Q. p_parent (P p) \<in> R)"
    using assms by (metis subsetD)
  ultimately show ?thesis unfolding family_def by auto
qed

lemma ptab_off:
  assumes off: "off_table p s t" and p: "p \<notin> insert (idleproc s) (set ps)" and pt: "ptab s ps"
  shows "ptab t ps" "init_ok s ps \<Longrightarrow> init_ok t ps"
proof -
  let ?R = "insert (idleproc s) (set ps)"
  have e: "procs t x = procs s x" if "x \<in> ?R" for x using off p that by (auto simp: off_table_def)
  have fr: "plinks t = plinks s" "hlinks t = hlinks s" "idleproc t = idleproc s" "initproc t = initproc s"
    "nr_process t = nr_process s" "last_pid t = last_pid s" "next_safe t = next_safe s" using off by (simp_all add: off_table_def)
  have m: "map (\<lambda>p. p_pid (procs t p)) ps = map (\<lambda>p. p_pid (procs s p)) ps" using e by simp
  have "pid_inv t ps"
    using ptabD(1) [OF pt] e unfolding pid_inv_def pid_gap_def m fr by simp
  moreover have "hashed (hlinks t) (procs t) (set ps)"
    using ptabD(2) [OF pt] hashed_cong [of "set ps" "procs t" "procs s"] e by (simp add: fr)
  moreover have "family (procs t) ?R (set ps)"
    using ptabD(3) [OF pt] family_cong_on [of ?R "procs t" "procs s" "set ps"] e by (simp add: subset_insertI)
  moreover have "children (procs t) (set ps) q = children (procs s) (set ps) q" for q
    using e by (intro children_cong) simp
  ultimately show "ptab t ps" using ptabD(4-7) [OF pt] e unfolding ptab_def fr by simp
  show "init_ok s ps \<Longrightarrow> init_ok t ps" using e unfolding init_ok_def fr by simp
qed

section \<open>\<open>do_fork\<close>\<close>

lemma do_fork_ok:
  assumes pt: "ptab s ps" and cur: "current s \<in> insert (idleproc s) (set ps)"
    and curz: "p_state (procs s (current s)) \<noteq> PROC_ZOMBIE" and room: "nr_process s < MAX_PROCESS"
    and new: "alloc_proc s = Inr (s1, p)" "p \<noteq> 0" "p \<notin> insert (idleproc s) (set ps)"
    and ks: "setup_kstack p (upd_proc p (\<lambda>q. q\<lparr>p_parent := current s1\<rparr>) s1) = Inr (s2, 0)"
    and mm: "copy_mm fl p s2 = Inr (s3, 0)"
  shows "\<exists>t pid. do_fork fl stack tf s = Inr (t, pid) \<and> ptab t (p # ps) \<and> (init_ok s ps \<longrightarrow> init_ok t (p # ps)) \<and>
     1 \<le> pid \<and> pid < MAX_PID \<and> (\<forall>q\<in>set ps. p_pid (procs s q) \<noteq> pid) \<and>
     p_pid (procs t p) = pid \<and> p_state (procs t p) = PROC_RUNNABLE \<and> p_wait_state (procs t p) = 0 \<and>
     p_parent (procs t p) = current s \<and>
     (\<forall>q. q \<noteq> p \<longrightarrow> p_pid (procs t q) = p_pid (procs s q) \<and> p_state (procs t q) = p_state (procs s q) \<and>
        p_wait_state (procs t q) = p_wait_state (procs s q) \<and> p_parent (procs t q) = p_parent (procs s q)) \<and>
     p_cptr (procs t (current s)) = p \<and> (\<exists>u u'. off_table p s u \<and> get_pid u = Inr (u', pid)) \<and> mem t = mem s3 \<and>
     current t = current s \<and> idleproc t = idleproc s \<and> initproc t = initproc s"
proof -
  note A = alloc_proc_new [OF new(1,2)]
  define u where "u = upd_proc p (\<lambda>q. q\<lparr>p_parent := current s1\<rparr>) s1"
  define v where "v = copy_thread p stack tf s3"
  have su: "sets_up p u v" unfolding v_def u_def
    using setup_kstack_sets_up [OF ks] copy_mm_sets_up [OF mm] copy_thread_sets_up by (blast intro: sets_up_trans)
  have "off_table p s u" unfolding u_def using A off_table_upd by (blast intro: off_table_trans)
  then have off: "off_table p s v" using su by (auto simp: sets_up_def intro: off_table_trans)
  have cu: "current s1 = current s" using A by (simp add: off_table_def)
  have v: "p_parent (procs v p) = current s" "p_cptr (procs v p) = 0" "p_state (procs v p) = PROC_UNINIT"
    "p_wait_state (procs v p) = 0"
    using su A cu by (auto simp: sets_up_def set_up_def u_def)
  have fr: "idleproc v = idleproc s" "nr_process v = nr_process s" "current v = current s" "initproc v = initproc s"
    "\<And>x. x \<noteq> p \<Longrightarrow> procs v x = procs s x" using off by (simp_all add: off_table_def)
  have pc: "p \<noteq> current s" using new(3) cur by auto
  have "\<exists>t pid. fork_link p v = Inr (t, pid) \<and> ptab t (p # ps) \<and> 1 \<le> pid \<and> pid < MAX_PID \<and>
     (\<forall>q\<in>set ps. p_pid (procs v q) \<noteq> pid) \<and> p_pid (procs t p) = pid \<and> p_state (procs t p) = PROC_RUNNABLE \<and>
     p_wait_state (procs t p) = 0 \<and> p_parent (procs t p) = p_parent (procs v p) \<and>
     (\<forall>q. q \<noteq> p \<longrightarrow> p_pid (procs t q) = p_pid (procs v q) \<and> p_state (procs t q) = p_state (procs v q) \<and>
        p_wait_state (procs t q) = p_wait_state (procs v q) \<and> p_parent (procs t q) = p_parent (procs v q)) \<and>
     p_cptr (procs t (p_parent (procs v p))) = p \<and> (\<exists>u. get_pid v = Inr (u, pid)) \<and> mem t = mem v \<and> current t = current v \<and> idleproc t = idleproc v \<and> initproc t = initproc v"
    by (rule fork_link_ok) (use ptab_off(1) [OF off new(3) pt] new v cur curz room pc in \<open>simp_all add: fr\<close>)
  then obtain t pid where t: "fork_link p v = Inr (t, pid)" "ptab t (p # ps)" "1 \<le> pid" "pid < MAX_PID"
     "\<forall>q\<in>set ps. p_pid (procs v q) \<noteq> pid" "p_pid (procs t p) = pid" "p_state (procs t p) = PROC_RUNNABLE"
     "p_wait_state (procs t p) = 0" "p_parent (procs t p) = p_parent (procs v p)"
     "\<forall>q. q \<noteq> p \<longrightarrow> p_pid (procs t q) = p_pid (procs v q) \<and> p_state (procs t q) = p_state (procs v q) \<and>
        p_wait_state (procs t q) = p_wait_state (procs v q) \<and> p_parent (procs t q) = p_parent (procs v q)"
     "p_cptr (procs t (p_parent (procs v p))) = p" "\<exists>u. get_pid v = Inr (u, pid)" "mem t = mem v" "current t = current v" "idleproc t = idleproc v" "initproc t = initproc v"
    by blast
  have "mem v = mem s3" by (simp add: v_def copy_thread_def Let_def upd_tf_def)
  have ps: "q \<noteq> p" if "q \<in> insert (idleproc s) (set ps)" for q using that new(3) by auto
  have "do_fork fl stack tf s = Inr (t, pid)"
    using room new(1,2) ks mm t(1) unfolding v_def by (simp add: do_fork_def)
  moreover have "init_ok s ps \<longrightarrow> init_ok t (p # ps)"
    using t(7,9,10,15,16) ps v(1) pc unfolding init_ok_def fr by (auto simp: fr)
  ultimately show ?thesis using t ps v(1) off \<open>mem v = mem s3\<close> by (intro exI [of _ t] exI [of _ pid]) (auto simp: fr)
qed

end
