(* ===== verification/Proc_Machine.thy ===== *)
theory Proc_Machine
  imports Proc_Fork Trap
begin

text \<open>
  The kernel as a machine: every entry through \<open>trap\<close>, every return of a suspended process and every turn of
  the idle loop keeps the process table.
\<close>

section \<open>The invariant\<close>

definition tab_ok :: "kstate \<Rightarrow> addr list \<Rightarrow> bool" where
  "tab_ok s ps \<longleftrightarrow> ptab s ps \<and> init_ok s ps \<and> current s \<in> insert (idleproc s) (set ps) \<and>
     (\<forall>p\<in>set ps. p_wait_state (procs s p) \<noteq> 0 \<longrightarrow> p_state (procs s p) = PROC_SLEEPING)"

text \<open>The running process is runnable; the idle process runs when no other can.\<close>

definition table_ok :: "kstate \<Rightarrow> addr list \<Rightarrow> bool" where
  "table_ok s ps \<longleftrightarrow> tab_ok s ps \<and> (current s = idleproc s \<or> p_state (procs s (current s)) = PROC_RUNNABLE)"

text \<open>Steps that leave the table, the states and the running process alone.\<close>

definition quiet :: "kstate \<Rightarrow> kstate \<Rightarrow> bool" where
  "quiet s t \<longleftrightarrow> table_eq s t \<and> initproc t = initproc s \<and> current t = current s \<and>
     (\<forall>x. p_state (procs t x) = p_state (procs s x) \<and> p_wait_state (procs t x) = p_wait_state (procs s x))"

lemma quiet_refl [simp]: "quiet s s"
  by (simp add: quiet_def table_eq_refl)

lemma quiet_trans: "quiet s t \<Longrightarrow> quiet t u \<Longrightarrow> quiet s u"
  unfolding quiet_def using table_eq_trans by metis

lemma quiet_mem: "mem_only s t \<Longrightarrow> quiet s t"
  using mem_only_fields [of s t] table_eq_mem [of s t] by (simp add: quiet_def)

lemma quiet_upd:
  assumes "\<And>q. p_pid (f q) = p_pid q \<and> p_parent (f q) = p_parent q \<and> p_cptr (f q) = p_cptr q \<and>
     p_yptr (f q) = p_yptr q \<and> p_optr (f q) = p_optr q \<and> p_state (f q) = p_state q \<and> p_wait_state (f q) = p_wait_state q"
  shows "quiet s (upd_proc p f s)"
  using assms by (simp add: quiet_def table_eq_def)

lemma quiet_frame [simp]:
  "quiet s (upd_tf a f s)" "quiet s (s\<lparr>console := c\<rparr>)" "quiet s (s\<lparr>ticks := k\<rparr>)" "quiet s (s\<lparr>kont := kk\<rparr>)"
  "quiet s (lcr3 r s)"
  by (simp_all add: quiet_def table_eq_def upd_tf_def lcr3_def)

lemma tab_ok_quiet: "quiet s t \<Longrightarrow> tab_ok s ps \<Longrightarrow> tab_ok t ps"
  unfolding tab_ok_def
proof (elim conjE, intro conjI)
  assume q: "quiet s t" and "ptab s ps" "init_ok s ps"
  then show "ptab t ps" "init_ok t ps"
    by (auto simp: quiet_def init_ok_def table_eq_def intro!: ptab_table_eq [of s t])
qed (auto simp: quiet_def table_eq_def)

lemma table_ok_quiet: "quiet s t \<Longrightarrow> table_ok s ps \<Longrightarrow> table_ok t ps"
  using tab_ok_quiet [of s t ps] by (auto simp: table_ok_def quiet_def table_eq_def)

section \<open>Operations on the table\<close>

lemma tab_ok_schedule:
  assumes "tab_ok s ps"
  shows "\<exists>t. schedule s = Inr t \<and> table_ok t ps"
proof -
  have s: "ptab s ps" "init_ok s ps" "current s = idleproc s \<or> current s \<in> set ps"
    "\<forall>p\<in>set ps. p_wait_state (procs s p) \<noteq> 0 \<longrightarrow> p_state (procs s p) = PROC_SLEEPING"
    using assms by (auto simp: tab_ok_def)
  obtain t where t: "schedule s = Inr t" "ptab t ps" "current t = sched_pick (procs s) (idleproc s) (current s) ps"
    "same_table s t" "procs t = (\<lambda>p. sched_proc (current s) (current t) (call_regs s) p (procs s p))"
    using ptab_schedule [OF s(1,3)] by blast
  have d: "distinct ps" using ptabD(1) [OF s(1)] plist_distinct by (auto simp: pid_inv_def)
  have "init_ok t ps"
    by (rule init_ok_table_eq [OF table_eq_schedule [OF t(4,5)] _ s(2)])
      (use t(4) s(2) in \<open>simp_all add: t(5) same_table_def init_ok_def\<close>)
  moreover have "current t = idleproc s \<or> current t \<in> set ps \<and> p_state (procs s (current t)) = PROC_RUNNABLE"
    using sched_order_set [OF s(3) d] by (auto simp: t(3) sched_pick_def find_Some_iff split: option.splits)
  moreover have "idleproc t = idleproc s" using t(4) by (simp add: same_table_def)
  ultimately show ?thesis using t(1,2) s(4) unfolding table_ok_def tab_ok_def
    by (intro exI [of _ t]) (auto simp: t(5))
qed

text \<open>The running process puts itself to sleep.\<close>

lemma tab_ok_sleep:
  assumes "tab_ok s ps"
  shows "tab_ok (upd_proc (current s) (\<lambda>p. p\<lparr>p_state := PROC_SLEEPING, p_wait_state := w\<rparr>) s) ps"
    (is "tab_ok ?t ps")
proof -
  have te: "table_eq s ?t" "initproc ?t = initproc s" by (simp_all add: table_eq_def)
  have "ptab ?t ps" by (rule ptab_table_eq [OF te(1)]) (use assms in \<open>auto simp: tab_ok_def split: if_splits\<close>)
  moreover have "init_ok ?t ps" by (rule init_ok_table_eq [OF te]) (use assms in \<open>auto simp: tab_ok_def init_ok_def\<close>)
  ultimately show ?thesis using assms by (auto simp: tab_ok_def)
qed

lemma table_ok_exit:
  assumes ok: "table_ok s ps" and run: "do_exit code s = Inr (t, c)"
  shows "table_ok t ps \<and> c = Away"
proof -
  have s: "ptab s ps" "init_ok s ps" "current s = idleproc s \<or> current s \<in> set ps"
    "\<forall>p\<in>set ps. p_wait_state (procs s p) \<noteq> 0 \<longrightarrow> p_state (procs s p) = PROC_SLEEPING"
    "current s = idleproc s \<or> p_state (procs s (current s)) = PROC_RUNNABLE"
    using ok by (auto simp: table_ok_def tab_ok_def)
  obtain s1 where "current s \<noteq> idleproc s" "current s \<noteq> initproc s" "leave_mm s = Inr s1"
    using run by (auto simp: do_exit_def bindR_eq_Inr split: if_splits)
  with do_exit_ok [OF s(1,2) _ _ this(3), of code] s(3) run
  have t: "c = Away" "ptab t ps" "init_ok t ps" "current t \<in> insert (idleproc s) (set ps)"
    "idleproc t = idleproc s" "p_wait_state (procs t (current s)) = p_wait_state (procs s (current s))"
    "\<forall>x. x \<noteq> current s \<longrightarrow> same_sleep (procs s x) (procs t x)"
    "current t = idleproc t \<or> p_state (procs t (current t)) = PROC_RUNNABLE"
    by auto
  have "p_wait_state (procs s (current s)) = 0" using s(3-5) \<open>current s \<noteq> idleproc s\<close> by force
  then have "p_state (procs t p) = PROC_SLEEPING" if "p \<in> set ps" "p_wait_state (procs t p) \<noteq> 0" for p
    using t(6,7) s(4) that by (cases "p = current s") (auto simp: same_sleep_def)
  with t show ?thesis by (auto simp: table_ok_def tab_ok_def)
qed

text \<open>What the heap promises: a new structure is none of those in the table.\<close>

definition fresh :: "kstate \<Rightarrow> addr list \<Rightarrow> bool" where
  "fresh s ps \<longleftrightarrow> (\<forall>m p. kmalloc sizeof_proc_struct (mem s) = Inr (m, p) \<longrightarrow> p \<notin> insert (idleproc s) (set ps))"

lemma table_ok_off:
  assumes "off_table p s t" and "p \<notin> insert (idleproc s) (set ps)" and "table_ok s ps"
  shows "table_ok t ps"
proof -
  have "ptab t ps" "init_ok t ps" using ptab_off [OF assms(1,2)] assms(3) by (auto simp: table_ok_def tab_ok_def)
  moreover have "idleproc t = idleproc s" "current t = current s" "\<And>x. x \<in> insert (idleproc s) (set ps) \<Longrightarrow> procs t x = procs s x"
    using assms(1,2) by (auto simp: off_table_def)
  ultimately show ?thesis using assms(3) by (auto simp: table_ok_def tab_ok_def)
qed

lemma table_ok_fork:
  assumes ok: "table_ok s ps" and fr: "fresh s ps" and run: "do_fork fl stack tf s = Inr (t, r)"
  shows "\<exists>ps'. table_ok t ps'"
proof (cases "nr_process s \<ge> MAX_PROCESS")
  case True
  then show ?thesis using ok run by (auto simp: do_fork_def)
next
  case room: False
  then obtain s1 p where al: "alloc_proc s = Inr (s1, p)" using run by (auto simp: do_fork_def bindR_eq_Inr)
  then obtain u where u: "on_mem (kmalloc sizeof_proc_struct) s = Inr (u, p)" and s1: "p = 0 \<Longrightarrow> s1 = u"
    by (fastforce simp: alloc_proc_def bindR_eq_Inr split: if_splits)
  have p: "p \<notin> insert (idleproc s) (set ps)" using u fr by (auto simp: on_mem_def bindR_eq_Inr fresh_def)
  show ?thesis
  proof (cases "p = 0")
    case True
    then have "t = s1" using run room al by (simp add: do_fork_def)
    then show ?thesis using table_ok_quiet [OF quiet_mem [OF on_mem_only [OF u]] ok] s1 True by blast
  next
    case p0: False
    define v where "v = upd_proc p (\<lambda>q. q\<lparr>p_parent := current s1\<rparr>) s1"
    have off: "off_table p s v" unfolding v_def
      using alloc_proc_new [OF al p0] off_table_upd by (blast intro: off_table_trans)
    obtain s2 k where ks: "setup_kstack p v = Inr (s2, k)"
      using run room al p0 by (auto simp: do_fork_def bindR_eq_Inr v_def)
    have off2: "off_table p s s2" using off setup_kstack_sets_up [OF ks] off_table_trans by (auto simp: sets_up_def)
    show ?thesis
    proof (cases "k = 0")
      case False
      then obtain s3 where "put_kstack p s2 = Inr s3" "on_mem0 (kfree p) s3 = Inr t"
        using run room al p0 ks by (auto simp: do_fork_def bindR_eq_Inr v_def)
      then have "sets_up p s2 t" using put_kstack_only on_mem0_only sets_up_mem mem_only_trans by blast
      then show ?thesis using table_ok_off [OF _ p ok] off2 off_table_trans unfolding sets_up_def by blast
    next
      case k0: True
      obtain s3 c where mm: "copy_mm fl p s2 = Inr (s3, c)"
        using run room al p0 ks k0 by (auto simp: do_fork_def bindR_eq_Inr v_def)
      show ?thesis
      proof (cases "c = 0")
        case False
        then have "on_mem0 (kfree p) s3 = Inr t"
          using run room al p0 ks k0 mm by (auto simp: do_fork_def bindR_eq_Inr v_def)
        then have "sets_up p s2 t" using copy_mm_sets_up [OF mm] on_mem0_only sets_up_mem sets_up_trans by blast
        then show ?thesis using table_ok_off [OF _ p ok] off2 off_table_trans unfolding sets_up_def by blast
      next
        case True
        have o: "ptab s ps" "init_ok s ps" "current s \<in> insert (idleproc s) (set ps)"
          "\<forall>p\<in>set ps. p_wait_state (procs s p) \<noteq> 0 \<longrightarrow> p_state (procs s p) = PROC_SLEEPING"
          "current s = idleproc s \<or> p_state (procs s (current s)) = PROC_RUNNABLE"
          using ok by (auto simp: table_ok_def tab_ok_def)
        then have "p_state (procs s (current s)) \<noteq> PROC_ZOMBIE" by (auto simp: init_ok_def)
        from do_fork_ok [OF o(1,3) this _ al p0 p ks [unfolded v_def k0] mm [unfolded True], of stack tf] room run o(2)
        have "ptab t (p # ps)" "init_ok t (p # ps)" "p_wait_state (procs t p) = 0" "current t = current s" "idleproc t = idleproc s"
          "\<forall>q. q \<noteq> p \<longrightarrow> p_state (procs t q) = p_state (procs s q) \<and> p_wait_state (procs t q) = p_wait_state (procs s q)"
          by auto
        then show ?thesis using o(3-5) p by (intro exI [of _ "p # ps"]) (auto simp: table_ok_def tab_ok_def)
      qed
    qed
  qed
qed

lemma reap_returns:
  assumes "reap p cs s = Inr t"
  obtains s1 pg m1 where "(if cs \<noteq> 0 then store_bytes cs (int_bytes (p_exit_code (procs s p))) s else Inr s) = Inr s1"
    "kva2page (mem s1) (p_kstack (procs s p)) = Inr pg" "free_pages pg KSTACKPAGE (mem s1) = Inr m1" "kfree p m1 = Inr (mem t)"
proof -
  obtain s1 where s1: "(if cs \<noteq> 0 then store_bytes cs (int_bytes (p_exit_code (procs s p))) s else Inr s) = Inr s1"
    using assms unfolding reap_def by (auto simp: bindR_eq_Inr split: if_splits)
  have m1: "mem_only s s1" using s1 store_bytes_only by (auto split: if_splits)
  obtain fl m where fl: "k_intr_save s1 = (fl, s1\<lparr>mem := m\<rparr>)"
    and ru: "\<forall>t. mem t = m \<longrightarrow> k_intr_restore fl t = t\<lparr>mem := mem s1\<rparr>" by (rule intr_sectionE [of s1])
  let ?v = "remove_links p (unhash_proc p (s1\<lparr>mem := m\<rparr>))"
  have v: "k_intr_restore fl ?v = ?v\<lparr>mem := mem s1\<rparr>" using ru by (simp add: unhash_proc_def)
  have k: "p_kstack (procs ?v p) = p_kstack (procs s p)" using mem_only_fields [OF m1] by (simp add: unhash_proc_def)
  obtain x where x: "put_kstack p (?v\<lparr>mem := mem s1\<rparr>) = Inr x" "on_mem0 (kfree p) x = Inr t"
    using assms s1 v unfolding reap_def by (auto simp: bindR_eq_Inr fl split: if_splits)
  then show thesis using that [OF s1] k by (auto simp: put_kstack_def on_mem0_def bindR_eq_Inr)
qed

lemma table_ok_wait:
  assumes ok: "table_ok s ps" and run: "wait_repeat pid cs s = Inr (t, c)"
  shows "\<exists>ps'. table_ok t ps'"
proof -
  have s: "ptab s ps" "init_ok s ps" "current s \<in> insert (idleproc s) (set ps)" using ok by (auto simp: table_ok_def tab_ok_def)
  obtain p where fz: "find_zombie pid s = Inr (waits_for (procs s) (set ps) (current s) pid \<noteq> {}, p)"
    and p: "p \<noteq> 0 \<Longrightarrow> p \<in> waits_for (procs s) (set ps) (current s) pid \<and> p_state (procs s p) = PROC_ZOMBIE"
    using find_zombie_ok [OF s(1,3), of pid] by (auto split: if_splits)
  show ?thesis
  proof (cases "p = 0")
    case False
    then have pz: "p \<in> set ps" "p_state (procs s p) = PROC_ZOMBIE" using p by (auto simp: waits_for_def children_def)
    have "reap p cs s = Inr t" using run fz False by (auto simp: wait_repeat_def bindR_eq_Inr)
    obtain s1 pg m1 where r: "(if cs \<noteq> 0 then store_bytes cs (int_bytes (p_exit_code (procs s p))) s else Inr s) = Inr s1"
      "kva2page (mem s1) (p_kstack (procs s p)) = Inr pg" "free_pages pg KSTACKPAGE (mem s1) = Inr m1" "kfree p m1 = Inr (mem t)"
      by (rule reap_returns [OF \<open>reap p cs s = Inr t\<close>])
    have t: "ptab t (remove1 p ps)" "init_ok t (remove1 p ps)" "current t = current s" "idleproc t = idleproc s"
      "\<forall>x. p_state (procs t x) = p_state (procs s x) \<and> p_wait_state (procs t x) = p_wait_state (procs s x)"
      using reap_ok [OF s(1,2) pz r] \<open>reap p cs s = Inr t\<close> by auto
    have "p \<noteq> current s" using ok pz ptabD(4) [OF s(1)] by (auto simp: table_ok_def)
    then have "current s \<in> insert (idleproc s) (set (remove1 p ps))" using s(3) by auto
    moreover have "set (remove1 p ps) \<subseteq> set ps" by (rule set_remove1_subset)
    ultimately show ?thesis using ok t by (intro exI [of _ "remove1 p ps"]) (auto simp: table_ok_def tab_ok_def)
  next
    case p0: True
    show ?thesis
    proof (cases "waits_for (procs s) (set ps) (current s) pid = {}")
      case True
      then have "t = s" using run fz p0 by (simp add: wait_repeat_def)
      then show ?thesis using ok by blast
    next
      case False
      define u where "u = upd_proc (current s) (\<lambda>p. p\<lparr>p_state := PROC_SLEEPING, p_wait_state := WT_CHILD\<rparr>) s"
      have "tab_ok u ps" unfolding u_def using ok tab_ok_sleep by (simp add: table_ok_def)
      then have "tab_ok (u\<lparr>kont := kk\<rparr>) ps" for kk by (rule tab_ok_quiet [rotated]) simp
      from tab_ok_schedule [OF this] run fz p0 False show ?thesis
        by (auto simp: wait_repeat_def u_def [symmetric] bindR_eq_Inr) (metis sum.inject(2))
    qed
  qed
qed

lemma table_ok_kill:
  assumes ok: "table_ok s ps"
  shows "\<exists>t r. do_kill pid s = Inr (t, r) \<and> table_ok t ps"
proof -
  have s: "ptab s ps" "init_ok s ps" "\<forall>p\<in>set ps. p_wait_state (procs s p) \<noteq> 0 \<longrightarrow> p_state (procs s p) = PROC_SLEEPING"
    using ok by (auto simp: table_ok_def tab_ok_def)
  have "\<forall>p\<in>set ps. 1 \<le> p_pid (procs s p) \<and> p_pid (procs s p) < MAX_PID" using ptabD(1) [OF s(1)] by (simp add: pid_inv_def)
  from find_proc_ok [OF ptabD(2) [OF s(1)] this, of pid] obtain p
    where f: "find_proc pid s = Inr p" "proc_of_pid (procs s) (set ps) pid p" by blast
  show ?thesis
  proof (cases "p = 0 \<or> p_flags (procs s p) AND PF_EXITING \<noteq> 0")
    case True
    then show ?thesis using f(1) ok by (auto simp: do_kill_def)
  next
    case False
    then have p: "p \<in> set ps" "p_pid (procs s p) = pid" using f(2) by (auto simp: proc_of_pid_def split: if_splits)
    have "p_wait_state (procs s p) AND WT_INTERRUPTED \<noteq> 0 \<longrightarrow> p_state (procs s p) \<noteq> PROC_ZOMBIE" using s(3) p(1) by force
    with do_kill_ok [OF s(1,2) p] False obtain t where t: "do_kill pid s = Inr (t, 0)" "ptab t ps" "init_ok t ps"
      "same_sleep (procs s p) (procs t p)" "\<forall>q. q \<noteq> p \<longrightarrow> procs t q = procs s q" "current t = current s" "idleproc t = idleproc s"
      by blast
    have "same_sleep (procs s x) (procs t x)" for x using t(4,5) by (cases "x = p") (auto simp: same_sleep_def)
    then have "table_ok t ps" using ok t(2,3,6,7) unfolding table_ok_def tab_ok_def same_sleep_def by (auto simp: t(7)) metis+
    with t(1) show ?thesis by blast
  qed
qed

section \<open>Quiet operations\<close>

lemma leave_mm_quiet: "leave_mm s = Inr t \<Longrightarrow> quiet s t"
proof -
  assume "leave_mm s = Inr t"
  then obtain m where "t = upd_proc (current s) (\<lambda>p. p\<lparr>p_mm := 0\<rparr>) (s\<lparr>mem := m\<rparr>)" using leave_mm_eq by blast
  moreover have "quiet (s\<lparr>mem := m\<rparr>) (upd_proc (current s) (\<lambda>p. p\<lparr>p_mm := 0\<rparr>) (s\<lparr>mem := m\<rparr>))" by (rule quiet_upd) simp
  ultimately show ?thesis using quiet_mem [OF mem_onlyI] quiet_trans by blast
qed

text \<open>Rules that follow the text of an operation: every result it can return is a quiet step from \<open>s\<close>.\<close>

definition quietR :: "kstate \<Rightarrow> (kstate \<times> 'a) res \<Rightarrow> bool" where
  "quietR s r \<longleftrightarrow> (\<forall>t x. r = Inr (t, x) \<longrightarrow> quiet s t)"

definition quiet0 :: "kstate \<Rightarrow> kstate res \<Rightarrow> bool" where
  "quiet0 s r \<longleftrightarrow> (\<forall>t. r = Inr t \<longrightarrow> quiet s t)"

lemma quietR_ret: "quiet s t \<Longrightarrow> quietR s (Inr (t, x))"
  by (simp add: quietR_def)

lemma quietR_err: "quietR s (Inl e)"
  by (simp add: quietR_def)

lemma quietR_if: "(b \<Longrightarrow> quietR s x) \<Longrightarrow> (\<not> b \<Longrightarrow> quietR s y) \<Longrightarrow> quietR s (if b then x else y)"
  by simp

lemma quietR_pair: "quietR s m \<Longrightarrow> (\<And>u x. quiet s u \<Longrightarrow> quietR s (f u x)) \<Longrightarrow> quietR s (bindR m (\<lambda>(u, x). f u x))"
  unfolding quietR_def bindR_eq_Inr by fastforce

lemma quietR_state: "quiet0 s m \<Longrightarrow> (\<And>u. quiet s u \<Longrightarrow> quietR s (f u)) \<Longrightarrow> quietR s (bindR m f)"
  by (auto simp: quietR_def quiet0_def bindR_eq_Inr)

lemma quietR_value: "(\<And>x. quietR s (f x)) \<Longrightarrow> quietR s (bindR m f)"
  by (auto simp: quietR_def bindR_eq_Inr)

lemma quietR_mem:
  "quiet s u \<Longrightarrow> quietR s (on_mem f u)" "quiet s u \<Longrightarrow> quiet0 s (on_mem0 g u)" "quiet s u \<Longrightarrow> quietR s (setup_pgdir mm u)"
  "quiet s u \<Longrightarrow> quietR s (drop_pgdir_mm mm k u)" "quiet s u \<Longrightarrow> quietR s (drop_mmap_mm mm k u)"
  by (auto simp: quietR_def quiet0_def intro: quiet_trans quiet_mem on_mem_only on_mem0_only setup_pgdir_only
      drop_pgdir_only drop_mmap_only)

lemmas quiet_rules = quietR_ret quietR_err quietR_if quietR_mem quietR_pair quietR_state

lemma load_icode_quiet:
  assumes "load_icode vm bin sz s = Inr (t, r)"
  shows "quiet s t"
proof -
  have fin: "quiet s (upd_tf a f (lcr3 cr (upd_proc p (\<lambda>p. p\<lparr>p_cr3 := cr\<rparr>) (upd_proc q (\<lambda>p. p\<lparr>p_mm := mm\<rparr>) (u\<lparr>mem := m\<rparr>)))))"
    if "quiet s u" for u a f cr p q mm m
    by (rule quiet_trans [OF that]) (simp add: quiet_def table_eq_def upd_tf_def lcr3_def)
  have "quietR s (load_icode vm bin sz s)"
    unfolding load_icode_def Let_def by (intro quiet_rules quietR_value fin quiet_refl; assumption)
  with assms show ?thesis by (simp add: quietR_def)
qed

lemma set_proc_name_quiet: "quiet s (set_proc_name p n s)"
  unfolding set_proc_name_def by (rule quiet_upd) simp

lemma do_yield_quiet: "do_yield s = (t, r) \<Longrightarrow> quiet s t"
  unfolding do_yield_def by (auto intro!: quiet_upd)

lemma kputs_quiet [simp]: "quiet s (kputs str s)"
  by (simp add: kputs_def)

lemma cputchar_quiet [simp]: "quiet s (cputchar c s)"
  by (simp add: cputchar_def)

lemma kprintf_quiet: "kprintf fmt args s = Inr t \<Longrightarrow> quiet s t"
  by (auto simp: kprintf_def bindR_eq_Inr)

lemma fold_print_quiet:
  "foldl (\<lambda>r (l, x). bindR r (kprintf (f l) (g x))) (Inr s) xs = Inr t \<Longrightarrow> quiet s t"
proof (induction xs arbitrary: s)
  case (Cons a xs)
  obtain l x where a: "a = (l, x)" by fastforce
  show ?case
  proof (cases "kprintf (f l) (g x) s")
    case (Inl e)
    have "foldl (\<lambda>r (l, x). bindR r (kprintf (f l) (g x))) (Inl e) xs = Inl e" by (induction xs) auto
    with Cons.prems Inl show ?thesis by (simp add: a)
  next
    case (Inr u)
    with Cons.prems have "quiet u t" by (intro Cons.IH) (simp add: a)
    with kprintf_quiet [OF Inr] show ?thesis by (rule quiet_trans)
  qed
qed simp

lemma print_regs_quiet: "print_regs g s = Inr t \<Longrightarrow> quiet s t"
  unfolding print_regs_def by (rule fold_print_quiet [where f = "\<lambda>l. ''  '' @ l @ '' 0x%08x'' @ nl" and g = "\<lambda>x. [VNum (g x)]"])

lemma print_trapframe_quiet: "print_trapframe a s = Inr t \<Longrightarrow> quiet s t"
  by (auto simp: print_trapframe_def Let_def bindR_eq_Inr dest!: kprintf_quiet print_regs_quiet)
    (meson quiet_trans)

lemma print_pgfault_quiet: "print_pgfault a s = Inr t \<Longrightarrow> quiet s t"
  by (auto simp: print_pgfault_def Let_def dest: kprintf_quiet)

lemma handle_fault_quiet: "handle_fault msg a s = Inr (t, e) \<Longrightarrow> quiet s t"
  by (auto simp: handle_fault_def Let_def bindR_eq_Inr split: if_splits
      dest!: print_pgfault_quiet print_trapframe_quiet pgfault_handler_only [THEN quiet_mem])
    (meson quiet_trans kputs_quiet)+

lemma interrupt_handler_quiet:
  assumes "interrupt_handler a s = Inr t"
  shows "quiet s t"
proof -
  have "quiet s (upd_proc p (\<lambda>p. p\<lparr>p_need_resched := True\<rparr>) (s\<lparr>ticks := k\<rparr>))" for p k
    by (rule quiet_trans [OF _ quiet_upd]) simp_all
  then show ?thesis using assms
    by (auto simp: interrupt_handler_def Let_def split: if_splits option.splits dest: print_trapframe_quiet)
qed

lemma frame_quiet [simp]: "quiet s (push_frame f s)" "quiet s (pop_frame s)" "quiet s (skip_insn a s)"
  "quiet s (kernel_execve_ret a k s)"
  by (simp_all add: push_frame_def pop_frame_def skip_insn_def kernel_execve_ret_def upd_tf_def quiet_def table_eq_def Let_def)

section \<open>System calls\<close>

lemma table_ok_execve:
  assumes ok: "table_ok s ps" and run: "do_execve vm name len bin sz s = Inr (t, c)"
  shows "table_ok t ps"
proof -
  obtain u b where u: "on_mem (user_mem_check (p_mm (procs s (current s))) name len False) s = Inr (u, b)"
    using run by (auto simp: do_execve_def bindR_eq_Inr)
  have ou: "table_ok u ps" by (rule table_ok_quiet [OF quiet_mem [OF on_mem_only [OF u]] ok])
  show ?thesis
  proof (cases b)
    case False
    then show ?thesis using run u ou by (simp add: do_execve_def)
  next
    case True
    then obtain v w r where v: "leave_mm u = Inr v" "load_icode vm bin sz v = Inr (w, r)"
      using run u by (auto simp: do_execve_def Let_def bindR_eq_Inr)
    have ow: "table_ok w ps"
      by (rule table_ok_quiet [OF quiet_trans [OF leave_mm_quiet [OF v(1)] load_icode_quiet [OF v(2)]] ou])
    show ?thesis
    proof (cases "r = 0")
      case False
      then have "do_exit r w = Inr (t, c)" using run u True v by (simp add: do_execve_def Let_def)
      then show ?thesis using table_ok_exit [OF ow] by blast
    next
      case 0: True
      then have "\<exists>n. t = set_proc_name (current w) n w" using run u True v by (auto simp: do_execve_def Let_def)
      then show ?thesis using table_ok_quiet [OF set_proc_name_quiet ow] by blast
    qed
  qed
qed

lemma table_ok_do_wait:
  assumes ok: "table_ok s ps" and run: "do_wait pid cs s = Inr (t, c)"
  shows "\<exists>ps'. table_ok t ps'"
proof -
  obtain u b where u: "(if cs \<noteq> 0 then on_mem (user_mem_check (p_mm (procs s (current s))) cs 4 True) s else Inr (s, True)) = Inr (u, b)"
    and r: "(if \<not> b then Inr (u, Ret (- E_INVAL)) else wait_repeat pid cs u) = Inr (t, c)"
    using run by (auto simp: do_wait_def bindR_eq_Inr)
  have "mem_only s u" using u by (auto split: if_splits dest: on_mem_only)
  then have ou: "table_ok u ps" using table_ok_quiet [OF quiet_mem ok] by blast
  then show ?thesis using r table_ok_wait [OF ou] by (cases b) auto
qed

lemma syscalls_cases:
  assumes "syscalls vm num = Some f"
  shows "f \<in> {sys_exit, sys_fork, sys_wait, sys_exec vm, sys_yield, sys_kill, sys_getpid, sys_putc, sys_pgdir}"
  using assms by (auto simp: syscalls_def split: if_splits)

lemma table_ok_handler:
  assumes ok: "table_ok s ps" and fr: "fresh s ps" and f: "syscalls vm num = Some f" and run: "f arg s = Inr (t, c)"
  shows "\<exists>ps'. table_ok t ps'"
proof -
  consider "f = sys_exit" | "f = sys_fork" | "f = sys_wait" | "f = sys_exec vm" | "f = sys_yield" | "f = sys_kill"
    | "f \<in> {sys_getpid, sys_putc, sys_pgdir}" using syscalls_cases [OF f] by blast
  then show ?thesis
  proof cases
    case 1
    then show ?thesis using run table_ok_exit [OF ok] by (auto simp: sys_exit_def)
  next
    case 2
    then show ?thesis using run table_ok_fork [OF ok fr] by (auto simp: sys_fork_def Let_def bindR_eq_Inr)
  next
    case 3
    then show ?thesis using run table_ok_do_wait [OF ok] by (auto simp: sys_wait_def)
  next
    case 4
    then show ?thesis using run table_ok_execve [OF ok] unfolding sys_exec_def by blast
  next
    case 5
    obtain u r where "do_yield s = (u, r)" by fastforce
    then show ?thesis using 5 run table_ok_quiet [OF do_yield_quiet ok] by (auto simp: sys_yield_def)
  next
    case 6
    obtain u r where "do_kill (to_int (arg 0)) s = Inr (u, r)" "table_ok u ps" using table_ok_kill [OF ok] by blast
    then show ?thesis using 6 run by (auto simp: sys_kill_def)
  next
    case 7
    then have "quiet s t" using run by (auto simp: sys_getpid_def sys_putc_def sys_pgdir_def)
    then show ?thesis using table_ok_quiet [OF _ ok] by blast
  qed
qed

lemma table_ok_syscall:
  assumes ok: "table_ok s ps" and fr: "fresh s ps" and run: "syscall vm s = Inr (t, c)"
  shows "\<exists>ps'. table_ok t ps'"
proof -
  let ?num = "to_int (gpr (tfs s (p_tf (procs s (current s)))) R_a0)"
  let ?sel = "if 0 \<le> ?num \<and> ?num < NUM_SYSCALLS then syscalls vm ?num else None"
  obtain f where sel: "?sel = Some f"
    using run unfolding syscall_def Let_def by (cases ?sel) (auto simp: bindR_eq_Inr)
  then obtain u r where u: "f (sys_args (tfs s (p_tf (procs s (current s))))) s = Inr (u, r)"
    using run unfolding syscall_def Let_def by (auto simp: bindR_eq_Inr)
  then have t: "quiet u t" using run sel unfolding syscall_def Let_def by (cases r) auto
  have "syscalls vm ?num = Some f" using sel by (auto split: if_splits)
  from table_ok_handler [OF ok fr this u] show ?thesis using table_ok_quiet [OF t] by blast
qed

section \<open>Traps\<close>

lemma fresh_quiet: "quiet s t \<Longrightarrow> mem t = mem s \<Longrightarrow> fresh s ps \<Longrightarrow> fresh t ps"
  by (simp add: fresh_def quiet_def table_eq_def)

lemma frame_mem [simp]: "mem (push_frame f s) = mem s" "mem (pop_frame s) = mem s" "mem (skip_insn a s) = mem s"
  "mem (kputs str s) = mem s"
  by (simp_all add: push_frame_def pop_frame_def skip_insn_def upd_tf_def kputs_def)

lemma table_ok_syscall_from:
  assumes "table_ok s ps" and "fresh s ps" and "quiet s u" and "mem u = mem s" and "syscall vm u = Inr (t, c)"
  shows "\<exists>ps'. table_ok t ps'"
  by (rule table_ok_syscall [OF table_ok_quiet [OF assms(3,1)] fresh_quiet [OF assms(3,4,2)] assms(5)])

text \<open>A handler makes at most one system call, with nothing but quiet steps before and after.\<close>

definition one_call :: "bmem \<Rightarrow> kstate \<Rightarrow> (kstate \<times> trap_end) res \<Rightarrow> bool" where
  "one_call vm s r \<longleftrightarrow> (\<forall>t e. r = Inr (t, e) \<longrightarrow> quiet s t \<or>
     (\<exists>u v c. quiet s u \<and> mem u = mem s \<and> syscall vm u = Inr (v, c) \<and> quiet v t))"

lemma one_call_if: "(b \<Longrightarrow> one_call vm s x) \<Longrightarrow> (\<not> b \<Longrightarrow> one_call vm s y) \<Longrightarrow> one_call vm s (if b then x else y)"
  by simp

lemma one_call_quiet:
  "quiet s t \<Longrightarrow> one_call vm s (Inr (t, e))" "one_call vm s (Inl err)" "one_call vm s (handle_fault msg a s)"
  "one_call vm s (bindR (print_trapframe a s) (\<lambda>s. Inr (s, T_return)))"
  by (auto simp: one_call_def bindR_eq_Inr dest: handle_fault_quiet print_trapframe_quiet)

lemma one_call_sys:
  assumes "quiet s u" and "mem u = mem s" and "\<And>v c t e. f (v, c) = Inr (t, e) \<Longrightarrow> quiet v t"
  shows "one_call vm s (bindR (syscall vm u) f)"
  using assms by (fastforce simp: one_call_def bindR_eq_Inr)

lemma exception_handler_one_call: "one_call vm s (exception_handler vm a s)"
  unfolding exception_handler_def Let_def
  by (intro one_call_if one_call_quiet one_call_sys kputs_quiet frame_quiet quiet_trans [OF kputs_quiet frame_quiet(3)])
    (auto split: ctl.splits)

lemma table_ok_dispatch:
  assumes ok: "table_ok s ps" and fr: "fresh s ps" and run: "trap_dispatch vm a s = Inr (t, e)"
  shows "\<exists>ps'. table_ok t ps'"
proof (cases "sint (tf_cause (tfs s a)) < 0")
  case True
  then have "quiet s t" using run interrupt_handler_quiet by (auto simp: trap_dispatch_def bindR_eq_Inr)
  then show ?thesis using table_ok_quiet ok by blast
next
  case False
  then have "exception_handler vm a s = Inr (t, e)" using run by (simp add: trap_dispatch_def)
  with exception_handler_one_call [of vm s a]
  consider "quiet s t" | u v c where "quiet s u" "mem u = mem s" "syscall vm u = Inr (v, c)" "quiet v t"
    unfolding one_call_def by blast
  then show ?thesis
  proof cases
    case 1
    then show ?thesis using table_ok_quiet ok by blast
  next
    case 2
    then show ?thesis using table_ok_syscall_from [OF ok fr 2(1-3)] table_ok_quiet by blast
  qed
qed

lemma table_ok_finish:
  assumes ok: "table_ok s ps" and run: "trap_finish otf k s = Inr (t, e)"
  shows "table_ok t ps"
proof -
  define u where "u = upd_proc (current s) (\<lambda>p. p\<lparr>p_tf := otf\<rparr>) s"
  have ou: "table_ok u ps" unfolding u_def by (rule table_ok_quiet [OF quiet_upd ok]) simp
  have "current u = current s" by (simp add: u_def)
  then consider "t = u" | c where "do_exit (- E_KILLED) u = Inr (t, c)" | "schedule u = Inr t"
    using run unfolding trap_finish_def Let_def u_def [symmetric]
    by (auto simp: bindR_eq_Inr split: if_splits)
  then show ?thesis
  proof cases
    case 2
    then show ?thesis using table_ok_exit [OF ou] by blast
  next
    case 3
    then show ?thesis using tab_ok_schedule [of u ps] ou by (auto simp: table_ok_def)
  qed (use ou in simp)
qed

lemma table_ok_trap:
  assumes ok: "table_ok s ps" and fr: "fresh s ps" and run: "trap vm a s = Inr (t, e)"
  shows "\<exists>ps'. table_ok t ps'"
proof (cases "current s = 0")
  case True
  then show ?thesis using run table_ok_dispatch [OF ok fr] by (simp add: trap_def)
next
  case False
  define otf where "otf = p_tf (procs s (current s))"
  define u where "u = push_frame (F_trap otf (trap_in_kernel (tfs s a))) (upd_proc (current s) (\<lambda>p. p\<lparr>p_tf := a\<rparr>) s)"
  have q: "quiet s u" unfolding u_def by (rule quiet_trans [OF quiet_upd frame_quiet(1)]) simp
  have "mem u = mem s" by (simp add: u_def)
  obtain v d where v: "trap_dispatch vm a u = Inr (v, d)"
    using run False by (auto simp: trap_def Let_def otf_def u_def bindR_eq_Inr)
  have t: "d = T_return \<Longrightarrow> trap_finish otf (trap_in_kernel (tfs s a)) (pop_frame v) = Inr (t, e)" "d \<noteq> T_return \<Longrightarrow> t = v"
    using run False v by (auto simp: trap_def Let_def otf_def u_def)
  obtain ps' where ov: "table_ok v ps'"
    using table_ok_dispatch [OF table_ok_quiet [OF q ok] fresh_quiet [OF q \<open>mem u = mem s\<close> fr] v] by blast
  show ?thesis
  proof (cases "d = T_return")
    case True
    then show ?thesis using table_ok_finish [OF table_ok_quiet [OF frame_quiet(2) ov] t(1)] by blast
  next
    case False
    then show ?thesis using t(2) ov by blast
  qed
qed

lemma table_ok_resume:
  assumes ok: "table_ok s ps" and run: "resume s = Inr (t, e)"
  shows "\<exists>ps'. table_ok t ps'"
proof -
  have op: "table_ok (pop_frame s) ps" by (rule table_ok_quiet [OF frame_quiet(2) ok])
  show ?thesis
  proof (cases "kont s (current s)")
    case Nil
    then show ?thesis using run ok by (auto simp: resume_def)
  next
    case (Cons fr frs)
    show ?thesis
    proof (cases fr)
      case (F_trap otf k)
      then have "trap_finish otf k (pop_frame s) = Inr (t, e)" using run Cons by (simp add: resume_def)
      then show ?thesis using table_ok_finish [OF op] by blast
    next
      case (F_wait pid cs)
      then obtain v c where v: "wait_resume pid cs (pop_frame s) = Inr (v, c)"
        using run Cons by (auto simp: resume_def bindR_eq_Inr)
      have q: "quiet v t" using run Cons F_wait v by (cases c) (auto simp: resume_def)
      have "\<exists>ps'. table_ok v ps'"
        using v table_ok_exit [OF op] table_ok_wait [OF op] unfolding wait_resume_def by (auto split: if_splits)
      then show ?thesis using table_ok_quiet [OF q] by blast
    qed
  qed
qed

section \<open>Runs of the kernel\<close>

text \<open>
  A run: user code changes memory and saved registers, a trap enters the kernel, a process that has been
  switched to goes on, or the idle process takes a turn.
\<close>

inductive kstep :: "bmem \<Rightarrow> kstate \<Rightarrow> kstate \<Rightarrow> bool" for vm where
  user: "kstep vm s (s\<lparr>mem := m, tfs := f\<rparr>)"
| trap: "trap vm a s = Inr (t, e) \<Longrightarrow> (\<And>ps. plist (plinks s) ps \<Longrightarrow> fresh s ps) \<Longrightarrow> kstep vm s t"
| resume: "resume s = Inr (t, e) \<Longrightarrow> kstep vm s t"
| idle: "cpu_idle_turn s = Inr t \<Longrightarrow> kstep vm s t"

inductive kruns :: "bmem \<Rightarrow> kstate \<Rightarrow> kstate \<Rightarrow> bool" for vm where
  refl: "kruns vm s s"
| step: "kruns vm s t \<Longrightarrow> kstep vm t u \<Longrightarrow> kruns vm s u"

lemma user_quiet: "quiet s (s\<lparr>mem := m, tfs := f\<rparr>)"
  by (simp add: quiet_def table_eq_def)

lemma table_ok_kstep: "kstep vm s t \<Longrightarrow> table_ok s ps \<Longrightarrow> \<exists>ps'. table_ok t ps'"
proof (induction rule: kstep.induct)
  case user
  then show ?case using table_ok_quiet [OF user_quiet] by blast
next
  case (trap a s t e)
  have "plist (plinks s) ps" using trap(3) ptabD(1) by (auto simp: table_ok_def tab_ok_def pid_inv_def)
  then show ?case using table_ok_trap trap by blast
next
  case (resume s t e)
  then show ?case using table_ok_resume by blast
next
  case (idle s t)
  then show ?case using tab_ok_schedule [of s ps] by (auto simp: cpu_idle_turn_def table_ok_def split: if_splits)
qed

lemma table_ok_kruns: "kruns vm s t \<Longrightarrow> table_ok s ps \<Longrightarrow> \<exists>ps'. table_ok t ps'"
proof (induction rule: kruns.induct)
  case (step s t u)
  then show ?case using table_ok_kstep by blast
qed blast

end
