(* ===== verification/Proc_Boot.thy ===== *)
theory Proc_Boot
  imports Proc_Machine
begin

text \<open>\<open>proc_init\<close> builds the first table: the idle process outside the list, and \<open>initproc\<close> as its child.\<close>

lemma init_hash_lists:
  "i \<in> set is \<Longrightarrow> dll (foldl (\<lambda>L i. list_init L (HashList i)) L is) (HashList i) []"
proof (induction "is" rule: rev_induct)
  case (snoc j js)
  show ?case
  proof (cases "i = j")
    case True
    then show ?thesis by (simp add: dll_init)
  next
    case False
    then show ?thesis using snoc by (auto intro: list_init_frame)
  qed
qed simp

lemma hashed_empty: "hashed (foldl (\<lambda>L i. list_init L (HashList i)) L [0..<HASH_LIST_SIZE]) P {}"
  unfolding hashed_def using init_hash_lists [of _ "[0..<HASH_LIST_SIZE]" L]
  by (intro allI impI exI [of _ "[]"]) (simp add: hash_set_def)

lemma do_fork_success:
  assumes "do_fork fl stack tf s = Inr (t, pid)" and "0 < pid"
  obtains s1 p s2 s3 where "nr_process s < MAX_PROCESS" "alloc_proc s = Inr (s1, p)" "p \<noteq> 0"
    "setup_kstack p (upd_proc p (\<lambda>q. q\<lparr>p_parent := current s1\<rparr>) s1) = Inr (s2, 0)" "copy_mm fl p s2 = Inr (s3, 0)"
proof -
  have r: "nr_process s < MAX_PROCESS" using assms by (auto simp: do_fork_def E_NO_FREE_PROC_def split: if_splits)
  then obtain s1 p where al: "alloc_proc s = Inr (s1, p)" using assms by (auto simp: do_fork_def bindR_eq_Inr)
  have p: "p \<noteq> 0" using assms r al by (cases "p = 0") (auto simp: do_fork_def E_NO_MEM_def)
  obtain s2 k where ks: "setup_kstack p (upd_proc p (\<lambda>q. q\<lparr>p_parent := current s1\<rparr>) s1) = Inr (s2, k)"
    using assms r al p by (auto simp: do_fork_def bindR_eq_Inr)
  have "k = 0" using assms r al p ks by (cases "k = 0") (auto simp: do_fork_def bindR_eq_Inr E_NO_MEM_def)
  then obtain s3 c where mm: "copy_mm fl p s2 = Inr (s3, c)" using assms r al p ks by (auto simp: do_fork_def bindR_eq_Inr)
  have "c = 0" using assms r al p ks \<open>k = 0\<close> mm by (cases "c = 0") (auto simp: do_fork_def bindR_eq_Inr E_NO_MEM_def)
  show thesis by (rule that [OF r al p]) (use ks mm \<open>k = 0\<close> \<open>c = 0\<close> in simp_all)
qed

lemma alloc_proc_mem: "alloc_proc s = Inr (t, p) \<Longrightarrow> kmalloc sizeof_proc_struct (mem s) = Inr (mem t, p)"
  by (auto simp: alloc_proc_def on_mem_def bindR_eq_Inr split: if_splits)

lemma idle_table:
  assumes "hashed (hlinks s) (procs s) {}" and "plist (plinks s) []" and "idleproc s \<noteq> 0" and "nr_process s = 1"
    and "p_cptr (procs s (idleproc s)) = 0" and "last_pid s = MAX_PID" and "next_safe s = MAX_PID"
  shows "ptab s []"
  using assms by (simp add: ptab_def pid_inv_def pid_gap_def family_def kids_def children_def MAX_PID_def MAX_PROCESS_def)

lemma proc_init_ok:
  assumes run: "proc_init f s = Inr t" and st: "nr_process s = 0" "last_pid s = MAX_PID" "next_safe s = MAX_PID"
    and heap: "\<And>m a m' b. kmalloc sizeof_proc_struct (mem s) = Inr (m, a) \<Longrightarrow> a \<noteq> 0 \<Longrightarrow>
       kmalloc sizeof_proc_struct m = Inr (m', b) \<Longrightarrow> b \<noteq> a"
  shows "table_ok t [initproc t] \<and> current t = idleproc t \<and> p_pid (procs t (initproc t)) = 1 \<and>
    p_state (procs t (initproc t)) = PROC_RUNNABLE"
proof -
  define s1 where "s1 = s\<lparr>plinks := list_init (plinks s) ProcList,
     hlinks := foldl (\<lambda>L i. list_init L (HashList i)) (hlinks s) [0..<HASH_LIST_SIZE]\<rparr>"
  obtain s2 idle where al: "alloc_proc s1 = Inr (s2, idle)" and i0: "idle \<noteq> 0"
    using run by (auto simp: proc_init_def s1_def bindR_eq_Inr split: if_splits)
  define s3 where "s3 = set_proc_name idle (name_bytes ''idle'') (upd_proc idle (\<lambda>p. p\<lparr>p_pid := 0, p_state := PROC_RUNNABLE,
     p_kstack := bootstack s2, p_need_resched := True\<rparr>) (s2\<lparr>idleproc := idle\<rparr>))"
  define s4 where "s4 = s3\<lparr>nr_process := nr_process s3 + 1, current := idle\<rparr>"
  obtain s5 pid where kt: "kernel_thread f 0 0 s4 = Inr (s5, pid)" and pid: "0 < pid"
    using run al i0 by (auto simp: proc_init_def s1_def s3_def s4_def Let_def bindR_eq_Inr split: if_splits)
  note A = alloc_proc_new [OF al i0]
  have f4: "idleproc s4 = idle" "current s4 = idle" "nr_process s4 = 1" "last_pid s4 = MAX_PID" "next_safe s4 = MAX_PID"
    "plinks s4 = list_init (plinks s) ProcList"
    "hlinks s4 = foldl (\<lambda>L i. list_init L (HashList i)) (hlinks s) [0..<HASH_LIST_SIZE]"
    "mem s4 = mem s2" "p_state (procs s4 idle) = PROC_RUNNABLE" "p_cptr (procs s4 idle) = 0"
    using A st by (simp_all add: s4_def s3_def set_proc_name_def off_table_def s1_def)
  have "hashed (hlinks s4) (procs s4) {}" unfolding f4(7) by (rule hashed_empty)
  moreover have "plist (plinks s4) []" by (simp add: f4 plist_def dll_init)
  ultimately have pt: "ptab s4 []" by (rule idle_table) (simp_all add: f4 i0)
  obtain fl tf where df: "do_fork fl 0 tf s4 = Inr (s5, pid)" using kt unfolding kernel_thread_def Let_def by blast
  obtain u p v w where ok: "nr_process s4 < MAX_PROCESS" "alloc_proc s4 = Inr (u, p)" "p \<noteq> 0"
    "setup_kstack p (upd_proc p (\<lambda>q. q\<lparr>p_parent := current u\<rparr>) u) = Inr (v, 0)" "copy_mm fl p v = Inr (w, 0)"
    by (rule do_fork_success [OF df pid])
  have "p \<noteq> idle"
    using heap [OF _ i0] alloc_proc_mem [OF al] alloc_proc_mem [OF ok(2)] by (simp add: f4 s1_def)
  then obtain pid' where s5: "ptab s5 [p]" "p_pid (procs s5 p) = pid" "p_state (procs s5 p) = PROC_RUNNABLE"
    "p_wait_state (procs s5 p) = 0" "p_parent (procs s5 p) = idle" "p_state (procs s5 idle) = PROC_RUNNABLE"
    "current s5 = idle" "idleproc s5 = idle"
    using do_fork_ok [OF pt _ _ ok(1-3) _ ok(4,5), of 0 tf] df by (auto simp: f4)
  have pids: "\<forall>p\<in>set [p]. 1 \<le> p_pid (procs s5 p) \<and> p_pid (procs s5 p) < MAX_PID" using ptabD(1) [OF s5(1)] by (simp add: pid_inv_def)
  have "find_proc pid s5 = Inr p"
    using find_proc_ok [OF ptabD(2) [OF s5(1)] pids, of pid] s5(2) by (auto simp: proc_of_pid_def)
  then have t: "t = set_proc_name p (name_bytes ''init'') (s5\<lparr>initproc := p\<rparr>)" and p1: "p_pid (procs t p) = 1"
    using run al i0 kt pid by (auto simp: proc_init_def s1_def s3_def s4_def Let_def bindR_eq_Inr assertR_eq_Inr split: if_splits)
  have te: "table_eq s5 t" and tf: "initproc t = p" "idleproc t = idle" "current t = idle"
    "\<And>x. p_state (procs t x) = p_state (procs s5 x) \<and> p_wait_state (procs t x) = p_wait_state (procs s5 x) \<and> p_parent (procs t x) = p_parent (procs s5 x)"
    using s5(7,8) by (simp_all add: t table_eq_def set_proc_name_def)
  have "ptab t [p]" by (rule ptab_table_eq [OF te s5(1)]) (simp add: tf)
  then show ?thesis using s5 p1 \<open>p \<noteq> idle\<close> by (simp add: table_ok_def tab_ok_def init_ok_def tf)
qed

text \<open>The first pid is 1: the counter starts at its upper end and wraps.\<close>

lemma get_pid_first:
  assumes "plist (plinks s) []" and "last_pid s = MAX_PID"
  shows "get_pid s = Inr (s\<lparr>last_pid := 1, next_safe := MAX_PID\<rparr>, 1)"
proof -
  have "list_next (plinks s) ProcList = ProcList" using assms(1) lh.first_empty by (simp add: plist_def)
  then have "pid_loop (plinks s) (procs s) ProcList 1 MAX_PID = Some (1, MAX_PID)" by (subst pid_loop.simps) simp
  then show ?thesis using assms(2) by (simp add: get_pid_def)
qed

lemma alloc_proc_eq:
  assumes "kmalloc sizeof_proc_struct (mem s) = Inr (m, p)" and "p \<noteq> 0"
  shows "alloc_proc s =
    Inr (upd_proc p (\<lambda>_. zero_proc\<lparr>p_state := PROC_UNINIT, p_pid := - 1, p_cr3 := boot_cr3 s\<rparr>) (s\<lparr>mem := m\<rparr>), p)"
  using assms by (simp add: alloc_proc_def on_mem_def)

lemma setup_kstack_eq:
  assumes "alloc_pages KSTACKPAGE (mem s) = Inr (m, Some pg)" and "page2kva m pg = Inr kva"
  shows "setup_kstack p s = Inr (upd_proc p (\<lambda>q. q\<lparr>p_kstack := kva\<rparr>) (s\<lparr>mem := m\<rparr>), 0)"
  using assms by (simp add: setup_kstack_def on_mem_def)

lemma proc_init_returns:
  assumes st: "nr_process s = 0" "last_pid s = MAX_PID" "next_safe s = MAX_PID"
    and heap: "kmalloc sizeof_proc_struct (mem s) = Inr (m1, a)" "a \<noteq> 0"
      "kmalloc sizeof_proc_struct m1 = Inr (m2, b)" "b \<noteq> 0" "b \<noteq> a"
    and stack: "alloc_pages KSTACKPAGE m2 = Inr (m3, Some pg)" "page2kva m3 pg = Inr kva"
  shows "\<exists>t. proc_init f s = Inr t \<and> idleproc t = a \<and> initproc t = b \<and> mem t = m3"
proof -
  define s1 where "s1 = s\<lparr>plinks := list_init (plinks s) ProcList,
     hlinks := foldl (\<lambda>L i. list_init L (HashList i)) (hlinks s) [0..<HASH_LIST_SIZE]\<rparr>"
  define s2 where "s2 = upd_proc a (\<lambda>_. zero_proc\<lparr>p_state := PROC_UNINIT, p_pid := - 1, p_cr3 := boot_cr3 s1\<rparr>) (s1\<lparr>mem := m1\<rparr>)"
  define s3 where "s3 = set_proc_name a (name_bytes ''idle'') (upd_proc a (\<lambda>p. p\<lparr>p_pid := 0, p_state := PROC_RUNNABLE,
     p_kstack := bootstack s2, p_need_resched := True\<rparr>) (s2\<lparr>idleproc := a\<rparr>))"
  define s4 where "s4 = s3\<lparr>nr_process := nr_process s3 + 1, current := a\<rparr>"
  have al: "alloc_proc s1 = Inr (s2, a)" unfolding s2_def by (rule alloc_proc_eq) (use heap in \<open>simp_all add: s1_def\<close>)
  have f4: "idleproc s4 = a" "current s4 = a" "nr_process s4 = 1" "last_pid s4 = MAX_PID" "next_safe s4 = MAX_PID"
    "plinks s4 = list_init (plinks s) ProcList"
    "hlinks s4 = foldl (\<lambda>L i. list_init L (HashList i)) (hlinks s) [0..<HASH_LIST_SIZE]"
    "mem s4 = m1" "p_state (procs s4 a) = PROC_RUNNABLE" "p_cptr (procs s4 a) = 0" "p_mm (procs s4 a) = 0" "p_pid (procs s4 a) = 0"
    using st by (simp_all add: s4_def s3_def s2_def set_proc_name_def s1_def zero_proc_def)
  have pl: "plist (plinks s4) []" by (simp add: f4 plist_def dll_init)
  have "hashed (hlinks s4) (procs s4) {}" unfolding f4(7) by (rule hashed_empty)
  then have pt: "ptab s4 []" by (rule idle_table [OF _ pl]) (simp_all add: f4 heap(2))
  obtain u where u: "alloc_proc s4 = Inr (u, b)" "mem u = m2" "current u = a" "procs u a = procs s4 a"
    using alloc_proc_eq [of s4 m2 b] heap by (simp add: f4)
  obtain v where v: "setup_kstack b (upd_proc b (\<lambda>q. q\<lparr>p_parent := current u\<rparr>) u) = Inr (v, 0)" "mem v = m3" "current v = a"
    "procs v a = procs s4 a"
    using setup_kstack_eq [of "upd_proc b (\<lambda>q. q\<lparr>p_parent := current u\<rparr>) u" m3 pg kva b] stack heap(5) u by simp
  have cm: "copy_mm fl b v = Inr (v, 0)" for fl using v by (simp add: copy_mm_def f4)
  have "nr_process s4 < MAX_PROCESS" by (simp add: f4 MAX_PROCESS_def)
  note D = do_fork_ok [OF pt _ _ this u(1) heap(4) _ v(1) cm]
  have df: "\<exists>t pid. do_fork fl stk tf s4 = Inr (t, pid) \<and> ptab t [b] \<and> 1 \<le> pid \<and> p_pid (procs t b) = pid \<and>
      (\<exists>w w'. off_table b s4 w \<and> get_pid w = Inr (w', pid)) \<and> mem t = m3 \<and> idleproc t = a \<and> p_pid (procs t a) = 0"
    for fl stk tf
  proof -
    have "current s4 \<in> insert (idleproc s4) (set [])" "p_state (procs s4 (current s4)) \<noteq> PROC_ZOMBIE"
      "b \<notin> insert (idleproc s4) (set [])" using heap(5) by (simp_all add: f4)
    from D [OF this, of fl stk tf] obtain t pid where "do_fork fl stk tf s4 = Inr (t, pid)" "ptab t [b]" "1 \<le> pid"
      "p_pid (procs t b) = pid" "\<forall>q. q \<noteq> b \<longrightarrow> p_pid (procs t q) = p_pid (procs s4 q)"
      "\<exists>w w'. off_table b s4 w \<and> get_pid w = Inr (w', pid)" "mem t = mem v" "idleproc t = idleproc s4" by blast
    then show ?thesis using heap(5) v(2) f4(1,12) by (intro exI [of _ t] exI [of _ pid]) simp
  qed
  obtain s5 pid where s5: "kernel_thread f 0 0 s4 = Inr (s5, pid)" "ptab s5 [b]" "1 \<le> pid" "p_pid (procs s5 b) = pid"
      "mem s5 = m3" "idleproc s5 = a" "p_pid (procs s5 a) = 0" and gp: "\<exists>w w'. off_table b s4 w \<and> get_pid w = Inr (w', pid)"
    unfolding kernel_thread_def Let_def using df by blast
  have "pid = 1" using gp get_pid_first pl by (auto simp: off_table_def f4)
  have pids: "\<forall>p\<in>set [b]. 1 \<le> p_pid (procs s5 p) \<and> p_pid (procs s5 p) < MAX_PID" using ptabD(1) [OF s5(2)] by (simp add: pid_inv_def)
  have fp: "find_proc pid s5 = Inr b"
    using find_proc_ok [OF ptabD(2) [OF s5(2)] pids, of pid] s5(4) by (auto simp: proc_of_pid_def)
  show ?thesis
    using al heap(2,4,5) s5 fp \<open>pid = 1\<close>
    by (simp add: proc_init_def s1_def [symmetric] s3_def [symmetric] s4_def [symmetric])
      (simp add: set_proc_name_def)
qed

end
