(* ===== verification/Proc_Correct.thy ===== *)
theory Proc_Correct
  imports Proc_Boot Vmm_Fault
begin

text \<open>
  The properties of the process component, on the invariants of the theories before, each with a small
  kernel as its witness: the idle process at 16, \<open>initproc\<close> at 32 with pid 1, its child at 48 with pid 2,
  and the child of that one at 64 with pid 3.
\<close>

section \<open>A small kernel\<close>

definition demo_procs :: "addr \<Rightarrow> proc_struct" where
  "demo_procs = (\<lambda>_. zero_proc)(
     16 := zero_proc\<lparr>p_state := PROC_RUNNABLE, p_cptr := 32\<rparr>,
     32 := zero_proc\<lparr>p_state := PROC_RUNNABLE, p_pid := 1, p_parent := 16, p_cptr := 48\<rparr>,
     48 := zero_proc\<lparr>p_state := PROC_RUNNABLE, p_pid := 2, p_parent := 32, p_cptr := 64\<rparr>,
     64 := zero_proc\<lparr>p_state := PROC_RUNNABLE, p_pid := 3, p_parent := 48\<rparr>)"

definition no_links :: "'p links" where "no_links = \<lparr>lprev = (\<lambda>p. p), lnext = (\<lambda>p. p)\<rparr>"

definition demo_plinks :: "proc_ptr links" where
  "demo_plinks = foldl (\<lambda>L p. list_add L ProcList (ListLink p)) (list_init no_links ProcList) [32, 48, 64]"

definition demo_hlinks :: "hash_ptr links" where
  "demo_hlinks = foldl (\<lambda>L p. list_add L (HashList (pid_hashfn (p_pid (demo_procs p)))) (HashLink p))
     (foldl (\<lambda>L i. list_init L (HashList i)) no_links [0..<HASH_LIST_SIZE]) [32, 48, 64]"

definition demo_kernel :: "mstate \<Rightarrow> addr \<Rightarrow> kstate" where
  "demo_kernel m c = \<lparr>mem = m, procs = demo_procs, tfs = (\<lambda>_. zero_trapframe), plinks = demo_plinks, hlinks = demo_hlinks,
     idleproc = 16, initproc = 32, current = c, nr_process = 4, next_safe = MAX_PID, last_pid = 3,
     boot_cr3 = 0, boot_pgdir = 0, cpu = zero_context, sched_flag = (\<lambda>_. False), kont = (\<lambda>_. []), ticks = 0,
     console = [], forkret_entry = 0, proc_run_ret = 1, kernel_thread_entry = 0, bootstack = 0\<rparr>"

lemma demo_kernel_fields [simp]:
  "mem (demo_kernel m c) = m" "procs (demo_kernel m c) = demo_procs" "plinks (demo_kernel m c) = demo_plinks"
  "hlinks (demo_kernel m c) = demo_hlinks" "idleproc (demo_kernel m c) = 16" "initproc (demo_kernel m c) = 32"
  "current (demo_kernel m c) = c" "nr_process (demo_kernel m c) = 4" "next_safe (demo_kernel m c) = MAX_PID"
  "last_pid (demo_kernel m c) = 3" "kont (demo_kernel m c) p = []"
  by (simp_all add: demo_kernel_def)

lemma demo_fields_procs:
  "p_state (demo_procs 16) = PROC_RUNNABLE" "p_state (demo_procs 32) = PROC_RUNNABLE" "p_state (demo_procs 48) = PROC_RUNNABLE"
  "p_state (demo_procs 64) = PROC_RUNNABLE" "p_pid (demo_procs 32) = 1" "p_pid (demo_procs 48) = 2" "p_pid (demo_procs 64) = 3"
  "p_parent (demo_procs 32) = 16" "p_parent (demo_procs 48) = 32" "p_parent (demo_procs 64) = 48"
  "p_cptr (demo_procs 16) = 32" "p_cptr (demo_procs 32) = 48" "p_cptr (demo_procs 48) = 64" "p_cptr (demo_procs 64) = 0"
  "p_yptr (demo_procs p) = 0" "p_optr (demo_procs p) = 0" "p_wait_state (demo_procs p) = 0" "p_mm (demo_procs p) = 0"
  "p_flags (demo_procs p) = 0"
  by (simp_all add: demo_procs_def zero_proc_def)

lemma demo_plist: "plist demo_plinks [64, 48, 32]"
proof -
  have "plist (list_init no_links ProcList) []" by (simp add: plist_def dll_init)
  from plist_add [OF plist_add [OF plist_add [OF this, of 32], of 48], of 64] show ?thesis by (simp add: demo_plinks_def)
qed

lemma demo_hashed: "hashed demo_hlinks demo_procs {64, 48, 32}"
  using hashed_add [OF hashed_add [OF hashed_add [OF hashed_empty [of no_links demo_procs], of 32], of 48], of 64]
  by (simp add: demo_hlinks_def)

lemma demo_family: "family demo_procs {16, 64, 48, 32} {64, 48, 32}"
proof -
  have "kids demo_procs 16 [32]" "kids demo_procs 32 [48]" "kids demo_procs 48 [64]" "kids demo_procs 64 []"
    by (simp_all add: kids_def sib_Cons demo_fields_procs)
  moreover have "children demo_procs {64, 48, 32} 16 = {32}" "children demo_procs {64, 48, 32} 32 = {48}"
    "children demo_procs {64, 48, 32} 48 = {64}" "children demo_procs {64, 48, 32} 64 = {}"
    by (auto simp: children_def demo_fields_procs)
  ultimately show ?thesis unfolding family_def
    by (simp add: demo_fields_procs) (metis list.set(1) list.simps(15))
qed

lemma demo_table: "c \<in> {16, 32, 48, 64} \<Longrightarrow> table_ok (demo_kernel m c) [64, 48, 32]"
proof -
  have "pid_inv (demo_kernel m c) [64, 48, 32]"
    using demo_plist by (auto simp: pid_inv_def pid_gap_def demo_fields_procs MAX_PID_def MAX_PROCESS_def)
  then have "ptab (demo_kernel m c) [64, 48, 32]"
    using demo_hashed demo_family by (auto simp: ptab_def demo_fields_procs)
  then show "c \<in> {16, 32, 48, 64} \<Longrightarrow> table_ok (demo_kernel m c) [64, 48, 32]"
    by (auto simp: table_ok_def tab_ok_def init_ok_def demo_fields_procs)
qed

section \<open>Memory for the small kernel\<close>

lemma alloc_run:
  assumes "minv s F" and "0 < n" and "{a..<a + n} \<subseteq> F"
  shows "\<exists>f p. alloc_pages n s = Inr (s\<lparr>fa := f\<rparr>, Some p) \<and> {p..<p + n} \<subseteq> F \<and> minv (s\<lparr>fa := f\<rparr>) (F - {p..<p + n})"
proof -
  obtain f p where "default_alloc_pages (fa s) n = Inr (f, Some p)" "{p..<p + n} \<subseteq> F"
    "pmm_rep (npage s - nbase) f (F - {p..<p + n})"
    using dpmm.alloc_some [of "npage s - nbase" "fa s" F n] assms unfolding minv_def by blast
  moreover have "alloc_pages n s = Inr (s\<lparr>fa := f\<rparr>, Some p)"
    using calculation(1) by (simp add: alloc_pages_def alloc_pages_loop.simps [of n s] pmm_alloc_eq)
  ultimately show ?thesis using assms(1) by (intro exI [of _ f] exI [of _ p]) (simp add: minv_def)
qed

lemma demo_kmalloc:
  "kmalloc sizeof_proc_struct (demo_state 1 f) = Inr (fst (projr (kmalloc sizeof_proc_struct (demo_state 1 f))), 4112)"
  "fa (fst (projr (kmalloc sizeof_proc_struct (demo_state 1 f)))) = f"
  "npage (fst (projr (kmalloc sizeof_proc_struct (demo_state 1 f)))) = nbase + 8"
  by (simp_all add: kmalloc_def sizeof_proc_struct_def PAGE_SIZE_def SLOB_UNIT_def slob_alloc_def SLOB_UNITS_def
      local_intr_save_def local_intr_restore_def intr_save_def demo_state_def mem8_state_def slob_alloc_loop.simps slob_delta_def
      slob_take_def set_units_def set_snext_def set_slobfree_def unit_add_def Let_def)

lemma demo_stack:
  assumes "minv m {3..<8}" and "npage m = nbase + 8"
  shows "\<exists>m' pg kva. alloc_pages KSTACKPAGE m = Inr (m', Some pg) \<and> page2kva m' pg = Inr kva"
proof -
  obtain f p where f: "alloc_pages KSTACKPAGE m = Inr (m\<lparr>fa := f\<rparr>, Some p)" "{p..<p + KSTACKPAGE} \<subseteq> {3..<8}"
    using alloc_run [OF assms(1), of KSTACKPAGE 3] by (auto simp: KSTACKPAGE_def)
  then have "p < 8" by (auto simp: KSTACKPAGE_def)
  then have "unat (PPN (page2pa p)) < nbase + 8" by (simp add: PPN_page2pa page2ppn_def nbase_def)
  then have "\<exists>kva. page2kva (m\<lparr>fa := f\<rparr>) p = Inr kva" using assms(2) by (simp add: page2kva_def KADDR_def)
  with f(1) show ?thesis by blast
qed

section \<open>Process identifiers\<close>

text \<open>C13: \<open>get_pid\<close> always ends, its restarts included, while fewer than \<open>MAX_PID - 1\<close> processes exist; the
  pid it returns lies between 1 and \<open>MAX_PID - 1\<close> and belongs to no process, nor does any pid up to the new
  \<open>next_safe\<close>; nothing but the two counters changes.\<close>

theorem get_pid_terminates:
  assumes "pid_inv s ps" and "int (length ps) < MAX_PID - 1"
  shows "\<exists>pid ns. get_pid s = Inr (s\<lparr>last_pid := pid, next_safe := ns\<rparr>, pid) \<and> 1 \<le> pid \<and> pid < ns \<and> ns \<le> MAX_PID \<and>
     (\<forall>p\<in>set ps. \<not> (pid \<le> p_pid (procs s p) \<and> p_pid (procs s p) < ns))"
  using get_pid_ok [OF assms] unfolding pid_gap_def by (metis not_le)

theorem get_pid_terminates_witness:
  "\<exists>s t pid. p_pid (procs s 64) = 3 \<and> get_pid s = Inr (t, pid) \<and> 1 \<le> pid \<and> pid \<noteq> 3"
proof -
  let ?s = "demo_kernel (demo_state 1 reserved_pages) 16"
  have "pid_inv ?s [64, 48, 32]" using demo_table [of 16] ptabD(1) by (auto simp: table_ok_def tab_ok_def)
  moreover have "int (length [64, 48, 32 :: addr]) < MAX_PID - 1" by (simp add: MAX_PID_def MAX_PROCESS_def)
  ultimately obtain pid ns where "get_pid ?s = Inr (?s\<lparr>last_pid := pid, next_safe := ns\<rparr>, pid)" "1 \<le> pid"
    "\<forall>p\<in>set [64, 48, 32]. \<not> (pid \<le> p_pid (procs ?s p) \<and> p_pid (procs ?s p) < ns)" "pid < ns"
    using get_pid_terminates by metis
  then have "p_pid (procs ?s 64) = 3 \<and> get_pid ?s = Inr (?s\<lparr>last_pid := pid, next_safe := ns\<rparr>, pid) \<and> 1 \<le> pid \<and> pid \<noteq> 3"
    by (auto simp: demo_fields_procs)
  then show ?thesis by blast
qed

text \<open>C39: \<open>find_proc\<close> ends and returns the process with the pid, or NULL when no process has it.\<close>

theorem find_proc_correct:
  assumes "table_ok s ps"
  shows "\<exists>p. find_proc pid s = Inr p \<and>
     (if \<exists>q\<in>set ps. p_pid (procs s q) = pid then p \<in> set ps \<and> p_pid (procs s p) = pid else p = 0)"
proof -
  have pt: "ptab s ps" using assms by (simp add: table_ok_def tab_ok_def)
  have "\<forall>p\<in>set ps. 1 \<le> p_pid (procs s p) \<and> p_pid (procs s p) < MAX_PID" using ptabD(1) [OF pt] by (simp add: pid_inv_def)
  from find_proc_ok [OF ptabD(2) [OF pt] this, of pid] show ?thesis unfolding proc_of_pid_def .
qed

theorem find_proc_correct_witness: "\<exists>s. find_proc 2 s = Inr 48 \<and> find_proc 7 s = Inr 0"
  using find_proc_correct [OF demo_table [of 16 "demo_state 1 reserved_pages"], of 2]
    find_proc_correct [OF demo_table [of 16 "demo_state 1 reserved_pages"], of 7]
  by (intro exI [of _ "demo_kernel (demo_state 1 reserved_pages) 16"]) (auto simp: demo_fields_procs split: if_splits)

section \<open>Scheduling\<close>

text \<open>C4: \<open>schedule\<close> is round robin: it switches to the first runnable process after the current one in the
  circular list, to the current one itself when it is the only one, and to the idle process when
  there is none.  Only the two processes involved change, in \<open>need_resched\<close>, \<open>runs\<close> and the saved registers.\<close>

theorem schedule_round_robin:
  assumes "table_ok s ps"
  shows "\<exists>t. schedule s = Inr t \<and>
     current t = (case find (\<lambda>p. p_state (procs s p) = PROC_RUNNABLE) (sched_order (idleproc s) (current s) ps) of
        Some p \<Rightarrow> p | None \<Rightarrow> idleproc s) \<and>
     table_ok t ps \<and> same_table s t \<and>
     procs t = (\<lambda>p. sched_proc (current s) (current t) (call_regs s) p (procs s p))"
proof -
  have s: "ptab s ps" "current s = idleproc s \<or> current s \<in> set ps" using assms by (auto simp: table_ok_def tab_ok_def)
  obtain t where "schedule s = Inr t" "current t = sched_pick (procs s) (idleproc s) (current s) ps" "same_table s t"
     "procs t = (\<lambda>p. sched_proc (current s) (current t) (call_regs s) p (procs s p))" using ptab_schedule [OF s] by blast
  moreover have "table_ok t ps" using tab_ok_schedule [of s ps] assms calculation(1) by (auto simp: table_ok_def)
  ultimately show ?thesis by (intro exI [of _ t]) (simp add: sched_pick_def)
qed

theorem schedule_round_robin_witness: "\<exists>s t. current s = 48 \<and> schedule s = Inr t \<and> current t = 32"
proof -
  let ?s = "demo_kernel (demo_state 1 reserved_pages) 48"
  have "sched_order 16 48 [64, 48, 32] = [32, 64, 48]" by (simp add: sched_order_def)
  moreover obtain t where "schedule ?s = Inr t" "current t = (case find (\<lambda>p. p_state (procs ?s p) = PROC_RUNNABLE)
      (sched_order (idleproc ?s) (current ?s) [64, 48, 32]) of Some p \<Rightarrow> p | None \<Rightarrow> idleproc ?s)"
    using schedule_round_robin [OF demo_table [of 48 "demo_state 1 reserved_pages"]] by blast
  ultimately have "current ?s = 48 \<and> schedule ?s = Inr t \<and> current t = 32" by (simp add: demo_fields_procs)
  then show ?thesis by blast
qed

text \<open>C14: no runnable process starves: along any sequence of states in which the list of processes stays
  the same and each state runs what \<open>schedule\<close> picked in the one before, a process that stays
  runnable runs again after at most as many calls of \<open>schedule\<close> as there are processes.\<close>

theorem schedule_fair:
  assumes st: "\<And>i. table_ok (\<sigma> i) ps \<and> idleproc (\<sigma> i) = idle \<and> p_state (procs (\<sigma> i) p) = PROC_RUNNABLE"
    and step: "\<And>i. \<exists>t. schedule (\<sigma> i) = Inr t \<and> current (\<sigma> (Suc i)) = current t" and p: "p \<in> set ps"
  shows "\<exists>i. k < i \<and> i \<le> k + length ps \<and> current (\<sigma> i) = p"
proof -
  have k: "ptab (\<sigma> k) ps" "current (\<sigma> k) \<in> insert (idleproc (\<sigma> k)) (set ps)" and ik: "idleproc (\<sigma> k) = idle"
    using st [of k] unfolding table_ok_def tab_ok_def by blast+
  have pl: "plist (plinks (\<sigma> i)) ps" for i using st [of i] ptabD(1) by (auto simp: table_ok_def tab_ok_def pid_inv_def)
  have c: "current (\<sigma> k) = idle \<or> current (\<sigma> k) \<in> set ps" using k(2) ik by auto
  have so: "set (sched_order idle (current (\<sigma> k)) ps) = set ps" "length (sched_order idle (current (\<sigma> k)) ps) = length ps"
    using sched_order_set [OF c plist_distinct [OF pl]] by simp_all
  then obtain xs ys where xs: "sched_order idle (current (\<sigma> k)) ps = xs @ p # ys" using p by (metis split_list)
  have "\<exists>i. k < i \<and> i \<le> k + length xs + 1 \<and> current (\<sigma> i) = p"
    by (rule sched_reaches [of \<sigma> ps idle p, OF _ step ptabD(9) [OF k(1)] ptabD(4) [OF k(1), unfolded ik] c xs])
      (use st pl in blast)
  moreover have "length xs + 1 \<le> length ps" using so(2) xs by simp
  ultimately show ?thesis by fastforce
qed

text \<open>The states of the witness: \<open>schedule\<close> applied again and again.\<close>

fun demo_run :: "nat \<Rightarrow> kstate" where
  "demo_run 0 = demo_kernel (demo_state 1 reserved_pages) 16"
| "demo_run (Suc i) = projr (schedule (demo_run i))"

lemma demo_run_ok: "table_ok (demo_run i) [64, 48, 32] \<and> idleproc (demo_run i) = 16 \<and> (\<forall>p. p_state (procs (demo_run i) p) = p_state (demo_procs p))"
proof (induction i)
  case (Suc i)
  then have "ptab (demo_run i) [64, 48, 32]" "current (demo_run i) = idleproc (demo_run i) \<or> current (demo_run i) \<in> set [64, 48, 32]"
    by (auto simp: table_ok_def tab_ok_def)
  from ptab_schedule [OF this] tab_ok_schedule [of "demo_run i" "[64, 48, 32]"] Suc show ?case
    by (auto simp: same_table_def table_ok_def)
qed (use demo_table [of 16] in simp)

theorem schedule_fair_witness:
  "(\<forall>i. schedule (demo_run i) = Inr (demo_run (Suc i)) \<and> table_ok (demo_run i) [64, 48, 32] \<and>
      p_state (procs (demo_run i) 32) = PROC_RUNNABLE) \<and>
   current (demo_run 0) = 16 \<and> (\<exists>i. 0 < i \<and> i \<le> 3 \<and> current (demo_run i) = 32)"
proof (intro conjI allI)
  show step: "schedule (demo_run i) = Inr (demo_run (Suc i))" for i
    using tab_ok_schedule [of "demo_run i" "[64, 48, 32]"] demo_run_ok [of i] by (auto simp: table_ok_def)
  show st: "table_ok (demo_run i) [64, 48, 32]" "p_state (procs (demo_run i) 32) = PROC_RUNNABLE" for i
    using demo_run_ok [of i] by (simp_all add: demo_fields_procs)
  show "current (demo_run 0) = 16" by simp
  have "\<exists>i. 0 < i \<and> i \<le> 0 + length [64, 48, 32 :: addr] \<and> current (demo_run i) = 32"
  proof (rule schedule_fair [of demo_run "[64, 48, 32]" 16 32 0])
    show "\<exists>t. schedule (demo_run i) = Inr t \<and> current (demo_run (Suc i)) = current t" for i using step by blast
  qed (use demo_run_ok st in auto)
  then show "\<exists>i. 0 < i \<and> i \<le> 3 \<and> current (demo_run i) = 32" by (simp add: numeral_3_eq_3)
qed

section \<open>Fork\<close>

text \<open>The state in which \<open>copy_mm\<close> is called: the new structure with its stack and its parent.\<close>

definition new_child :: "addr \<Rightarrow> u64 \<Rightarrow> mstate \<Rightarrow> kstate \<Rightarrow> kstate" where
  "new_child p kva m s = upd_proc p (\<lambda>_. zero_proc\<lparr>p_state := PROC_UNINIT, p_pid := - 1, p_cr3 := boot_cr3 s,
     p_parent := current s, p_kstack := kva\<rparr>) (s\<lparr>mem := m\<rparr>)"

text \<open>C2: \<open>do_fork\<close>, when the heap has a structure and the page allocator a kernel stack, and the address
  space can be copied or shared: the child is linked in as the youngest child of the caller, has
  a pid no process has, and is runnable; its structure is the only new one in the table, whose
  invariant is kept, and no other process changes its pid, state or parent.\<close>

theorem do_fork_correct:
  assumes ok: "table_ok s ps" and room: "nr_process s < MAX_PROCESS"
    and new: "kmalloc sizeof_proc_struct (mem s) = Inr (m, p)" "p \<noteq> 0" "p \<notin> insert (idleproc s) (set ps)"
    and stk: "alloc_pages KSTACKPAGE m = Inr (m', Some pg)" "page2kva m' pg = Inr kva"
    and mm: "copy_mm fl p (new_child p kva m' s) = Inr (u, 0)"
  shows "\<exists>t pid. do_fork fl stack tf s = Inr (t, pid) \<and> table_ok t (p # ps) \<and> 1 \<le> pid \<and> pid < MAX_PID \<and>
     (\<forall>q\<in>set ps. p_pid (procs s q) \<noteq> pid) \<and> p_pid (procs t p) = pid \<and> p_state (procs t p) = PROC_RUNNABLE \<and>
     p_parent (procs t p) = current s \<and> p_cptr (procs t (current s)) = p \<and> nr_process t = nr_process s + 1 \<and>
     (\<forall>q. q \<noteq> p \<longrightarrow> p_pid (procs t q) = p_pid (procs s q) \<and> p_state (procs t q) = p_state (procs s q) \<and>
        p_parent (procs t q) = p_parent (procs s q))"
proof -
  have o: "ptab s ps" "init_ok s ps" "current s \<in> insert (idleproc s) (set ps)"
    "\<forall>p\<in>set ps. p_wait_state (procs s p) \<noteq> 0 \<longrightarrow> p_state (procs s p) = PROC_SLEEPING"
    "current s = idleproc s \<or> p_state (procs s (current s)) = PROC_RUNNABLE"
    using ok by (auto simp: table_ok_def tab_ok_def)
  then have cz: "p_state (procs s (current s)) \<noteq> PROC_ZOMBIE" by (auto simp: init_ok_def)
  define s1 where "s1 = upd_proc p (\<lambda>_. zero_proc\<lparr>p_state := PROC_UNINIT, p_pid := - 1, p_cr3 := boot_cr3 s\<rparr>) (s\<lparr>mem := m\<rparr>)"
  have al: "alloc_proc s = Inr (s1, p)" using alloc_proc_eq [OF new(1,2)] by (simp add: s1_def)
  have ks: "setup_kstack p (upd_proc p (\<lambda>q. q\<lparr>p_parent := current s1\<rparr>) s1) = Inr (new_child p kva m' s, 0)"
    by (subst setup_kstack_eq [of _ m' pg kva]) (use stk in \<open>simp_all add: s1_def new_child_def upd_proc_def\<close>)
  from do_fork_ok [OF o(1,3) cz room al new(2,3) ks mm, of stack tf] obtain t pid where
    t: "do_fork fl stack tf s = Inr (t, pid)" "ptab t (p # ps)" "init_ok s ps \<longrightarrow> init_ok t (p # ps)" "1 \<le> pid" "pid < MAX_PID"
     "\<forall>q\<in>set ps. p_pid (procs s q) \<noteq> pid" "p_pid (procs t p) = pid" "p_state (procs t p) = PROC_RUNNABLE"
     "p_wait_state (procs t p) = 0" "p_parent (procs t p) = current s"
     "\<forall>q. q \<noteq> p \<longrightarrow> p_pid (procs t q) = p_pid (procs s q) \<and> p_state (procs t q) = p_state (procs s q) \<and>
        p_wait_state (procs t q) = p_wait_state (procs s q) \<and> p_parent (procs t q) = p_parent (procs s q)"
     "p_cptr (procs t (current s)) = p" "current t = current s" "idleproc t = idleproc s" by blast
  have "current t \<in> insert (idleproc t) (set (p # ps))" using o(3) unfolding t(13,14) by auto
  moreover have "current t = idleproc t \<or> p_state (procs t (current t)) = PROC_RUNNABLE"
    using o(5) t(8,11) unfolding t(13,14) by metis
  moreover have "\<forall>q\<in>set (p # ps). p_wait_state (procs t q) \<noteq> 0 \<longrightarrow> p_state (procs t q) = PROC_SLEEPING"
    using o(4) t(9,11) by (metis set_ConsD)
  ultimately have "table_ok t (p # ps)" using t(2,3) o(2) by (simp only: table_ok_def tab_ok_def simp_thms)
  moreover have "nr_process t = nr_process s + 1" using ptabD(6) [OF t(2)] ptabD(6) [OF o(1)] by simp
  ultimately show ?thesis using t by blast
qed

theorem do_fork_correct_witness:
  "\<exists>s t pid. do_fork 0 0 zero_trapframe s = Inr (t, pid) \<and> p_parent (procs t 4112) = 48 \<and>
     pid \<noteq> 1 \<and> pid \<noteq> 2 \<and> pid \<noteq> 3 \<and> table_ok t [4112, 64, 48, 32]"
proof -
  obtain f where f: "minv (demo_state 1 f) {3..<8}" using demo_mem by blast
  let ?m = "fst (projr (kmalloc sizeof_proc_struct (demo_state 1 f)))" and ?s = "demo_kernel (demo_state 1 f) 48"
  have "minv ?m {3..<8}" using f by (simp add: minv_def demo_kmalloc(2,3) demo_fields)
  then obtain m' pg kva where stk: "alloc_pages KSTACKPAGE ?m = Inr (m', Some pg)" "page2kva m' pg = Inr kva"
    using demo_stack demo_kmalloc(3) by blast
  have new: "kmalloc sizeof_proc_struct (mem ?s) = Inr (?m, 4112)" unfolding demo_kernel_fields by (rule demo_kmalloc(1))
  have mm: "copy_mm 0 4112 (new_child 4112 kva m' ?s) = Inr (new_child 4112 kva m' ?s, 0)"
    by (simp add: copy_mm_def new_child_def demo_fields_procs)
  have "nr_process ?s < MAX_PROCESS" by (simp add: MAX_PROCESS_def)
  from do_fork_correct [OF demo_table this new _ _ stk mm, of 0 zero_trapframe]
  obtain t pid where "do_fork 0 0 zero_trapframe ?s = Inr (t, pid)" "table_ok t [4112, 64, 48, 32]"
    "\<forall>q\<in>set [64, 48, 32]. p_pid (procs ?s q) \<noteq> pid" "p_parent (procs t 4112) = current ?s" by auto
  then have "do_fork 0 0 zero_trapframe ?s = Inr (t, pid) \<and> p_parent (procs t 4112) = 48 \<and>
     pid \<noteq> 1 \<and> pid \<noteq> 2 \<and> pid \<noteq> 3 \<and> table_ok t [4112, 64, 48, 32]" by (auto simp: demo_fields_procs)
  then show ?thesis by blast
qed

section \<open>Exit\<close>

text \<open>C3: \<open>do_exit\<close> never returns to its caller, once the address space could be left: it ends as a zombie with
  its exit code and without children, its children have become children of \<open>initproc\<close>, a parent that
  waits for a child is runnable again, and another process runs; the table keeps its invariant.\<close>

theorem do_exit_correct:
  assumes ok: "table_ok s ps" and c: "current s \<noteq> idleproc s" "current s \<noteq> initproc s" and leave: "leave_mm s = Inr s1"
  shows "\<exists>t. do_exit code s = Inr (t, Away) \<and> table_ok t ps \<and> current t \<noteq> current s \<and>
     p_state (procs t (current s)) = PROC_ZOMBIE \<and> p_exit_code (procs t (current s)) = code \<and>
     (\<forall>p\<in>set ps. p_parent (procs t p) =
        (if p_parent (procs s p) = current s then initproc s else p_parent (procs s p))) \<and>
     (p_wait_state (procs s (p_parent (procs s (current s)))) = WT_CHILD \<longrightarrow>
        p_state (procs t (p_parent (procs s (current s)))) = PROC_RUNNABLE)"
proof -
  have s: "ptab s ps" "init_ok s ps" "current s \<in> set ps" using ok c(1) by (auto simp: table_ok_def tab_ok_def)
  from do_exit_ok [OF s c(2) leave, of code] obtain t where t: "do_exit code s = Inr (t, Away)" "current t \<noteq> current s"
     "p_state (procs t (current s)) = PROC_ZOMBIE" "p_exit_code (procs t (current s)) = code"
     "\<forall>p\<in>set ps. p_parent (procs t p) = (if p_parent (procs s p) = current s then initproc s else p_parent (procs s p))"
     "p_wait_state (procs s (p_parent (procs s (current s)))) = WT_CHILD \<longrightarrow>
        p_state (procs t (p_parent (procs s (current s)))) = PROC_RUNNABLE" by blast
  with table_ok_exit [OF ok t(1)] show ?thesis by blast
qed

theorem do_exit_correct_witness:
  "\<exists>s t. current s = 48 \<and> p_parent (procs s 64) = 48 \<and> do_exit 7 s = Inr (t, Away) \<and> p_state (procs t 48) = PROC_ZOMBIE \<and>
     p_exit_code (procs t 48) = 7 \<and> p_parent (procs t 64) = 32"
proof -
  let ?s = "demo_kernel (demo_state 1 reserved_pages) 48"
  have "leave_mm ?s = Inr ?s" by (simp add: leave_mm_def demo_fields_procs)
  from do_exit_correct [OF demo_table _ _ this, of 7] obtain t where "do_exit 7 ?s = Inr (t, Away)"
    "p_state (procs t (current ?s)) = PROC_ZOMBIE" "p_exit_code (procs t (current ?s)) = 7"
    "\<forall>p\<in>set [64, 48, 32]. p_parent (procs t p) = (if p_parent (procs ?s p) = current ?s then initproc ?s else p_parent (procs ?s p))"
    by auto
  then have "current ?s = 48 \<and> p_parent (procs ?s 64) = 48 \<and> do_exit 7 ?s = Inr (t, Away) \<and>
     p_state (procs t 48) = PROC_ZOMBIE \<and> p_exit_code (procs t 48) = 7 \<and> p_parent (procs t 64) = 32" by (simp add: demo_fields_procs)
  then show ?thesis by blast
qed

section \<open>Wait and kill\<close>

lemma table_ok_list: "ptab t ps \<Longrightarrow> table_ok t ps' \<Longrightarrow> table_ok t ps"
proof -
  assume "ptab t ps" and ok: "table_ok t ps'"
  then have "plist (plinks t) ps" "plist (plinks t) ps'" using ptabD(1) by (auto simp: table_ok_def tab_ok_def pid_inv_def)
  then show "table_ok t ps" using ok plist_unique by blast
qed

text \<open>C19: \<open>do_wait\<close> on every branch, after its check of the user pointer: it fails with \<open>-E_INVAL\<close> when the
  check fails and with \<open>-E_BAD_PROC\<close> when the caller has no child with the pid; it reaps a zombie among
  those children when there is one; else it sleeps, another process runs, and what is left to do
  is on the caller's stack.\<close>

theorem do_wait_correct:
  assumes ok: "table_ok s ps" and cur: "current s \<noteq> idleproc s"
    and chk: "(if cs \<noteq> 0 then on_mem (user_mem_check (p_mm (procs s (current s))) cs 4 True) s else Inr (s, True)) = Inr (u, valid)"
    and kids_for: "kids_for = waits_for (procs s) (set ps) (current s) pid"
  shows "if \<not> valid then do_wait pid cs s = Inr (u, Ret (- E_INVAL))
     else if kids_for = {} then do_wait pid cs s = Inr (u, Ret (- E_BAD_PROC))
     else if \<exists>p\<in>kids_for. p_state (procs s p) = PROC_ZOMBIE
       then \<exists>p\<in>kids_for. p_state (procs s p) = PROC_ZOMBIE \<and>
         do_wait pid cs s = bindR (reap p cs u) (\<lambda>t. Inr (t, Ret 0))
     else \<exists>t. do_wait pid cs s = Inr (t, Away) \<and> table_ok t ps \<and> current t \<noteq> current s \<and>
         p_state (procs t (current s)) = PROC_SLEEPING \<and> p_wait_state (procs t (current s)) = WT_CHILD \<and>
         kont t (current s) = F_wait pid cs # kont s (current s)"
proof -
  have mo: "mem_only s u" using chk by (auto split: if_splits dest: on_mem_only)
  have fu: "procs u = procs s" "current u = current s" "idleproc u = idleproc s" "kont u = kont s"
    using mem_only_fields [OF mo] by simp_all
  have ou: "table_ok u ps" by (rule table_ok_quiet [OF quiet_mem [OF mo] ok])
  have u: "ptab u ps" "init_ok u ps" "current u \<in> set ps" using ou cur by (auto simp: table_ok_def tab_ok_def fu)
  have run: "do_wait pid cs s = (if valid then wait_repeat pid cs u else Inr (u, Ret (- E_INVAL)))"
    using chk by (simp add: do_wait_def)
  obtain p where fz: "find_zombie pid u = Inr (kids_for \<noteq> {}, p)"
    "if \<exists>q\<in>kids_for. p_state (procs s q) = PROC_ZOMBIE then p \<in> kids_for \<and> p_state (procs s p) = PROC_ZOMBIE else p = 0"
    using find_zombie_ok [OF u(1), of pid] u(3) unfolding fu kids_for by blast
  have 0: "p \<noteq> 0" if "p \<in> kids_for" using that ptabD(9) [OF u(1)] by (auto simp: kids_for waits_for_def children_def intro: gr0I)
  show ?thesis
  proof (cases "valid \<and> kids_for \<noteq> {} \<and> (\<forall>q\<in>kids_for. p_state (procs s q) \<noteq> PROC_ZOMBIE)")
    case True
    then obtain t where t: "wait_repeat pid cs u = Inr (t, Away)" "current t \<noteq> current s"
      "p_state (procs t (current s)) = PROC_SLEEPING" "p_wait_state (procs t (current s)) = WT_CHILD"
      "kont t (current s) = F_wait pid cs # kont s (current s)" "ptab t ps"
      using wait_sleeps [OF u, of pid cs] unfolding fu kids_for by blast
    then have "table_ok t ps" using table_ok_wait [OF ou t(1)] table_ok_list by blast
    with t True run show ?thesis by auto
  next
    case False
    show ?thesis
    proof (cases "valid \<and> kids_for \<noteq> {}")
      case True
      then have z: "\<exists>q\<in>kids_for. p_state (procs s q) = PROC_ZOMBIE" using False by blast
      then have p: "p \<in> kids_for" "p_state (procs s p) = PROC_ZOMBIE" using fz(2) by simp_all
      then have "do_wait pid cs s = bindR (reap p cs u) (\<lambda>t. Inr (t, Ret 0))"
        using run True fz(1) 0 by (simp add: wait_repeat_def)
      with p z True show ?thesis by auto
    next
      case F: False
      then show ?thesis using run fz by (auto simp: wait_repeat_def)
    qed
  qed
qed

theorem do_wait_correct_witness:
  "\<exists>s t. do_wait 3 0 s = Inr (t, Away) \<and> p_state (procs t 48) = PROC_SLEEPING \<and> do_wait 9 0 s = Inr (s, Ret (- E_BAD_PROC))"
proof -
  let ?s = "demo_kernel (demo_state 1 reserved_pages) 48" and ?w = "waits_for demo_procs {64, 48, 32} 48"
  have w: "?w 3 = {64}" "?w 9 = {}" by (auto simp: waits_for_def children_def demo_fields_procs)
  note ok = demo_table [of 48 "demo_state 1 reserved_pages"]
  from do_wait_correct [OF ok, of 0 ?s True "?w 3" 3] w
  obtain t where "do_wait 3 0 ?s = Inr (t, Away)" "p_state (procs t 48) = PROC_SLEEPING" by (auto simp: demo_fields_procs)
  moreover from do_wait_correct [OF ok, of 0 ?s True "?w 9" 9] w
  have "do_wait 9 0 ?s = Inr (?s, Ret (- E_BAD_PROC))" by (simp add: demo_fields_procs)
  ultimately show ?thesis by blast
qed

text \<open>C20: \<open>reap\<close> takes the zombie out of the list of processes, the hash lists and the family, and gives its
  stack and its structure back; the rest of the table keeps its invariant, and every other process
  its pid, state and parent.\<close>

theorem reap_correct:
  assumes ok: "table_ok s ps" and p: "p \<in> set ps" "p_state (procs s p) = PROC_ZOMBIE"
    and store: "(if cs \<noteq> 0 then store_bytes cs (int_bytes (p_exit_code (procs s p))) s else Inr s) = Inr s1"
    and kst: "kva2page (mem s1) (p_kstack (procs s p)) = Inr pg" "free_pages pg KSTACKPAGE (mem s1) = Inr m1"
    and fre: "kfree p m1 = Inr m2"
  shows "\<exists>t. reap p cs s = Inr t \<and> mem t = m2 \<and> table_ok t (remove1 p ps) \<and> nr_process t = nr_process s - 1 \<and>
     (\<forall>x. p_pid (procs t x) = p_pid (procs s x) \<and> p_state (procs t x) = p_state (procs s x) \<and>
        p_parent (procs t x) = p_parent (procs s x))"
proof -
  have s: "ptab s ps" "init_ok s ps" "current s \<in> insert (idleproc s) (set ps)" using ok by (auto simp: table_ok_def tab_ok_def)
  obtain t where t: "reap p cs s = Inr t" "mem t = m2" "current t = current s" "idleproc t = idleproc s"
    "ptab t (remove1 p ps)" "init_ok t (remove1 p ps)"
    "\<forall>x. p_pid (procs t x) = p_pid (procs s x) \<and> p_state (procs t x) = p_state (procs s x) \<and>
        p_wait_state (procs t x) = p_wait_state (procs s x) \<and> p_parent (procs t x) = p_parent (procs s x)"
    using reap_ok [OF s(1,2) p store kst fre] by blast
  have "p \<noteq> current s" using ok p ptabD(4) [OF s(1)] by (auto simp: table_ok_def)
  then have "current s \<in> insert (idleproc s) (set (remove1 p ps))" using s(3) by auto
  then have "table_ok t (remove1 p ps)"
    using ok t set_remove1_subset [of p ps] by (auto simp: table_ok_def tab_ok_def)
  moreover have "nr_process t = nr_process s - 1"
    using ptabD(6) [OF t(5)] ptabD(6) [OF s(1)] length_pos_if_in_set [OF p(1)] p(1) by (auto simp only: length_remove1 if_True)
  ultimately show ?thesis using t by blast
qed

text \<open>C27: \<open>do_kill\<close> never stops the kernel: a pid of no process gives \<open>-E_INVAL\<close>, a process that is being killed
  already \<open>-E_KILLED\<close>, and else the process is marked, made runnable when its sleep can be interrupted,
  and nothing else changes.\<close>

theorem do_kill_correct:
  assumes ok: "table_ok s ps"
  shows "\<exists>t r. do_kill pid s = Inr (t, r) \<and> table_ok t ps \<and>
     (if \<forall>p\<in>set ps. p_pid (procs s p) \<noteq> pid then r = - E_INVAL \<and> t = s
      else \<exists>p\<in>set ps. p_pid (procs s p) = pid \<and>
        (if p_flags (procs s p) AND PF_EXITING \<noteq> 0 then r = - E_KILLED \<and> t = s
         else r = 0 \<and> p_flags (procs t p) = p_flags (procs s p) OR PF_EXITING \<and>
           (p_wait_state (procs s p) AND WT_INTERRUPTED \<noteq> 0 \<longrightarrow> p_state (procs t p) = PROC_RUNNABLE) \<and>
           (\<forall>q. q \<noteq> p \<longrightarrow> procs t q = procs s q)))"
proof -
  have s: "ptab s ps" "init_ok s ps" "\<forall>p\<in>set ps. p_wait_state (procs s p) \<noteq> 0 \<longrightarrow> p_state (procs s p) = PROC_SLEEPING"
    using ok by (auto simp: table_ok_def tab_ok_def)
  obtain t r where t: "do_kill pid s = Inr (t, r)" "table_ok t ps" using table_ok_kill [OF ok] by blast
  have "\<forall>p\<in>set ps. 1 \<le> p_pid (procs s p) \<and> p_pid (procs s p) < MAX_PID" using ptabD(1) [OF s(1)] by (simp add: pid_inv_def)
  from find_proc_ok [OF ptabD(2) [OF s(1)] this, of pid] obtain p
    where f: "find_proc pid s = Inr p" "proc_of_pid (procs s) (set ps) pid p" by blast
  show ?thesis
  proof (cases "\<forall>p\<in>set ps. p_pid (procs s p) \<noteq> pid")
    case True
    then have "p = 0" using f(2) by (auto simp: proc_of_pid_def)
    then have "r = - E_INVAL \<and> t = s" using t(1) f(1) by (simp add: do_kill_def)
    with t True show ?thesis by (intro exI [of _ t] exI [of _ r]) simp
  next
    case False
    then have p: "p \<in> set ps" "p_pid (procs s p) = pid" using f(2) unfolding proc_of_pid_def by (meson)+
    have p0: "p \<noteq> 0" using p ptabD(9) [OF s(1)] by metis
    have z: "p_wait_state (procs s p) AND WT_INTERRUPTED \<noteq> 0 \<longrightarrow> p_state (procs s p) \<noteq> PROC_ZOMBIE" using s(3) p(1) by force
    have "if p_flags (procs s p) AND PF_EXITING \<noteq> 0 then r = - E_KILLED \<and> t = s
      else r = 0 \<and> p_flags (procs t p) = p_flags (procs s p) OR PF_EXITING \<and>
        (p_wait_state (procs s p) AND WT_INTERRUPTED \<noteq> 0 \<longrightarrow> p_state (procs t p) = PROC_RUNNABLE) \<and>
        (\<forall>q. q \<noteq> p \<longrightarrow> procs t q = procs s q)"
    proof (cases "p_flags (procs s p) AND PF_EXITING = 0")
      case True
      then show ?thesis using do_kill_ok [OF s(1,2) p True z] t(1) by auto
    next
      case F: False
      then show ?thesis using t(1) f(1) p0 by (simp add: do_kill_def)
    qed
    with t p False show ?thesis by (intro exI [of _ t] exI [of _ r]) auto
  qed
qed

theorem do_kill_correct_witness: "\<exists>s t. do_kill 3 s = Inr (t, 0) \<and> p_flags (procs t 64) = PF_EXITING \<and> do_kill 9 s = Inr (s, - E_INVAL)"
proof -
  let ?s = "demo_kernel (demo_state 1 reserved_pages) 48"
  note ok = demo_table [of 48 "demo_state 1 reserved_pages"]
  obtain t r where t: "do_kill 3 ?s = Inr (t, r)"
    "if \<forall>p\<in>set [64, 48, 32]. p_pid (procs ?s p) \<noteq> 3 then r = - E_INVAL \<and> t = ?s
      else \<exists>p\<in>set [64, 48, 32]. p_pid (procs ?s p) = 3 \<and>
        (if p_flags (procs ?s p) AND PF_EXITING \<noteq> 0 then r = - E_KILLED \<and> t = ?s
         else r = 0 \<and> p_flags (procs t p) = p_flags (procs ?s p) OR PF_EXITING \<and>
           (p_wait_state (procs ?s p) AND WT_INTERRUPTED \<noteq> 0 \<longrightarrow> p_state (procs t p) = PROC_RUNNABLE) \<and>
           (\<forall>q. q \<noteq> p \<longrightarrow> procs t q = procs ?s q))"
    using do_kill_correct [OF ok, of 3] by blast
  then have "r = 0 \<and> p_flags (procs t 64) = PF_EXITING" by (simp add: demo_fields_procs)
  moreover have "do_kill 9 ?s = Inr (?s, - E_INVAL)"
    using do_kill_correct [OF ok, of 9] by (auto simp: demo_fields_procs split: if_splits)
  ultimately show ?thesis using t(1) by blast
qed

text \<open>
  The witness: process 64 as a zombie whose stack is the pages 512 and 513, the first ones above the
  kernel's base address, of a machine with no free page.
\<close>

definition demo_stack_va :: u64 where "demo_stack_va = push_bit 12 (of_nat (nbase + 512)) + va_pa_offset"

definition full_pages :: free_state where
  "full_pages = \<lparr>pages = (\<lambda>_. \<lparr>ref = 0, flags = 0, property = 0, pra_vaddr = 0\<rparr>),
     page_link = list_init links0 FreeList, nr_free = 0\<rparr>"

lemma full_pages_rep: "pmm_rep 1024 full_pages {}" "page_owned full_pages i"
proof -
  have "fl_rep 1024 full_pages []"
    by (simp add: fl_rep_def full_pages_def dll_init PageReserved_bit PageProperty_bit)
  then show "pmm_rep 1024 full_pages {}" unfolding pmm_rep_def by (intro exI [of _ "[]"]) simp
qed (simp add: page_owned_def full_pages_def PageReserved_bit)

definition demo_zombie :: "mstate \<Rightarrow> kstate" where
  "demo_zombie m = upd_proc 64 (\<lambda>p. p\<lparr>p_state := PROC_ZOMBIE, p_kstack := demo_stack_va\<rparr>) (demo_kernel m 48)"

lemma demo_zombie_table: "table_ok (demo_zombie m) [64, 48, 32]"
proof -
  have ok: "table_ok (demo_kernel m 48) [64, 48, 32]" by (rule demo_table) simp
  have te: "table_eq (demo_kernel m 48) (demo_zombie m)" "initproc (demo_zombie m) = initproc (demo_kernel m 48)"
    by (simp_all add: table_eq_def demo_zombie_def)
  have "ptab (demo_zombie m) [64, 48, 32]"
    by (rule ptab_table_eq [OF te(1)])
      (use ok in \<open>auto simp: table_ok_def tab_ok_def demo_zombie_def demo_fields_procs children_def split: if_splits\<close>)
  moreover have "init_ok (demo_zombie m) [64, 48, 32]"
    by (rule init_ok_table_eq [OF te]) (use ok in \<open>auto simp: table_ok_def tab_ok_def demo_zombie_def demo_fields_procs\<close>)
  ultimately show ?thesis by (simp add: table_ok_def tab_ok_def demo_zombie_def demo_fields_procs)
qed

theorem reap_correct_witness: "\<exists>s t. reap 64 0 s = Inr t \<and> table_ok s [64, 48, 32] \<and> table_ok t [48, 32]"
proof -
  let ?m = "(demo_state 1 full_pages)\<lparr>npage := nbase + 1024\<rparr>"
  have pg: "kva2page ?m demo_stack_va = Inr 512"
    by (simp add: kva2page_def PADDR_def pa2page_def demo_stack_va_def KERNBASE_def va_pa_offset_def nbase_def
        PPN_def PTXSHIFT_def)
  obtain f' where f': "default_free_pages full_pages 512 KSTACKPAGE = Inr f'"
    using dpmm.free_ok [OF full_pages_rep(1), of KSTACKPAGE 512] full_pages_rep(2)
    by (auto simp: KSTACKPAGE_def insertable_def)
  have fr: "free_pages 512 KSTACKPAGE ?m = Inr (?m\<lparr>fa := f'\<rparr>)" using f' by (simp add: free_pages_eq demo_fields)
  have "slob_find ((\<lambda>_. 0)(16 := 4096, 4096 := 16)) 48 16 = Some 16" by (subst slob_find.simps) simp
  then have kf: "\<exists>m2. kfree 64 (?m\<lparr>fa := f'\<rparr>) = Inr m2"
    by (simp add: kfree_def slob_free_def PAGE_SIZE_def unit_add_def SLOB_UNIT_def demo_state_def local_intr_save_def
        split: prod.splits)
  then obtain m2 where m2: "kfree 64 (?m\<lparr>fa := f'\<rparr>) = Inr m2" by blast
  have "mem (demo_zombie ?m) = ?m" "p_kstack (procs (demo_zombie ?m) 64) = demo_stack_va"
    "p_state (procs (demo_zombie ?m) 64) = PROC_ZOMBIE" by (simp_all add: demo_zombie_def)
  with reap_correct [OF demo_zombie_table [of ?m], of 64 0 "demo_zombie ?m" 512 "?m\<lparr>fa := f'\<rparr>" m2] pg fr m2
  obtain t where "reap 64 0 (demo_zombie ?m) = Inr t" "table_ok t [48, 32]" by auto
  then show ?thesis using demo_zombie_table by blast
qed

section \<open>Boot\<close>

text \<open>C26: \<open>proc_init\<close>, when the heap gives two structures and the page allocator a stack, returns with the
  first table: the idle process current and outside the list, \<open>initproc\<close> its runnable child with pid 1.\<close>

theorem proc_init_correct:
  assumes st: "nr_process s = 0" "last_pid s = MAX_PID" "next_safe s = MAX_PID"
    and heap: "kmalloc sizeof_proc_struct (mem s) = Inr (m1, a)" "a \<noteq> 0"
      "kmalloc sizeof_proc_struct m1 = Inr (m2, b)" "b \<noteq> 0" "b \<noteq> a"
    and stack: "alloc_pages KSTACKPAGE m2 = Inr (m3, Some pg)" "page2kva m3 pg = Inr kva"
  shows "\<exists>t. proc_init f s = Inr t \<and> table_ok t [b] \<and> current t = a \<and> idleproc t = a \<and> initproc t = b \<and>
     p_pid (procs t b) = 1 \<and> p_state (procs t b) = PROC_RUNNABLE \<and> mem t = m3"
proof -
  obtain t where t: "proc_init f s = Inr t" "idleproc t = a" "initproc t = b" "mem t = m3"
    using proc_init_returns [OF assms] by blast
  have "table_ok t [initproc t] \<and> current t = idleproc t \<and> p_pid (procs t (initproc t)) = 1 \<and>
    p_state (procs t (initproc t)) = PROC_RUNNABLE"
    by (rule proc_init_ok [OF t(1) st]) (use heap in auto)
  with t show ?thesis by auto
qed

lemma demo_kmalloc2:
  "kmalloc sizeof_proc_struct (fst (projr (kmalloc sizeof_proc_struct (demo_state 1 f)))) =
     Inr (fst (projr (kmalloc sizeof_proc_struct (fst (projr (kmalloc sizeof_proc_struct (demo_state 1 f)))))), 4400)"
  "fa (fst (projr (kmalloc sizeof_proc_struct (fst (projr (kmalloc sizeof_proc_struct (demo_state 1 f))))))) = f"
  "npage (fst (projr (kmalloc sizeof_proc_struct (fst (projr (kmalloc sizeof_proc_struct (demo_state 1 f))))))) = nbase + 8"
  by (simp_all add: kmalloc_def sizeof_proc_struct_def PAGE_SIZE_def SLOB_UNIT_def slob_alloc_def SLOB_UNITS_def
      local_intr_save_def local_intr_restore_def intr_save_def intr_restore_def demo_state_def mem8_state_def slob_alloc_loop.simps slob_delta_def
      slob_take_def set_units_def set_snext_def set_slobfree_def unit_add_def Let_def)

theorem proc_init_correct_witness:
  "\<exists>s t. proc_init 0 s = Inr t \<and> current t = 4112 \<and> initproc t = 4400 \<and> p_pid (procs t 4400) = 1"
proof -
  obtain f where f: "minv (demo_state 1 f) {3..<8}" using demo_mem by blast
  let ?m1 = "fst (projr (kmalloc sizeof_proc_struct (demo_state 1 f)))"
  let ?m2 = "fst (projr (kmalloc sizeof_proc_struct ?m1))"
  let ?s = "(demo_kernel (demo_state 1 f) 0)\<lparr>nr_process := 0, last_pid := MAX_PID, next_safe := MAX_PID\<rparr>"
  have "minv ?m2 {3..<8}" using f by (simp add: minv_def demo_kmalloc2(2,3) demo_fields)
  then obtain m' pg kva where stk: "alloc_pages KSTACKPAGE ?m2 = Inr (m', Some pg)" "page2kva m' pg = Inr kva"
    using demo_stack demo_kmalloc2(3) by blast
  have h: "kmalloc sizeof_proc_struct (mem ?s) = Inr (?m1, 4112)" using demo_kmalloc(1) [of f] by (simp add: demo_kernel_def)
  from proc_init_correct [OF _ _ _ h _ demo_kmalloc2(1) _ _ stk, of 0]
  obtain t where "proc_init 0 ?s = Inr t \<and> current t = 4112 \<and> initproc t = 4400 \<and> p_pid (procs t 4400) = 1" by auto
  then show ?thesis by blast
qed

end
