(* ===== verification/Trap_Correct.thy ===== *)
theory Trap_Correct
  imports Proc_Correct
begin

text \<open>
  A system call from user mode through the whole of \<open>trap\<close>: what the caller finds in its registers when it
  goes on.
\<close>

section \<open>The way through \<open>trap\<close>\<close>

text \<open>An \<open>ecall\<close> from user mode, taken by a process that is neither being killed nor to be rescheduled.\<close>

definition user_ecall :: "u64 \<Rightarrow> kstate \<Rightarrow> bool" where
  "user_ecall a s \<longleftrightarrow> current s \<noteq> 0 \<and> tf_cause (tfs s a) = CAUSE_USER_ECALL \<and> tf_status (tfs s a) AND SSTATUS_SPP = 0"

text \<open>The state in which the handler runs: the frame is current and points behind the \<open>ecall\<close>.\<close>

definition in_call :: "u64 \<Rightarrow> kstate \<Rightarrow> kstate" where
  "in_call a s = skip_insn a (push_frame (F_trap (p_tf (procs s (current s))) False) (upd_proc (current s) (\<lambda>p. p\<lparr>p_tf := a\<rparr>) s))"

lemma trap_ecall:
  assumes "user_ecall a s"
  shows "trap vm a s = bindR (syscall vm (in_call a s)) (\<lambda>(u, c).
     case c of Ret _ \<Rightarrow> trap_finish (p_tf (procs s (current s))) False (pop_frame u) | Away \<Rightarrow> Inr (u, T_away))"
proof -
  let ?u = "push_frame (F_trap (p_tf (procs s (current s))) False) (upd_proc (current s) (\<lambda>p. p\<lparr>p_tf := a\<rparr>) s)"
  have c: "tf_cause (tfs ?u a) = CAUSE_USER_ECALL" "current s \<noteq> 0" and k: "\<not> trap_in_kernel (tfs s a)"
    using assms by (simp_all add: user_ecall_def push_frame_def upd_proc_def trap_in_kernel_def)
  have "trap_dispatch vm a ?u = bindR (syscall vm (in_call a s)) (\<lambda>(u, c). Inr (u, ctl_end c))"
    by (simp add: trap_dispatch_def exception_handler_def c in_call_def CAUSE_USER_ECALL_def CAUSE_MISALIGNED_FETCH_def
        CAUSE_FETCH_ACCESS_def CAUSE_ILLEGAL_INSTRUCTION_def CAUSE_BREAKPOINT_def CAUSE_MISALIGNED_LOAD_def
        CAUSE_LOAD_ACCESS_def CAUSE_MISALIGNED_STORE_def CAUSE_STORE_ACCESS_def)
  then show ?thesis using c(2) k
    by (cases "syscall vm (in_call a s)") (auto simp: trap_def Let_def ctl_end_def split: ctl.splits)
qed

lemma in_call_fields [simp]:
  "current (in_call a s) = current s" "p_tf (procs (in_call a s) (current s)) = a" "mem (in_call a s) = mem s"
  "tfs (in_call a s) a = (tfs s a)\<lparr>tf_epc := tf_epc (tfs s a) + 4\<rparr>" "b \<noteq> a \<Longrightarrow> tfs (in_call a s) b = tfs s b"
  "procs (in_call a s) = (procs s)(current s := (procs s (current s))\<lparr>p_tf := a\<rparr>)"
  by (simp_all add: in_call_def skip_insn_def push_frame_def upd_tf_def upd_proc_def)

lemma sys_args_epc [simp]: "sys_args (tf\<lparr>tf_epc := e\<rparr>) = sys_args tf"
  by (simp add: sys_args_def fun_eq_iff)

lemma finish_returns:
  assumes "p_flags (procs s (current s)) AND PF_EXITING = 0" and "\<not> p_need_resched (procs s (current s))"
  shows "trap_finish otf False s = Inr (upd_proc (current s) (\<lambda>p. p\<lparr>p_tf := otf\<rparr>) s, T_return)"
  using assms by (simp add: trap_finish_def Let_def)

section \<open>Properties\<close>

text \<open>C21: the system call interface.  An \<open>ecall\<close> from user mode calls the handler that register \<open>a0\<close> selects,
  with \<open>a1\<close> to \<open>a5\<close> as its arguments; when the handler returns to the same process, which is neither being
  killed nor to be rescheduled, so does \<open>trap\<close>: the result is in \<open>a0\<close>, the frame is otherwise the one the handler
  left, the caller's previous frame is current again and its kernel stack is as before.\<close>

theorem ecall_returns:
  assumes e: "user_ecall a s" and num: "0 \<le> to_int (gpr (tfs s a) R_a0)" "to_int (gpr (tfs s a) R_a0) < NUM_SYSCALLS"
    and f: "syscalls vm (to_int (gpr (tfs s a) R_a0)) = Some f"
    and run: "f (\<lambda>i. gpr (tfs s a) ([R_a1, R_a2, R_a3, R_a4, R_a5] ! i)) (in_call a s) = Inr (u, Ret v)"
    and cur: "current u = current s" "p_flags (procs u (current s)) AND PF_EXITING = 0" "\<not> p_need_resched (procs u (current s))"
  shows "\<exists>t. trap vm a s = Inr (t, T_return) \<and> tfs t = (tfs u)(a := set_reg R_a0 (of_int v) (tfs u a)) \<and>
     procs t = (procs u)(current s := (procs u (current s))\<lparr>p_tf := p_tf (procs s (current s))\<rparr>) \<and>
     kont t (current s) = tl (kont u (current s)) \<and> mem t = mem u \<and> current t = current s"
proof -
  have args: "sys_args (tfs (in_call a s) a) = (\<lambda>i. gpr (tfs s a) ([R_a1, R_a2, R_a3, R_a4, R_a5] ! i))"
    by (simp add: sys_args_def fun_eq_iff)
  define w where "w = upd_tf a (set_reg R_a0 (of_int v)) u"
  have "syscall vm (in_call a s) = Inr (w, Ret ())"
    using num f run unfolding syscall_def Let_def by (simp add: args [simplified] w_def)
  then have t: "trap vm a s = trap_finish (p_tf (procs s (current s))) False (pop_frame w)" by (simp add: trap_ecall [OF e])
  have w: "current (pop_frame w) = current s" "procs (pop_frame w) = procs u" "mem w = mem u"
    "tfs (pop_frame w) = (tfs u)(a := set_reg R_a0 (of_int v) (tfs u a))" "kont (pop_frame w) (current s) = tl (kont u (current s))"
    using cur(1) by (simp_all add: w_def pop_frame_def upd_tf_def)
  show ?thesis using finish_returns [of "pop_frame w" "p_tf (procs s (current s))"] cur(2,3) unfolding t w
    by (intro exI [of _ "upd_proc (current s) (\<lambda>p. p\<lparr>p_tf := p_tf (procs s (current s))\<rparr>) (pop_frame w)"])
      (simp add: w, simp add: upd_proc_def w)
qed

text \<open>The witness: process 48 of the small kernel asks for its pid.\<close>

definition demo_getpid :: kstate where
  "demo_getpid = (demo_kernel (demo_state 1 reserved_pages) 48)\<lparr>tfs := (\<lambda>_. zero_trapframe)(0x1000 :=
     zero_trapframe\<lparr>gpr := (\<lambda>_. 0)(R_a0 := 18), tf_cause := CAUSE_USER_ECALL, tf_epc := 0x800100\<rparr>)\<rparr>"

theorem ecall_returns_witness:
  "\<exists>t. trap (\<lambda>_. 0) 0x1000 demo_getpid = Inr (t, T_return) \<and> gpr (tfs t 0x1000) R_a0 = 2 \<and> tf_epc (tfs t 0x1000) = 0x800104"
proof -
  let ?u = "in_call 0x1000 demo_getpid"
  have g: "tfs demo_getpid 0x1000 = zero_trapframe\<lparr>gpr := (\<lambda>_. 0)(R_a0 := 18), tf_cause := CAUSE_USER_ECALL, tf_epc := 0x800100\<rparr>"
    "current demo_getpid = 48" "procs demo_getpid = demo_procs" by (simp_all add: demo_getpid_def)
  have e: "user_ecall 0x1000 demo_getpid" by (simp add: user_ecall_def g zero_trapframe_def)
  have n: "to_int (gpr (tfs demo_getpid 0x1000) R_a0) = SYS_getpid" by (simp add: g to_int_def SYS_getpid_def)
  have f: "syscalls (\<lambda>_. 0) SYS_getpid = Some sys_getpid"
    by (simp add: syscalls_def SYS_getpid_def SYS_exit_def SYS_fork_def SYS_wait_def SYS_exec_def SYS_yield_def SYS_kill_def)
  have nr: "\<not> p_need_resched (demo_procs 48)" by (simp add: demo_procs_def zero_proc_def)
  have "\<exists>t. trap (\<lambda>_. 0) 0x1000 demo_getpid = Inr (t, T_return) \<and> tfs t = (tfs ?u)(0x1000 := set_reg R_a0 (of_int 2) (tfs ?u 0x1000)) \<and>
     procs t = (procs ?u)(current demo_getpid := (procs ?u (current demo_getpid))\<lparr>p_tf := p_tf (procs demo_getpid (current demo_getpid))\<rparr>) \<and>
     kont t (current demo_getpid) = tl (kont ?u (current demo_getpid)) \<and> mem t = mem ?u \<and> current t = current demo_getpid"
    by (rule ecall_returns [OF e _ _ f [folded n]])
      (simp_all add: n, simp_all add: SYS_getpid_def NUM_SYSCALLS_def sys_getpid_def g demo_fields_procs nr)
  then show ?thesis by (auto simp: set_reg_def g)
qed

text \<open>an \<open>ecall\<close> with a number that has no handler stops the kernel; it never returns to the caller.\<close>

theorem ecall_undefined:
  assumes "user_ecall a s"
    and "syscalls vm (to_int (gpr (tfs s a) R_a0)) = None \<or> to_int (gpr (tfs s a) R_a0) \<notin> {0..<NUM_SYSCALLS}"
  shows "\<exists>e. trap vm a s = Inl e"
proof -
  have "\<exists>e. syscall vm (in_call a s) = Inl e"
    using assms(2) by (cases "print_trapframe a (in_call a s)") (auto simp: syscall_def Let_def)
  then show ?thesis by (auto simp: trap_ecall [OF assms(1)])
qed

theorem ecall_undefined_witness:
  "\<exists>s e. gpr (tfs s 0x1000) R_a0 = 5 \<and> trap (\<lambda>_. 0) 0x1000 s = Inl e"
proof -
  let ?s = "(demo_kernel (demo_state 1 reserved_pages) 48)\<lparr>tfs := (\<lambda>_. zero_trapframe)(0x1000 :=
     zero_trapframe\<lparr>gpr := (\<lambda>_. 0)(R_a0 := 5), tf_cause := CAUSE_USER_ECALL\<rparr>)\<rparr>"
  have "user_ecall 0x1000 ?s" by (simp add: user_ecall_def zero_trapframe_def)
  moreover have "syscalls (\<lambda>_. 0) (to_int (gpr (tfs ?s 0x1000) R_a0)) = None"
    by (simp add: syscalls_def to_int_def SYS_getpid_def SYS_exit_def SYS_fork_def SYS_wait_def SYS_exec_def SYS_yield_def
        SYS_kill_def SYS_putc_def SYS_pgdir_def)
  ultimately obtain e where "trap (\<lambda>_. 0) 0x1000 ?s = Inl e" using ecall_undefined by blast
  then have "gpr (tfs ?s 0x1000) R_a0 = 5 \<and> trap (\<lambda>_. 0) 0x1000 ?s = Inl e" by simp
  then show ?thesis by blast
qed

end
