(* ===== verification/Userlib.thy ===== *)
theory Userlib
  imports Trap_Correct
begin

text \<open>
  user/libs (syscall.c, ulib.c, stdio.c, umain.c, panic.c): the library of user programs, down to the \<open>ecall\<close>
  instruction and through \<open>trap\<close>.  A routine runs in the current process.  It gives \<open>Some\<close> a value when it returns to
  its caller and \<open>None\<close> when the processor has gone to another process, or to a new program, before it did.  A name
  that the kernel has too carries the prefix \<open>u\<close>.
\<close>

section \<open>The machine as user code finds it\<close>

text \<open>The bytes \<open>trap\<close> may read, the registers of the program other than those a call sets, and what \<open>va_arg\<close> reads
  when there are no more arguments: \<open>syscall\<close> always reads five.\<close>

record uenv =
  ue_vm :: bmem
  ue_regs :: trapframe
  ue_va :: "nat \<Rightarrow> u64"

type_synonym 'a ucode = "kstate \<Rightarrow> (kstate \<times> 'a option) res"

definition retU :: "'a \<Rightarrow> 'a ucode" where "retU x s = Inr (s, Some x)"

definition bindU :: "'a ucode \<Rightarrow> ('a \<Rightarrow> 'b ucode) \<Rightarrow> 'b ucode" where
  "bindU m f s = bindR (m s) (\<lambda>(s, r). case r of None \<Rightarrow> Inr (s, None) | Some x \<Rightarrow> f x s)"

text \<open>Where the entry code of trapentry.S saves the registers: the top of the kernel stack of the process.\<close>

definition user_frame :: "kstate \<Rightarrow> u64" where
  "user_frame s = p_kstack (procs s (current s)) + KSTACKSIZE - sizeof_trapframe"

section \<open>syscall.c\<close>

definition MAX_ARGS :: nat where "MAX_ARGS = 5"

definition va_args :: "uenv \<Rightarrow> u64 list \<Rightarrow> nat \<Rightarrow> u64" where
  "va_args U args i = (if i < length args then args ! i else ue_va U i)"

definition ecall_frame :: "uenv \<Rightarrow> int \<Rightarrow> u64 list \<Rightarrow> trapframe" where
  "ecall_frame U num args =
     (ue_regs U)\<lparr>gpr := (gpr (ue_regs U))(R_a0 := of_int num, R_a1 := va_args U args 0, R_a2 := va_args U args 1,
         R_a3 := va_args U args 2, R_a4 := va_args U args 3, R_a5 := va_args U args 4),
       tf_cause := CAUSE_USER_ECALL, tf_status := tf_status (ue_regs U) AND NOT SSTATUS_SPP\<rparr>"

definition usyscall :: "uenv \<Rightarrow> int \<Rightarrow> u64 list \<Rightarrow> int ucode" where
  "usyscall U num args s =
     (let a = user_frame s in
      bindR (trap (ue_vm U) a (upd_tf a (\<lambda>_. ecall_frame U num args) s)) (\<lambda>(s, e).
      Inr (s, if e = T_return then Some (to_int (gpr (tfs s a) R_a0)) else None)))"

definition usys_exit :: "uenv \<Rightarrow> int \<Rightarrow> int ucode" where
  "usys_exit U error_code = usyscall U SYS_exit [of_int error_code]"

definition usys_fork :: "uenv \<Rightarrow> int ucode" where "usys_fork U = usyscall U SYS_fork []"

definition usys_wait :: "uenv \<Rightarrow> int \<Rightarrow> u64 \<Rightarrow> int ucode" where
  "usys_wait U pid store = usyscall U SYS_wait [of_int pid, store]"

definition usys_yield :: "uenv \<Rightarrow> int ucode" where "usys_yield U = usyscall U SYS_yield []"

definition usys_kill :: "uenv \<Rightarrow> int \<Rightarrow> int ucode" where "usys_kill U pid = usyscall U SYS_kill [of_int pid]"

definition usys_getpid :: "uenv \<Rightarrow> int ucode" where "usys_getpid U = usyscall U SYS_getpid []"

definition usys_putc :: "uenv \<Rightarrow> int \<Rightarrow> int ucode" where "usys_putc U c = usyscall U SYS_putc [of_int c]"

definition usys_pgdir :: "uenv \<Rightarrow> int ucode" where "usys_pgdir U = usyscall U SYS_pgdir []"

section \<open>stdio.c\<close>

definition ucputch :: "uenv \<Rightarrow> char \<Rightarrow> int \<Rightarrow> int ucode" where
  "ucputch U c n = bindU (usys_putc U (of_char c)) (\<lambda>_. retU (n + 1))"

text \<open>The characters of a string, one after the other; \<open>vprintfmt\<close> calls \<open>cputch\<close> the same way.\<close>

fun uputchs :: "uenv \<Rightarrow> string \<Rightarrow> int \<Rightarrow> int ucode" where
  "uputchs U [] n = retU n"
| "uputchs U (c # str) n = bindU (ucputch U c n) (uputchs U str)"

definition uvcprintf :: "uenv \<Rightarrow> string \<Rightarrow> vaarg list \<Rightarrow> int ucode" where
  "uvcprintf U fmt ap s = bindR (vprintfmt fmt ap) (\<lambda>out. uputchs U out 0 s)"

definition ucprintf :: "uenv \<Rightarrow> string \<Rightarrow> vaarg list \<Rightarrow> int ucode" where "ucprintf U fmt ap = uvcprintf U fmt ap"

definition ucputs :: "uenv \<Rightarrow> string \<Rightarrow> int ucode" where
  "ucputs U str = bindU (uputchs U str 0) (ucputch U (CHR 0x0A))"

section \<open>ulib.c, umain.c and panic.c\<close>

definition uexit :: "uenv \<Rightarrow> int \<Rightarrow> unit ucode" where
  "uexit U error_code =
     bindU (usys_exit U error_code) (\<lambda>_.
     bindU (ucprintf U (''BUG: exit failed.'' @ nl) []) (\<lambda>_ s. Inl Hang))"

definition ufork :: "uenv \<Rightarrow> int ucode" where "ufork U = usys_fork U"

definition uwait :: "uenv \<Rightarrow> int ucode" where "uwait U = usys_wait U 0 0"

definition uwaitpid :: "uenv \<Rightarrow> int \<Rightarrow> u64 \<Rightarrow> int ucode" where "uwaitpid U pid store = usys_wait U pid store"

definition uyield :: "uenv \<Rightarrow> unit ucode" where "uyield U = bindU (usys_yield U) (\<lambda>_. retU ())"

definition ukill :: "uenv \<Rightarrow> int \<Rightarrow> int ucode" where "ukill U pid = usys_kill U pid"

definition ugetpid :: "uenv \<Rightarrow> int ucode" where "ugetpid U = usys_getpid U"

definition uprint_pgdir :: "uenv \<Rightarrow> unit ucode" where "uprint_pgdir U = bindU (usys_pgdir U) (\<lambda>_. retU ())"

text \<open>\<open>main\<close> is the program's own.\<close>

definition umain :: "uenv \<Rightarrow> int ucode \<Rightarrow> unit ucode" where "umain U main = bindU main (uexit U)"

definition say_at :: "uenv \<Rightarrow> string \<Rightarrow> string \<Rightarrow> int \<Rightarrow> string \<Rightarrow> vaarg list \<Rightarrow> unit ucode" where
  "say_at U kind file line fmt ap =
     bindU (ucprintf U (kind @ '' at %s:%d:'' @ nl @ ''    '') [VStr (Some file), VNum (of_int line)]) (\<lambda>_.
     bindU (uvcprintf U fmt ap) (\<lambda>_.
     bindU (ucprintf U nl []) (\<lambda>_. retU ())))"

definition upanic :: "uenv \<Rightarrow> string \<Rightarrow> int \<Rightarrow> string \<Rightarrow> vaarg list \<Rightarrow> unit ucode" where
  "upanic U file line fmt ap = bindU (say_at U ''user panic'' file line fmt ap) (\<lambda>_. uexit U (- E_PANIC))"

definition uwarn :: "uenv \<Rightarrow> string \<Rightarrow> int \<Rightarrow> string \<Rightarrow> vaarg list \<Rightarrow> unit ucode" where
  "uwarn U = say_at U ''user warning''"

section \<open>A call that returns\<close>

lemma bindU_simps [simp]:
  "m s = Inl e \<Longrightarrow> bindU m f s = Inl e" "m s = Inr (t, Some x) \<Longrightarrow> bindU m f s = f x t" "m s = Inr (t, None) \<Longrightarrow> bindU m f s = Inr (t, None)"
  by (simp_all add: bindU_def)

lemma bindU_retU: "bindU (retU x) f = f x" and bindU_retU2: "bindU m retU = m"
  and bindU_assoc: "bindU (bindU m f) g = bindU m (\<lambda>x. bindU (f x) g)"
  by (auto simp: fun_eq_iff bindU_def retU_def bindR_def split: sum.splits option.splits)

lemma uputchs_append: "uputchs U (xs @ ys) n = bindU (uputchs U xs n) (uputchs U ys)"
proof (induction xs arbitrary: n)
  case (Cons c xs)
  then have "uputchs U (xs @ ys) = (\<lambda>n. bindU (uputchs U xs n) (uputchs U ys))" by (simp add: fun_eq_iff)
  then show ?case by (simp add: bindU_assoc)
qed (simp add: bindU_retU)

lemma uputchs_one: "uputchs U [c] = ucputch U c"
proof -
  have e: "uputchs U [] = retU" by (rule ext) simp
  show ?thesis by (rule ext) (simp only: uputchs.simps(2) e bindU_retU2)
qed

lemma retU_simp [simp]: "retU x s = Inr (s, Some x)" by (simp add: retU_def)

text \<open>A process whose calls return to it at once.\<close>

definition user_ready :: "kstate \<Rightarrow> bool" where
  "user_ready s \<longleftrightarrow> current s \<noteq> 0 \<and> p_flags (procs s (current s)) AND PF_EXITING = 0 \<and> \<not> p_need_resched (procs s (current s))"

lemma ecall_frame_user [simp]: "user_ecall a (upd_tf a (\<lambda>_. ecall_frame U num args) s) \<longleftrightarrow> current s \<noteq> 0"
proof -
  have "tf_status (ecall_frame U num args) AND SSTATUS_SPP = 0"
    by (simp add: ecall_frame_def word_bw_assocs)
  then show ?thesis by (simp add: user_ecall_def upd_tf_def ecall_frame_def)
qed

lemma to_int_of_int: "- 0x80000000 \<le> n \<Longrightarrow> n < 0x80000000 \<Longrightarrow> to_int (of_int n) = n"
  by (simp add: to_int_def unsigned_of_int signed_of_int signed_take_bit_take_bit signed_take_bit_int_eq_self)

text \<open>The state in which a call from a ready process returns: the frame holds the call's registers, with the result in
  \<open>a0\<close> and the program counter behind the \<open>ecall\<close>.\<close>

definition call_done :: "uenv \<Rightarrow> int \<Rightarrow> u64 list \<Rightarrow> int \<Rightarrow> kstate \<Rightarrow> kstate" where
  "call_done U num args v s = s\<lparr>tfs := (tfs s)(user_frame s :=
     set_reg R_a0 (of_int v) ((ecall_frame U num args)\<lparr>tf_epc := tf_epc (ue_regs U) + 4\<rparr>))\<rparr>"

lemma call_done_fields [simp]:
  "current (call_done U num args v s) = current s" "procs (call_done U num args v s) = procs s"
  "console (call_done U num args v s) = console s" "user_frame (call_done U num args v s) = user_frame s"
  "user_ready (call_done U num args v s) = user_ready s"
  by (simp_all add: call_done_def user_frame_def user_ready_def)

lemma in_call_return:
  "upd_proc (current s) (\<lambda>p. p\<lparr>p_tf := p_tf (procs s (current s))\<rparr>)
     (pop_frame (upd_tf a g ((in_call a s)\<lparr>console := con\<rparr>))) =
   s\<lparr>tfs := (tfs s)(a := g ((tfs s a)\<lparr>tf_epc := tf_epc (tfs s a) + 4\<rparr>)), console := con\<rparr>"
  by (cases s) (simp add: in_call_def skip_insn_def push_frame_def pop_frame_def upd_tf_def upd_proc_def)

text \<open>The state in which the handler of a call runs.\<close>

definition called :: "uenv \<Rightarrow> int \<Rightarrow> u64 list \<Rightarrow> kstate \<Rightarrow> kstate" where
  "called U num args s = in_call (user_frame s) (upd_tf (user_frame s) (\<lambda>_. ecall_frame U num args) s)"

lemma called_fields [simp]:
  "current (called U num args s) = current s" "mem (called U num args s) = mem s" "console (called U num args s) = console s"
  "procs (called U num args s) = (procs s)(current s := (procs s (current s))\<lparr>p_tf := user_frame s\<rparr>)"
  "tfs (called U num args s) (user_frame s) = (ecall_frame U num args)\<lparr>tf_epc := tf_epc (ue_regs U) + 4\<rparr>"
  "idleproc (called U num args s) = idleproc s" "initproc (called U num args s) = initproc s"
  by (simp_all add: called_def in_call_def skip_insn_def push_frame_def upd_tf_def upd_proc_def ecall_frame_def)

lemma sys_args_ecall:
  assumes "i < MAX_ARGS"
  shows "sys_args (ecall_frame U num args) i = va_args U args i"
proof -
  have "i \<in> {0, 1, 2, 3, 4}" using assms by (auto simp: MAX_ARGS_def)
  then show ?thesis by (auto simp: sys_args_def ecall_frame_def)
qed

lemma called_syscall:
  assumes num: "0 \<le> num" "num < NUM_SYSCALLS" and f: "syscalls vm num = Some f"
  shows "syscall vm (called U num args s) = bindR (f (sys_args (ecall_frame U num args)) (called U num args s)) (\<lambda>(u, r).
     case r of Ret v \<Rightarrow> Inr (upd_tf (user_frame s) (set_reg R_a0 (of_int v)) u, Ret ()) | Away \<Rightarrow> Inr (u, Away))"
proof -
  have "to_int (gpr (ecall_frame U num args) R_a0) = num"
    using num by (simp add: ecall_frame_def to_int_of_int NUM_SYSCALLS_def)
  then show ?thesis using num f by (simp add: syscall_def Let_def)
qed

lemma usyscall_trap:
  assumes "current s \<noteq> 0"
  shows "trap vm (user_frame s) (upd_tf (user_frame s) (\<lambda>_. ecall_frame U num args) s) =
    bindR (syscall vm (called U num args s)) (\<lambda>(u, c).
     case c of Ret _ \<Rightarrow> trap_finish (p_tf (procs s (current s))) False (pop_frame u) | Away \<Rightarrow> Inr (u, T_away))"
proof -
  let ?s = "upd_tf (user_frame s) (\<lambda>_. ecall_frame U num args) s"
  have e: "user_ecall (user_frame s) ?s" using assms by simp
  have s: "current ?s = current s" "procs ?s = procs s" by (simp_all add: upd_tf_def)
  show ?thesis unfolding trap_ecall [OF e] called_def s ..
qed

text \<open>A handler that at most prints: the caller gets its result, and nothing but the frame and the console changes.\<close>

lemma usyscall_prints:
  assumes rdy: "user_ready s" and num: "0 \<le> num" "num < NUM_SYSCALLS" and f: "syscalls (ue_vm U) num = Some f"
    and run: "f (sys_args (ecall_frame U num args)) (called U num args s) =
       Inr ((called U num args s)\<lparr>console := console s @ out\<rparr>, Ret v)"
    and v: "- 0x80000000 \<le> v" "v < 0x80000000"
  shows "usyscall U num args s = Inr ((call_done U num args v s)\<lparr>console := console s @ out\<rparr>, Some v)"
proof -
  let ?t = "pop_frame (upd_tf (user_frame s) (set_reg R_a0 (of_int v)) ((called U num args s)\<lparr>console := console s @ out\<rparr>))"
  have r: "current s \<noteq> 0" "p_flags (procs s (current s)) AND PF_EXITING = 0" "\<not> p_need_resched (procs s (current s))"
    using rdy by (simp_all add: user_ready_def)
  have t: "current ?t = current s" "procs ?t = procs (called U num args s)" by (simp_all add: pop_frame_def upd_tf_def)
  have "trap_finish (p_tf (procs s (current s))) False ?t =
    Inr (upd_proc (current s) (\<lambda>p. p\<lparr>p_tf := p_tf (procs s (current s))\<rparr>) ?t, T_return)"
    using finish_returns [of ?t "p_tf (procs s (current s))"] r(2,3) unfolding t by simp
  moreover have "upd_proc (current s) (\<lambda>p. p\<lparr>p_tf := p_tf (procs s (current s))\<rparr>) ?t = (call_done U num args v s)\<lparr>console := console s @ out\<rparr>"
  proof -
    let ?u = "upd_tf (user_frame s) (\<lambda>_. ecall_frame U num args) s"
    have u: "current ?u = current s" "procs ?u = procs s" by (simp_all add: upd_tf_def)
    show ?thesis using in_call_return [of ?u "user_frame s"] unfolding u called_def
      by (simp only:) (simp add: call_done_def upd_tf_def ecall_frame_def)
  qed
  ultimately show ?thesis
    by (simp add: usyscall_def Let_def usyscall_trap [OF r(1)] called_syscall [OF num f] run)
      (simp add: call_done_def set_reg_def to_int_of_int [OF v])
qed

lemma usyscall_table:
  "syscalls vm SYS_putc = Some sys_putc" "syscalls vm SYS_getpid = Some sys_getpid" "syscalls vm SYS_pgdir = Some sys_pgdir"
  "syscalls vm SYS_exit = Some sys_exit" "syscalls vm SYS_kill = Some sys_kill" "syscalls vm SYS_wait = Some sys_wait"
  by (simp_all add: syscalls_def SYS_getpid_def SYS_exit_def SYS_fork_def SYS_wait_def SYS_exec_def SYS_yield_def
      SYS_kill_def SYS_putc_def SYS_pgdir_def)

lemma char_int_bounds: "(0::int) \<le> of_char c" "(of_char c :: int) < 2 ^ 64"
proof -
  have "of_char c = int (of_char c)" by (simp add: of_nat_of_char)
  then have "(0::int) \<le> of_char c" "(of_char c :: int) < 256" using nat_of_char_less_256 [of c] by linarith+
  then show "(0::int) \<le> of_char c" "(of_char c :: int) < 2 ^ 64" by simp_all
qed

lemma ucputch_prints:
  assumes "user_ready s"
  shows "\<exists>f. ucputch U c n s = Inr (s\<lparr>tfs := (tfs s)(user_frame s := f), console := console s @ [ch c]\<rparr>, Some (n + 1))"
proof -
  have "of_char c = (ucast (of_int (of_char c) :: u64) :: u8)"
    unfolding unsigned_of_int by (simp add: take_bit_int_eq_self [OF char_int_bounds] char_int_bounds of_nat_of_char)
  then have "usys_putc U (of_char c) s =
     Inr ((call_done U SYS_putc [of_int (of_char c)] 0 s)\<lparr>console := console s @ [ch c]\<rparr>, Some 0)"
    unfolding usys_putc_def
    by (intro usyscall_prints [OF assms _ _ usyscall_table(1)])
      (simp_all add: sys_putc_def cputchar_def sys_args_ecall MAX_ARGS_def va_args_def ch_def SYS_putc_def NUM_SYSCALLS_def)
  then show ?thesis unfolding ucputch_def call_done_def by (auto simp: bindU_def)
qed

lemma uputchs_prints:
  assumes "user_ready s"
  shows "\<exists>f. uputchs U str n s =
    Inr (s\<lparr>tfs := (tfs s)(user_frame s := f), console := console s @ str_bytes str\<rparr>, Some (n + int (length str)))"
  using assms
proof (induction str arbitrary: s n)
  case Nil
  then show ?case by (intro exI [of _ "tfs s (user_frame s)"]) (simp add: str_bytes_def)
next
  case (Cons c str)
  obtain f where f: "ucputch U c n s = Inr (s\<lparr>tfs := (tfs s)(user_frame s := f), console := console s @ [ch c]\<rparr>, Some (n + 1))"
    using ucputch_prints [OF Cons.prems] by blast
  let ?t = "s\<lparr>tfs := (tfs s)(user_frame s := f), console := console s @ [ch c]\<rparr>"
  have t: "user_ready ?t" "user_frame ?t = user_frame s" using Cons.prems by (simp_all add: user_ready_def user_frame_def)
  obtain g where "uputchs U str (n + 1) ?t =
    Inr (?t\<lparr>tfs := (tfs ?t)(user_frame s := g), console := console ?t @ str_bytes str\<rparr>, Some (n + 1 + int (length str)))"
    using Cons.IH [OF t(1), of "n + 1"] unfolding t(2) by blast
  then show ?case by (intro exI [of _ g]) (simp add: f bindU_def str_bytes_def algebra_simps del: fun_upd_apply)
qed

section \<open>Leaving for good\<close>

lemma drop_mmap_mem: "\<exists>g. \<forall>s. drop_mmap_mm mm ret s = bindR (g (mem s)) (\<lambda>m. Inr (s\<lparr>mem := m\<rparr>, ret))"
  by (rule exI [of _ "\<lambda>m. bindR (exit_mmap mm m) (\<lambda>m. bindR (kva2page m (pgdir (mms m mm))) (\<lambda>page.
      bindR (free_page page m) (mm_destroy mm)))"])
    (simp add: drop_mmap_mm_def drop_pgdir_mm_def put_pgdir_def on_mem0_def bindR_assoc)

text \<open>Whether the address space can be left depends on the memory subsystem only.\<close>

lemma leave_mm_cong:
  assumes "leave_mm s = Inr s1" and "mem t = mem s" "p_mm (procs t (current t)) = p_mm (procs s (current s))" "boot_cr3 t = boot_cr3 s"
  shows "\<exists>t1. leave_mm t = Inr t1"
proof -
  obtain g where "\<forall>s. drop_mmap_mm (p_mm (procs s0 (current s0))) 0 s = bindR (g (mem s)) (\<lambda>m. Inr (s\<lparr>mem := m\<rparr>, 0))"
    if "s0 = s" for s0 using drop_mmap_mem by blast
  then show ?thesis using assms
    by (auto simp: leave_mm_def Let_def lcr3_def bindR_eq_Inr split: if_splits prod.splits)
qed

lemma called_quiet: "quiet s (called U num args s)"
  unfolding called_def in_call_def
  by (rule quiet_trans [OF quiet_frame(1) quiet_trans [OF quiet_upd quiet_trans [OF frame_quiet(1) frame_quiet(3)]]]) simp

lemma do_exit_leaves:
  assumes ok: "table_ok s ps" and c: "current s \<noteq> idleproc s" "current s \<noteq> initproc s" and leave: "leave_mm s = Inr s1"
  shows "\<exists>t. do_exit code s = Inr (t, Away) \<and> table_ok t ps \<and> current t \<noteq> current s \<and>
     p_state (procs t (current s)) = PROC_ZOMBIE \<and> p_exit_code (procs t (current s)) = code"
proof -
  have s: "ptab s ps" "init_ok s ps" "current s \<in> set ps" using ok c(1) by (auto simp: table_ok_def tab_ok_def)
  from do_exit_ok [OF s c(2) leave, of code] obtain t where t: "do_exit code s = Inr (t, Away)" "current t \<noteq> current s"
     "p_state (procs t (current s)) = PROC_ZOMBIE" "p_exit_code (procs t (current s)) = code" by blast
  with table_ok_exit [OF ok t(1)] show ?thesis by blast
qed

text \<open>The caller is a process other than the first two.\<close>

lemma table_ok_current:
  assumes "table_ok s ps" "current s \<noteq> idleproc s"
  shows "current s \<noteq> 0" "current s \<in> set ps" "p_wait_state (procs s (current s)) = 0"
    "1 \<le> p_pid (procs s (current s))" "p_pid (procs s (current s)) < MAX_PID"
proof -
  have s: "ptab s ps" "p_state (procs s (current s)) = PROC_RUNNABLE"
    "\<forall>p\<in>set ps. p_wait_state (procs s p) \<noteq> 0 \<longrightarrow> p_state (procs s p) = PROC_SLEEPING"
    and c: "current s \<in> set ps" using assms by (auto simp: table_ok_def tab_ok_def)
  show "current s \<in> set ps" by (rule c)
  then show "current s \<noteq> 0" using ptabD(9) [OF s(1)] by metis
  show "p_wait_state (procs s (current s)) = 0" using s(2,3) c by force
  show "1 \<le> p_pid (procs s (current s))" "p_pid (procs s (current s)) < MAX_PID"
    using ptabD(1) [OF s(1)] c by (simp_all add: pid_inv_def)
qed

lemma uexit_leaves:
  assumes ok: "table_ok s ps" and c: "current s \<noteq> idleproc s" "current s \<noteq> initproc s" and leave: "leave_mm s = Inr s1"
    and v: "- 0x80000000 \<le> v" "v < 0x80000000"
  shows "\<exists>t. uexit U v s = Inr (t, None) \<and> table_ok t ps \<and> current t \<noteq> current s \<and>
     p_state (procs t (current s)) = PROC_ZOMBIE \<and> p_exit_code (procs t (current s)) = v"
proof -
  let ?w = "called U SYS_exit [of_int v] s"
  have "\<exists>w1. leave_mm ?w = Inr w1"
    by (rule leave_mm_cong [OF leave]) (simp_all add: called_def in_call_def skip_insn_def push_frame_def upd_tf_def)
  then obtain w1 where "leave_mm ?w = Inr w1" by blast
  from do_exit_leaves [OF table_ok_quiet [OF called_quiet ok] _ _ this, of v] c obtain t where
    t: "do_exit v ?w = Inr (t, Away)" "table_ok t ps" "current t \<noteq> current s"
     "p_state (procs t (current s)) = PROC_ZOMBIE" "p_exit_code (procs t (current s)) = v" by auto
  have "sys_exit (sys_args (ecall_frame U SYS_exit [of_int v])) ?w = Inr (t, Away)"
    using t(1) by (simp add: sys_exit_def sys_args_ecall MAX_ARGS_def va_args_def to_int_of_int [OF v])
  then have "syscall (ue_vm U) ?w = Inr (t, Away)"
    by (subst called_syscall [OF _ _ usyscall_table(4)]) (simp_all add: SYS_exit_def NUM_SYSCALLS_def)
  then have "usys_exit U v s = Inr (t, None)"
    by (simp add: usys_exit_def usyscall_def Let_def usyscall_trap [OF table_ok_current(1) [OF ok c(1)]])
  then show ?thesis using t by (auto simp: uexit_def)
qed

lemma do_kill_self:
  assumes ok: "table_ok s ps" and c: "current s \<noteq> idleproc s" and fl: "p_flags (procs s (current s)) AND PF_EXITING = 0"
  shows "do_kill (p_pid (procs s (current s))) s = Inr (upd_proc (current s) (\<lambda>p. p\<lparr>p_flags := p_flags p OR PF_EXITING\<rparr>) s, 0)"
proof -
  note cur = table_ok_current [OF ok c]
  have pt: "ptab s ps" using ok by (simp add: table_ok_def tab_ok_def)
  have d: "inj_on (\<lambda>p. p_pid (procs s p)) (set ps)" "\<forall>p\<in>set ps. 1 \<le> p_pid (procs s p) \<and> p_pid (procs s p) < MAX_PID"
    using ptabD(1) [OF pt] by (simp_all add: pid_inv_def distinct_map)
  have "find_proc (p_pid (procs s (current s))) s = Inr (current s)"
    using find_proc_ok [OF ptabD(2) [OF pt] d(2), of "p_pid (procs s (current s))"] cur(2) d(1)
    by (auto simp: proc_of_pid_def inj_on_def split: if_splits)
  then show ?thesis using cur(1,3) fl by (simp add: do_kill_def Let_def)
qed

section \<open>Properties\<close>

text \<open>C23: output of a user program.  For a process that is neither being killed nor to be rescheduled, \<open>cputs\<close> and \<open>cprintf\<close>
  put exactly their string and a newline, or exactly the formatted text, on the console, one \<open>ecall\<close> for each character;
  they return the number of characters, and nothing of the kernel's state changes but the console and the saved frame.\<close>

theorem user_stdio_prints:
  assumes rdy: "user_ready s"
  shows "(\<exists>f. ucputs U str s = Inr (s\<lparr>tfs := (tfs s)(user_frame s := f), console := console s @ str_bytes (str @ nl)\<rparr>,
      Some (int (length str) + 1))) \<and>
    (vprintfmt fmt ap = Inr out \<longrightarrow> (\<exists>f. ucprintf U fmt ap s =
      Inr (s\<lparr>tfs := (tfs s)(user_frame s := f), console := console s @ str_bytes out\<rparr>, Some (int (length out)))))"
proof (intro conjI impI)
  have "ucputs U str = uputchs U (str @ nl) 0"
    by (simp add: ucputs_def nl_def uputchs_append uputchs_one)
  then show "\<exists>f. ucputs U str s = Inr (s\<lparr>tfs := (tfs s)(user_frame s := f), console := console s @ str_bytes (str @ nl)\<rparr>,
      Some (int (length str) + 1))"
    using uputchs_prints [OF rdy, of U "str @ nl" 0] by (simp add: nl_def add.commute)
  show "\<exists>f. ucprintf U fmt ap s = Inr (s\<lparr>tfs := (tfs s)(user_frame s := f), console := console s @ str_bytes out\<rparr>, Some (int (length out)))"
    if "vprintfmt fmt ap = Inr out" using uputchs_prints [OF rdy, of U out 0] that by (simp add: ucprintf_def uvcprintf_def)
qed

text \<open>The witnesses: process 48 of the small kernel, with pid 2.\<close>

definition demo_uenv :: uenv where "demo_uenv = \<lparr>ue_vm = (\<lambda>_. 0), ue_regs = zero_trapframe, ue_va = (\<lambda>_. 0)\<rparr>"

lemma demo_ready: "user_ready (demo_kernel m 48)"
  by (simp add: user_ready_def demo_procs_def zero_proc_def)

lemma demo_leave: "leave_mm (demo_kernel m 48) = Inr (demo_kernel m 48)"
  by (simp add: leave_mm_def demo_fields_procs)

theorem user_stdio_prints_witness:
  "\<exists>s t u. console s = [] \<and> ucputs demo_uenv ''hi'' s = Inr (t, Some 3) \<and> console t = [104, 105, 10] \<and>
     ucprintf demo_uenv ''%c'' [VNum 65] s = Inr (u, Some 1) \<and> console u = [65]"
proof -
  let ?s = "demo_kernel (demo_state 1 reserved_pages) 48"
  have con: "console ?s = []" by (simp add: demo_kernel_def)
  have out: "vprintfmt ''%c'' [VNum 65] = Inr ''A''"
    by code_simp
  note p = user_stdio_prints [OF demo_ready, of demo_uenv "''hi''" "demo_state 1 reserved_pages" "''%c''" "[VNum 65]" "''A''"]
  obtain f where f: "ucputs demo_uenv ''hi'' ?s = Inr (?s\<lparr>tfs := (tfs ?s)(user_frame ?s := f), console := console ?s @ str_bytes (''hi'' @ nl)\<rparr>,
      Some (int (length ''hi'') + 1))" using p by blast
  obtain g where g: "ucprintf demo_uenv ''%c'' [VNum 65] ?s =
      Inr (?s\<lparr>tfs := (tfs ?s)(user_frame ?s := g), console := console ?s @ str_bytes ''A''\<rparr>, Some (int (length ''A'')))"
    using p out by blast
  obtain t where t: "ucputs demo_uenv ''hi'' ?s = Inr (t, Some 3)" "console t = [104, 105, 10]"
    using f by (simp add: con str_bytes_def nl_def ch_def)
  obtain u where "ucprintf demo_uenv ''%c'' [VNum 65] ?s = Inr (u, Some 1)" "console u = [65]"
    using g by (simp add: con str_bytes_def ch_def)
  with t con show ?thesis by blast
qed

text \<open>C22: a program ends.  When \<open>main\<close> returns, in a process other than the first two whose address space can be left, \<open>umain\<close>
  does not return and does not reach the message of \<open>exit\<close>: another process runs, and the caller is a zombie whose exit
  code is the value that \<open>main\<close> returned.\<close>

theorem umain_exits:
  assumes main: "main s = Inr (t, Some v)" and v: "- 0x80000000 \<le> v" "v < 0x80000000" and ok: "table_ok t ps"
    and c: "current t \<noteq> idleproc t" "current t \<noteq> initproc t" and leave: "leave_mm t = Inr t1"
  shows "\<exists>u. umain U main s = Inr (u, None) \<and> table_ok u ps \<and> current u \<noteq> current t \<and>
     p_state (procs u (current t)) = PROC_ZOMBIE \<and> p_exit_code (procs u (current t)) = v"
  using uexit_leaves [OF ok c leave v] by (simp add: umain_def main)

theorem umain_exits_witness:
  "\<exists>s u. current s = 48 \<and> umain demo_uenv (retU 7) s = Inr (u, None) \<and> p_state (procs u 48) = PROC_ZOMBIE \<and> p_exit_code (procs u 48) = 7"
proof -
  let ?s = "demo_kernel (demo_state 1 reserved_pages) 48"
  have "table_ok ?s [64, 48, 32]" by (rule demo_table) simp
  from umain_exits [of "retU 7" ?s ?s 7, OF retU_simp _ _ this _ _ demo_leave, of demo_uenv] obtain u
    where "umain demo_uenv (retU 7) ?s = Inr (u, None)" "p_state (procs u 48) = PROC_ZOMBIE" "p_exit_code (procs u 48) = 7" by auto
  then show ?thesis using demo_kernel_fields(7) by blast
qed

text \<open>C24: a process that kills itself is gone when the call would return: \<open>kill\<close> only marks it, and on the way out \<open>trap\<close> finds
  the mark and exits with \<open>-E_KILLED\<close>.\<close>

theorem ukill_self:
  assumes ok: "table_ok s ps" and rdy: "user_ready s" and c: "current s \<noteq> idleproc s" "current s \<noteq> initproc s"
    and leave: "leave_mm s = Inr s1"
  shows "\<exists>t. ukill U (p_pid (procs s (current s))) s = Inr (t, None) \<and> table_ok t ps \<and> current t \<noteq> current s \<and>
     p_state (procs t (current s)) = PROC_ZOMBIE \<and> p_exit_code (procs t (current s)) = - E_KILLED"
proof -
  let ?pid = "p_pid (procs s (current s))"
  let ?w = "called U SYS_kill [of_int ?pid] s"
  let ?x = "upd_proc (current s) (\<lambda>p. p\<lparr>p_flags := p_flags p OR PF_EXITING\<rparr>) ?w"
  let ?y = "pop_frame (upd_tf (user_frame s) (set_reg R_a0 0) ?x)"
  let ?z = "upd_proc (current s) (\<lambda>p. p\<lparr>p_tf := p_tf (procs s (current s))\<rparr>) ?y"
  note cur = table_ok_current [OF ok c(1)]
  have w: "table_ok ?w ps" by (rule table_ok_quiet [OF called_quiet ok])
  have k: "do_kill ?pid ?w = Inr (?x, 0)"
    using do_kill_self [OF w] rdy c(1) by (simp add: user_ready_def)
  have "to_int (of_int ?pid) = ?pid" using cur(4,5) by (intro to_int_of_int) (simp_all add: MAX_PID_def MAX_PROCESS_def)
  then have "syscall (ue_vm U) ?w = Inr (upd_tf (user_frame s) (set_reg R_a0 0) ?x, Ret ())"
    using k by (subst called_syscall [OF _ _ usyscall_table(5)])
      (simp_all add: SYS_kill_def NUM_SYSCALLS_def sys_kill_def sys_args_ecall MAX_ARGS_def va_args_def)
  then have tr: "usyscall U SYS_kill [of_int ?pid] s =
    bindR (trap_finish (p_tf (procs s (current s))) False ?y) (\<lambda>(s', e).
      Inr (s', if e = T_return then Some (to_int (gpr (tfs s' (user_frame s)) R_a0)) else None))"
    by (simp add: usyscall_def Let_def usyscall_trap [OF cur(1)])
  have y: "current ?y = current s" "procs ?y = procs ?x" "mem ?y = mem s" "idleproc ?y = idleproc s" "initproc ?y = initproc s"
    "boot_cr3 ?y = boot_cr3 s"
    by (simp_all add: pop_frame_def upd_tf_def) (simp add: called_def in_call_def skip_insn_def push_frame_def upd_tf_def)
  have ex: "p_flags (procs ?z (current s)) AND PF_EXITING \<noteq> 0"
    by (simp add: y) (simp add: PF_EXITING_def bit.conj_disj_distrib2)
  have q: "quiet ?w ?x" "quiet ?y ?z" by (rule quiet_upd, simp)+
  have "quiet ?w ?z"
    by (rule quiet_trans [OF q(1) quiet_trans [OF quiet_trans [OF quiet_frame(1) frame_quiet(2)] q(2)]])
  then have z: "table_ok ?z ps" "current ?z = current s" "idleproc ?z = idleproc s" "initproc ?z = initproc s"
    using table_ok_quiet [OF _ w] by (simp_all add: y)
  have zf: "mem ?z = mem s" "p_mm (procs ?z (current ?z)) = p_mm (procs s (current s))" "boot_cr3 ?z = boot_cr3 s"
    by (simp_all add: y(1-3,6)) (simp add: pop_frame_def upd_tf_def)
  have "\<exists>z1. leave_mm ?z = Inr z1" by (rule leave_mm_cong [OF leave zf])
  then obtain z1 where "leave_mm ?z = Inr z1" by blast
  from do_exit_leaves [OF z(1) _ _ this, of "- E_KILLED"] obtain t where t: "do_exit (- E_KILLED) ?z = Inr (t, Away)"
    "table_ok t ps" "current t \<noteq> current s" "p_state (procs t (current s)) = PROC_ZOMBIE"
    "p_exit_code (procs t (current s)) = - E_KILLED" unfolding z(2-4) using c by blast
  have "trap_finish (p_tf (procs s (current s))) False ?y = Inr (t, T_away)"
    using ex t(1) unfolding trap_finish_def Let_def y(1) by simp
  then show ?thesis using t by (simp add: ukill_def usys_kill_def tr)
qed

theorem ukill_self_witness:
  "\<exists>s u. current s = 48 \<and> ukill demo_uenv 2 s = Inr (u, None) \<and> p_state (procs u 48) = PROC_ZOMBIE \<and> p_exit_code (procs u 48) = - E_KILLED"
proof -
  let ?s = "demo_kernel (demo_state 1 reserved_pages) 48"
  have "table_ok ?s [64, 48, 32]" by (rule demo_table) simp
  from ukill_self [OF this demo_ready _ _ demo_leave, of demo_uenv] obtain u
    where "ukill demo_uenv 2 ?s = Inr (u, None)" "p_state (procs u 48) = PROC_ZOMBIE" "p_exit_code (procs u 48) = - E_KILLED"
    by (auto simp: demo_fields_procs)
  then show ?thesis using demo_kernel_fields(7) by blast
qed

end
