(* ===== verification/Spec2Isabelle.thy ===== *)
theory Spec2Isabelle
  imports Bitops Pmm_Check Ranges Slob_Correct Vmm_Fault Kmonitor Userlib
begin

text \<open>
  \<^bold>\<open>nkucore: a verification development.\<close>

  The program is a teaching kernel for 64-bit RISC-V: a page allocator and page tables, a heap, virtual
  memory areas with demand paging and swapping, processes with fork, exec, exit, wait and kill, a
  round robin scheduler, traps and system calls, a console monitor, and a small C library.  Traps
  enter in \<open>kern/trap\<close>, which calls the system calls of \<open>kern/syscall\<close>, the page fault handler of
  \<open>kern/mm/vmm.c\<close> and the scheduler; processes (\<open>kern/process\<close>) own a kernel stack from the page allocator, a
  structure from the heap and an address space from \<open>vmm.c\<close>; \<open>vmm.c\<close> rests on the page tables of \<open>pmm.c\<close>,
  which rest on the page allocator and, when memory is short, on swapping.

  \<^bold>\<open>How code becomes definitions.\<close>  A routine is a function from the state it works on to a result of
  type \<^typ>\<open>'a res\<close>: \<^const>\<open>Inr\<close> a value, or \<^const>\<open>Inl\<close> one of a failed assert, a panic, an access through a
  bad pointer, or a loop that does not end.  A loop whose end is not evident is a \<open>partial_function\<close>
  (option), and \<open>None\<close> becomes \<^const>\<open>Hang\<close>; theorems say that such a loop returns.  No fuel is used
  anywhere.  Machine integers are words of their width; counters the code keeps in an \<open>int\<close> and never
  lets overflow are \<open>int\<close>, or \<open>nat\<close> where they are never negative.  Pointers to heap objects are numbers, 0 is NULL; list links are stores
  of \<open>prev\<close> and \<open>next\<close> fields.  Interrupts are the bit of \<open>sstatus\<close>; the kernel has one processor, and a
  process gives it up only in \<open>schedule\<close>: what it still has to do then is a list of frames, \<open>kont\<close>.

  \<^bold>\<open>Theories, from the bottom up.\<close>
  \<^item> \<open>Kern_Prelude\<close>: words, outcomes and their sequencing, shared lemmas.
  \<^item> \<open>Ulist\<close> (libs/list.h): the intrusive lists; locale \<open>circular_list\<close> is their interface, interpreted as
    \<open>lh\<close> and used by every list of the kernel.
  \<^item> \<open>Bitops\<close> (libs/atomic.h, kern/sync, kern/driver/intr.c): bit operations, interrupt flag, lock word.
  \<^item> \<open>Default_Pmm\<close> (kern/mm/default_pmm.c): the first-fit allocator; locale \<open>pmm_manager\<close>, interpreted as
    \<open>dpmm\<close>, is its contract on the set of free pages, and \<open>pmm.c\<close> rests on that contract.  The one case
    the code gets wrong is a block freed above all free ones (not \<open>insertable\<close>): the contract of \<open>dpmm\<close> excludes it,
    \<open>default_free_total\<close> says what happens in both cases, and two allocations of the same block follow from it.
  \<^item> \<open>Mem_State\<close> (mmu.h, memlayout.h, pmm.h): layout, address macros, page descriptors, the state of the
    memory subsystem.  \<open>Pmm\<close> (pmm.c, swap.c, swap_fifo.c, swapfs.c, ide.c): allocation with swap-out,
    page tables, ranges, swapping.  \<open>Pagetable\<close>: the three-level walk as a lookup, what creating,
    inserting and removing entries does to every mapping, to the reference counts and to the free list.
    \<open>Swap\<close>: the replacement policy as a queue (locale \<open>replacement_queue\<close>, interpreted as \<open>fifo\<close>), a page swapped
    out and in again, in every case, and why no page of a user program can be.  \<open>Ranges\<close>: what \<open>unmap_range\<close> gives back and what
    \<open>copy_range\<close>, the memory part of fork, copies.  \<open>Pmm_Check\<close>: \<open>pmm_init\<close> with the allocator's self test, run symbolically
    for every size of the kernel image.
  \<^item> \<open>Slob\<close> (kmalloc.c): the heap.  \<open>Slob_Inv\<close> and \<open>Slob_Alloc\<close> show that the circular list holds a set of free bytes, to
    which \<open>slob_free\<close> adds and from which \<open>slob_alloc\<close> takes, a page at a time from the page allocator when no
    block fits; \<open>Slob_Correct\<close> states the contract of \<open>kmalloc\<close> and \<open>kfree\<close> on live objects as the locale \<open>object_heap\<close>, interpreted
    as \<open>kheap\<close>, for objects smaller than a page (the only ones the kernel asks for).
  \<^item> \<open>Vmm\<close> (vmm.c, vmm.h): areas and page faults; \<open>Vmm_Areas\<close> and \<open>Vmm_Fault\<close> hold
    the invariant of sorted disjoint areas and the properties.
  \<^item> \<open>Kstring\<close>, \<open>Printfmt\<close>, \<open>Monitor\<close> (libs/string.c, libs/printfmt.c, kern/libs, kern/debug/kmonitor.c): the library
    and the monitor's line editor and parser; \<open>Kmonitor\<close> (kern/debug): its commands and loop, and the messages of panic.
  \<^item> \<open>Proc_State\<close>, \<open>Proc_Table\<close>, \<open>Proc\<close>, \<open>Proc_Exec\<close>, \<open>Trap\<close> (proc.h, proc.c, sched.c, elf.h, trap.c, syscall.c): the
    kernel state and every operation of processes, scheduler, program loading, system calls and
    traps.
  \<^item> \<open>Proc_Inv\<close>: \<open>get_pid\<close> ends with a free pid; \<open>schedule\<close> is the first runnable process in circular order, and
    fair.  \<open>Proc_Family\<close>: hash lists and family links as sets.  \<open>Proc_Life\<close>, \<open>Proc_Exit\<close>, \<open>Proc_Fork\<close>: the
    invariant \<open>ptab\<close> of the table, kept by linking in, exit, wait, kill and fork.  \<open>Proc_Machine\<close>: the
    step relation \<open>kstep\<close> of the whole kernel and the invariant \<open>table_ok\<close> on its runs \<open>kruns\<close>.
    \<open>Proc_Boot\<close>: \<open>proc_init\<close> establishes it.  \<open>Proc_Correct\<close> and \<open>Trap_Correct\<close>: the properties, with a
    small kernel of four processes as their witness.
  \<^item> \<open>Userlib\<close> (user/libs): the library of user programs, each system call through \<open>ecall\<close> and \<open>trap\<close>: what printing puts on the
    console, how a program ends, and what becomes of a process that kills itself.

  \<^bold>\<open>What the properties rest on.\<close>  Operations that take memory say so: a property of \<open>do_fork\<close> or \<open>proc_init\<close>
  has what \<open>kmalloc\<close> and \<open>alloc_pages\<close> return as hypotheses, and that a new structure is none of those in
  use.  A run of the kernel (\<open>kstep\<close>) takes this last fact as a premise of a trap.  Properties of operations that free a
  page state the outcome for both cases of \<open>insertable\<close>, or, for \<open>unmap_range\<close>, which frees many, name it as a condition.
  The running kernel has \<open>swap_init_ok\<close> set and \<open>check_mm_struct\<close> NULL, so that an allocation of one page with no page free
  follows a NULL pointer in \<open>swap_out\<close>; the properties of heap and page faults cover that state and the one before \<open>swap_init\<close>.

  \<^bold>\<open>Parameters.\<close>  \<open>vm\<close>, the bytes the kernel reads at virtual addresses while it loads a program, the
  addresses of code and linker symbols (\<open>forkret_entry\<close>, \<open>proc_run_ret\<close>, \<open>kernel_thread_entry\<close>, \<open>bootstack\<close>, \<open>kend\<close>, \<open>ksyms\<close>), and for a user program its
  registers and what \<open>va_arg\<close> reads past the last argument (\<open>uenv\<close>).

  \<^bold>\<open>Not modelled.\<close>  Assembly (entry.S, trapentry.S, initcode.S; switch.S is \<open>switch_to\<close>) and the register
  access macros of riscv.h; the firmware calls of sbi.h, the clock and the console device, which are
  I/O; the other self tests (\<open>check_pgdir\<close>, \<open>check_swap\<close>, \<open>check_vmm\<close>, \<open>init_main\<close>, the programs
  of user/), which only exercise the operations; the host tools.
\<close>

section \<open>Runs of the whole kernel\<close>

text \<open>C1: the kernel as a machine.  From a state whose process table is in order, whatever user code does to
  memory and registers, and through every sequence of traps, of processes that go on after a
  switch, and of turns of the idle loop, the table stays in order, as long as the heap hands out
  no structure that is in the table: pids are distinct, the list, the hash lists and the family
  links agree, only sleeping processes have a wait state, and the running process is runnable or
  the idle one.  So in every such state \<open>schedule\<close> and \<open>do_kill\<close> return.\<close>

theorem kernel_run_safe:
  assumes "kruns vm s t" and "table_ok s ps"
  shows "\<exists>ps'. table_ok t ps' \<and> distinct (map (\<lambda>p. p_pid (procs t p)) ps') \<and>
     (\<exists>u. schedule t = Inr u \<and> table_ok u ps') \<and> (\<forall>pid. \<exists>u r. do_kill pid t = Inr (u, r))"
proof -
  obtain ps' where ok: "table_ok t ps'" using table_ok_kruns [OF assms] by blast
  moreover have "distinct (map (\<lambda>p. p_pid (procs t p)) ps')"
    using ok ptabD(1) by (auto simp: table_ok_def tab_ok_def pid_inv_def)
  moreover have "\<exists>u. schedule t = Inr u \<and> table_ok u ps'" using ok tab_ok_schedule by (simp add: table_ok_def)
  ultimately show ?thesis using table_ok_kill by blast
qed

lemma demo_fresh:
  assumes "plist (plinks (demo_kernel (demo_state 1 f) c)) ps"
  shows "kmalloc sizeof_proc_struct (demo_state 1 f) = Inr (m, p) \<Longrightarrow> p \<notin> insert 16 (set ps)"
proof -
  have "ps = [64, 48, 32]" by (rule plist_unique [OF assms [unfolded demo_kernel_fields] demo_plist])
  moreover have "p = 4112" if "kmalloc sizeof_proc_struct (demo_state 1 f) = Inr (m, p)"
    using that demo_kmalloc(1) [of f] by (metis prod.inject sum.inject(2))
  ultimately show "kmalloc sizeof_proc_struct (demo_state 1 f) = Inr (m, p) \<Longrightarrow> p \<notin> insert 16 (set ps)" by force
qed

theorem kernel_run_safe_witness:
  "\<exists>s t. ticks t = ticks s + 1 \<and> kruns (\<lambda>_. 0) s t \<and> (\<exists>u. schedule t = Inr u)"
proof -
  let ?s = "demo_kernel (demo_state 1 reserved_pages) 48"
  let ?s1 = "?s\<lparr>mem := mem ?s, tfs := (\<lambda>_. zero_trapframe\<lparr>tf_cause := 0x8000000000000005\<rparr>)\<rparr>"
  have n: "\<not> p_need_resched (demo_procs 48)" by (simp add: demo_procs_def zero_proc_def)
  have "\<exists>t. trap (\<lambda>_. 0) 0 ?s1 = Inr (t, T_return) \<and> ticks t = ticks ?s + 1"
    by (simp add: trap_def Let_def trap_dispatch_def push_frame_def pop_frame_def upd_proc_def interrupt_handler_def
        IRQ_S_TIMER_def trap_finish_def zero_trapframe_def trap_in_kernel_def demo_fields_procs n demo_kernel_def TICK_NUM_def)
  then obtain t where t: "trap (\<lambda>_. 0) 0 ?s1 = Inr (t, T_return)" "ticks t = ticks ?s + 1" by blast
  have "kruns (\<lambda>_. 0) ?s ?s1" by (rule kruns.step [OF kruns.refl kstep.user])
  moreover have "kstep (\<lambda>_. 0) ?s1 t" by (rule kstep.trap [OF t(1)]) (use demo_fresh in \<open>auto simp: fresh_def\<close>)
  ultimately have run: "kruns (\<lambda>_. 0) ?s t" by (rule kruns.step)
  then have "\<exists>u. schedule t = Inr u" using kernel_run_safe [OF run demo_table] by auto
  with t(2) run show ?thesis by blast
qed

end
